(* ===== verification/Foundry_Prelude.thy ===== *)
theory Foundry_Prelude
  imports Main "HOL-Library.Word" "HOL-Library.Signed_Division"
begin

text \<open>
  Shared material of the development: the machine integer types of the Rust sources, the
  operations of the 256-bit unsigned integer type that the symbolic engine uses (bit length,
  byte view, checked conversion to \<open>usize\<close>), and the facts on words, lists and options that the
  component theories share. The collections \<open>u256_simps\<close> and \<open>width_intros\<close> carry the rewriting
  and the bit-width reasoning of the symbolic expression theories.
\<close>

unbundle bit_operations_syntax

named_theorems u256_simps "rewriting of 256-bit word operations"
named_theorems width_intros "introduction rules for unsigned bit widths"

section \<open>Machine integers\<close>

type_synonym u8 = "8 word"
type_synonym u64 = "64 word"
type_synonym u256 = "256 word"

text \<open>The largest 256-bit value, \<open>U256::MAX\<close>.\<close>

abbreviation U256_MAX :: u256 where
  "U256_MAX \<equiv> - 1"

text \<open>\<open>usize::try_from\<close> on a 256-bit word: the value when it fits 64 bits.\<close>

definition usize_try_from :: "u256 \<Rightarrow> nat option" where
  "usize_try_from v = (if unat v < 2 ^ 64 then Some (unat v) else None)"

abbreviation USIZE_MAX :: nat where
  "USIZE_MAX \<equiv> 2 ^ 64 - 1"

definition usize_saturating_add :: "nat \<Rightarrow> nat \<Rightarrow> nat" where
  "usize_saturating_add a b = min (a + b) USIZE_MAX"

text \<open>\<open>U256::to::<u8>\<close>: the conversion panics (\<open>None\<close>) when the value exceeds a byte.\<close>

definition to_u8 :: "u256 \<Rightarrow> u8 option" where
  "to_u8 v = (if unat v < 256 then Some (ucast v) else None)"

fun bitlen_nat :: "nat \<Rightarrow> nat" where
  "bitlen_nat n = (if n = 0 then 0 else Suc (bitlen_nat (n div 2)))"

declare bitlen_nat.simps [simp del]

definition bit_len :: "u256 \<Rightarrow> nat" where
  "bit_len v = bitlen_nat (unat v)"

definition is_power_of_two :: "u256 \<Rightarrow> bool" where
  "is_power_of_two v \<longleftrightarrow> v \<noteq> 0 \<and> v = push_bit (bit_len v - 1) 1"

text \<open>\<open>to_be_bytes::<32>()[index]\<close> and \<open>from_be_bytes\<close> on 32 bytes.\<close>

definition be_byte :: "u256 \<Rightarrow> nat \<Rightarrow> u8" where
  "be_byte v index = ucast (drop_bit ((31 - index) * 8) v)"

definition to_be_bytes :: "u256 \<Rightarrow> u8 list" where
  "to_be_bytes v = map (be_byte v) [0..<32]"

definition from_be_bytes :: "u8 list \<Rightarrow> u256" where
  "from_be_bytes bs = foldl (\<lambda>acc b. push_bit 8 acc OR ucast b) 0 bs"

section \<open>Bit lengths\<close>

lemma bitlen_nat_upper: "n < 2 ^ bitlen_nat n"
proof (induction n rule: bitlen_nat.induct)
  case (1 n)
  show ?case
  proof (cases "n = 0")
    case True
    then show ?thesis by (simp add: bitlen_nat.simps)
  next
    case False
    with 1 have "n div 2 < 2 ^ bitlen_nat (n div 2)" by simp
    then have "n < 2 * 2 ^ bitlen_nat (n div 2)" by linarith
    with False show ?thesis by (subst bitlen_nat.simps) simp
  qed
qed

lemma bitlen_nat_le: "n < 2 ^ k \<Longrightarrow> bitlen_nat n \<le> k"
proof (induction n arbitrary: k rule: bitlen_nat.induct)
  case (1 n)
  show ?case
  proof (cases "n = 0")
    case True
    then show ?thesis by (simp add: bitlen_nat.simps)
  next
    case False
    with "1.prems" obtain j where k: "k = Suc j" by (cases k) auto
    with "1.prems" have "n div 2 < 2 ^ j" by auto
    with 1 False have "bitlen_nat (n div 2) \<le> j" by blast
    with False k show ?thesis by (subst bitlen_nat.simps) simp
  qed
qed

lemma bit_len_upper: "unat v < 2 ^ bit_len v"
  by (simp add: bit_len_def bitlen_nat_upper)

lemma bit_len_le_256: "bit_len v \<le> 256"
proof -
  have "unat v < 2 ^ 256" using unsigned_less [of v] by simp
  then show ?thesis by (simp add: bit_len_def bitlen_nat_le)
qed

lemma unat_exp2: "n < 256 \<Longrightarrow> unat (2 ^ n :: u256) = 2 ^ n"
proof -
  assume n: "n < 256"
  have "unat (2 ^ n :: u256) = take_bit 256 (2 ^ n)"
    using unsigned_push_bit_eq [where 'a = nat, of n "1 :: u256"] by (simp add: push_bit_eq_mult)
  with n show ?thesis by simp
qed

lemma is_power_of_two_iff: "is_power_of_two v \<longleftrightarrow> (\<exists>n < 256. v = 2 ^ n)"
proof
  assume p: "is_power_of_two v"
  then have "bit_len v \<noteq> 0"
    by (auto simp: is_power_of_two_def bit_len_def bitlen_nat.simps [of "unat v"] unat_eq_0)
  with p bit_len_le_256 [of v] show "\<exists>n < 256. v = 2 ^ n"
    by (intro exI [of _ "bit_len v - 1"]) (auto simp: is_power_of_two_def push_bit_eq_mult)
next
  assume "\<exists>n < 256. v = 2 ^ n"
  then obtain n where n: "n < 256" "v = 2 ^ n" by blast
  have u: "unat v = 2 ^ n"
    using n by (simp add: unat_exp2)
  have "bitlen_nat (2 ^ n) = Suc n"
  proof (rule antisym)
    show "bitlen_nat (2 ^ n) \<le> Suc n" by (rule bitlen_nat_le) simp
    have "(2::nat) ^ n < 2 ^ bitlen_nat (2 ^ n)" by (rule bitlen_nat_upper)
    then have "n < bitlen_nat (2 ^ n)" using power_less_imp_less_exp by fastforce
    then show "Suc n \<le> bitlen_nat (2 ^ n)" by simp
  qed
  with u have "bit_len v = Suc n" by (simp add: bit_len_def)
  with n show "is_power_of_two v"
    by (simp add: is_power_of_two_def push_bit_eq_mult)
qed

end
