(* ===== verification/Sym_Expr.thy ===== *)
theory Sym_Expr
  imports Foundry_Prelude
begin

text \<open>
  The expression language of the symbolic EVM engine (crates/evm/symbolic): the word and Boolean
  expression nodes, the operators and their concrete evaluation, and the model evaluator of
  \<open>runtime/expr/mod.rs\<close>. \<open>eval_word\<close> and \<open>eval_bool\<close> are the reference semantics by structural
  recursion; \<open>eval_word_m\<close> and \<open>eval_bool_m\<close> are the evaluator of the code with its two memo
  tables, and the refinement lemmas show that the tables never change a result.

  Expressions are hash-consed in the code, so that equality is pointer equality; the theories
  \<open>Hash_Cons\<close> and \<open>Hash_Context\<close> model the tables and the handles and show that this is structural equality,
  which is what the model uses. The record
  \<open>SymCx\<close> holds what the engine takes from other crates (the structural hash, Keccak-256 and the
  signed operations of the EVM interpreter) next to the table of concrete Keccak preimages.
\<close>

section \<open>Errors\<close>

datatype SymbolicError =
    MissingAccount nat
  | MissingCode nat
  | Backend string
  | UnsupportedAbi string
  | CalldataVariantLimit nat
  | Unsupported string
  | UnsupportedOpcode u8
  | InvalidBytecode string
  | InvalidJump nat
  | StackUnderflow
  | StackOverflow
  | Solver string
  | SolverUnknown
  | Timeout nat
  | SolverQueryLimit nat
  | Abi string

section \<open>Expressions\<close>

type_synonym symbol = nat

datatype SymTernOp = AddMod | MulMod

datatype SymBinOp =
    Add | Sub | Mul | UDiv | URem | SDiv | SRem | And | Or | Xor | Shl | Shr | Sar

datatype SymCmpOp = Eq | Ult | Ugt | Ule | Uge | Slt | Sgt

datatype SymExpr =
    Const u256
  | Var symbol
  | GasLeft symbol
  | Keccak symbol SymExpr "SymExpr list"
  | Hash symbol string "SymExpr list"
  | NotW SymExpr
  | BinOp SymBinOp SymExpr SymExpr
  | TernOp SymTernOp SymExpr SymExpr SymExpr
  | Ite SymBoolExpr SymExpr SymExpr
and SymBoolExpr =
    ConstB bool
  | NotB SymBoolExpr
  | AndB "SymBoolExpr list"
  | CmpB SymCmpOp SymExpr SymExpr

text \<open>\<open>std::cmp::Ordering\<close>.\<close>

datatype Ordering = Less | Equal | Greater

record SymCx =
  stable_hash :: "SymExpr \<Rightarrow> u64"
  keccak256 :: "u8 list \<Rightarrow> u256"
  i256_div :: "u256 \<Rightarrow> u256 \<Rightarrow> u256"
  i256_mod :: "u256 \<Rightarrow> u256 \<Rightarrow> u256"
  i256_cmp :: "u256 \<Rightarrow> u256 \<Rightarrow> Ordering"
  concrete_keccak_preimages :: "u256 \<rightharpoonup> SymExpr list"

text \<open>
  What the engine relies on of the interpreter's signed operations: division and remainder by
  zero and by one as the EVM defines them, and that a word compares equal to itself.
\<close>

definition evm_signed_laws :: "SymCx \<Rightarrow> bool" where
  "evm_signed_laws cx \<longleftrightarrow>
     (\<forall>a. i256_div cx a 0 = 0 \<and> i256_div cx a 1 = a \<and>
          i256_mod cx a 0 = 0 \<and> i256_mod cx a 1 = 0 \<and> i256_cmp cx a a = Equal)"

text \<open>A model of the solver: \<open>SymbolicModelLookup::value\<close>.\<close>

type_synonym model = "symbol \<rightharpoonup> u256"

section \<open>Concrete evaluation of the operators\<close>

fun eval_ternop :: "SymTernOp \<Rightarrow> u256 \<Rightarrow> u256 \<Rightarrow> u256 \<Rightarrow> u256" where
  "eval_ternop op left right modulus =
     (if modulus = 0 then 0
      else case op of
        AddMod \<Rightarrow> of_nat ((unat left + unat right) mod unat modulus)
      | MulMod \<Rightarrow> of_nat ((unat left * unat right) mod unat modulus))"

fun eval_binop :: "SymCx \<Rightarrow> SymBinOp \<Rightarrow> u256 \<Rightarrow> u256 \<Rightarrow> u256" where
  "eval_binop cx Add left right = left + right"
| "eval_binop cx Sub left right = left - right"
| "eval_binop cx Mul left right = left * right"
| "eval_binop cx UDiv left right = (if right = 0 then 0 else left div right)"
| "eval_binop cx URem left right = (if right = 0 then 0 else left mod right)"
| "eval_binop cx SDiv left right = i256_div cx left right"
| "eval_binop cx SRem left right = i256_mod cx left right"
| "eval_binop cx And left right = (left AND right)"
| "eval_binop cx Or left right = (left OR right)"
| "eval_binop cx Xor left right = (left XOR right)"
| "eval_binop cx Shl left right = (if right \<ge> 256 then 0 else push_bit (unat right) left)"
| "eval_binop cx Shr left right = (if right \<ge> 256 then 0 else drop_bit (unat right) left)"
| "eval_binop cx Sar left right =
     (if right \<ge> 256 then signed_drop_bit 256 left else signed_drop_bit (unat right) left)"

fun eval_cmp :: "SymCx \<Rightarrow> SymCmpOp \<Rightarrow> u256 \<Rightarrow> u256 \<Rightarrow> bool" where
  "eval_cmp cx Eq left right = (left = right)"
| "eval_cmp cx Ult left right = (left < right)"
| "eval_cmp cx Ugt left right = (left > right)"
| "eval_cmp cx Ule left right = (left \<le> right)"
| "eval_cmp cx Uge left right = (left \<ge> right)"
| "eval_cmp cx Slt left right = (i256_cmp cx left right = Less)"
| "eval_cmp cx Sgt left right = (i256_cmp cx left right = Greater)"

section \<open>Reference semantics\<close>

text \<open>The error of a Keccak node whose length exceeds its bytes under the model.\<close>

definition keccak_len_error :: SymbolicError where
  "keccak_len_error = Solver ''solver model uses an invalid keccak length''"

fun eval_word :: "SymCx \<Rightarrow> model \<Rightarrow> SymExpr \<Rightarrow> SymbolicError + u256"
and eval_take :: "SymCx \<Rightarrow> model \<Rightarrow> nat \<Rightarrow> SymExpr list \<Rightarrow> SymbolicError + u8 list"
and eval_bool :: "SymCx \<Rightarrow> model \<Rightarrow> SymBoolExpr \<Rightarrow> SymbolicError + bool"
and eval_all :: "SymCx \<Rightarrow> model \<Rightarrow> SymBoolExpr list \<Rightarrow> SymbolicError + bool" where
  "eval_word cx M (Const v) = Inr v"
| "eval_word cx M (Var x) = Inr (case M x of Some v \<Rightarrow> v | None \<Rightarrow> 0)"
| "eval_word cx M (GasLeft x) = Inr (case M x of Some v \<Rightarrow> v | None \<Rightarrow> 0)"
| "eval_word cx M (Hash x alg bytes) = Inr (case M x of Some v \<Rightarrow> v | None \<Rightarrow> 0)"
| "eval_word cx M (Keccak x len bytes) =
     (case eval_word cx M len of Inl e \<Rightarrow> Inl e | Inr l \<Rightarrow>
       (case usize_try_from l of
          None \<Rightarrow> Inl keccak_len_error
        | Some n \<Rightarrow>
            if n > length bytes then Inl keccak_len_error
            else (case eval_take cx M n bytes of Inl e \<Rightarrow> Inl e | Inr bs \<Rightarrow> Inr (keccak256 cx bs))))"
| "eval_word cx M (NotW e) = (case eval_word cx M e of Inl err \<Rightarrow> Inl err | Inr v \<Rightarrow> Inr (NOT v))"
| "eval_word cx M (BinOp op l r) =
     (case eval_word cx M l of Inl e \<Rightarrow> Inl e | Inr a \<Rightarrow>
       (case eval_word cx M r of Inl e \<Rightarrow> Inl e | Inr b \<Rightarrow> Inr (eval_binop cx op a b)))"
| "eval_word cx M (TernOp op l r m) =
     (case eval_word cx M l of Inl e \<Rightarrow> Inl e | Inr a \<Rightarrow>
       (case eval_word cx M r of Inl e \<Rightarrow> Inl e | Inr b \<Rightarrow>
         (case eval_word cx M m of Inl e \<Rightarrow> Inl e | Inr c \<Rightarrow> Inr (eval_ternop op a b c))))"
| "eval_word cx M (Ite c t e) =
     (case eval_bool cx M c of Inl err \<Rightarrow> Inl err
      | Inr b \<Rightarrow> if b then eval_word cx M t else eval_word cx M e)"
| "eval_take cx M n [] = Inr []"
| "eval_take cx M n (e # es) =
     (if n = 0 then Inr []
      else (case eval_word cx M e of Inl err \<Rightarrow> Inl err | Inr v \<Rightarrow>
        (case eval_take cx M (n - 1) es of Inl err \<Rightarrow> Inl err
         | Inr bs \<Rightarrow> Inr (ucast (v AND 0xff) # bs))))"
| "eval_bool cx M (ConstB b) = Inr b"
| "eval_bool cx M (NotB c) = (case eval_bool cx M c of Inl err \<Rightarrow> Inl err | Inr b \<Rightarrow> Inr (\<not> b))"
| "eval_bool cx M (AndB cs) = eval_all cx M cs"
| "eval_bool cx M (CmpB op l r) =
     (case eval_word cx M l of Inl e \<Rightarrow> Inl e | Inr a \<Rightarrow>
       (case eval_word cx M r of Inl e \<Rightarrow> Inl e | Inr b \<Rightarrow> Inr (eval_cmp cx op a b)))"
| "eval_all cx M [] = Inr True"
| "eval_all cx M (c # cs) =
     (case eval_bool cx M c of Inl err \<Rightarrow> Inl err
      | Inr b \<Rightarrow> if b then eval_all cx M cs else Inr False)"

section \<open>The memoising evaluator\<close>

text \<open>
  The two memo tables of \<open>ModelEvaluator\<close>. A result is stored only when the evaluation
  succeeds, and Boolean results only for conjunctions.
\<close>

record ModelEvaluator =
  ev_words :: "SymExpr \<rightharpoonup> u256"
  ev_bools :: "SymBoolExpr \<rightharpoonup> bool"

definition ModelEvaluator_new :: ModelEvaluator where
  "ModelEvaluator_new = \<lparr>ev_words = Map.empty, ev_bools = Map.empty\<rparr>"

text \<open>\<open>self.words.insert\<close> and \<open>self.bools.insert\<close> on the way out of a successful evaluation.\<close>

definition remember_word ::
    "SymExpr \<Rightarrow> SymbolicError + u256 \<times> ModelEvaluator \<Rightarrow> SymbolicError + u256 \<times> ModelEvaluator" where
  "remember_word e r = (case r of Inl err \<Rightarrow> Inl err
     | Inr (v, s) \<Rightarrow> Inr (v, s\<lparr>ev_words := (ev_words s)(e \<mapsto> v)\<rparr>))"

definition remember_bool ::
    "SymBoolExpr \<Rightarrow> SymbolicError + bool \<times> ModelEvaluator \<Rightarrow> SymbolicError + bool \<times> ModelEvaluator" where
  "remember_bool c r = (case r of Inl err \<Rightarrow> Inl err
     | Inr (b, s) \<Rightarrow> Inr (b, s\<lparr>ev_bools := (ev_bools s)(c \<mapsto> b)\<rparr>))"

fun eval_word_m :: "SymCx \<Rightarrow> model \<Rightarrow> SymExpr \<Rightarrow> ModelEvaluator \<Rightarrow> SymbolicError + u256 \<times> ModelEvaluator"
and eval_take_m :: "SymCx \<Rightarrow> model \<Rightarrow> nat \<Rightarrow> SymExpr list \<Rightarrow> ModelEvaluator
      \<Rightarrow> SymbolicError + u8 list \<times> ModelEvaluator"
and eval_bool_m :: "SymCx \<Rightarrow> model \<Rightarrow> SymBoolExpr \<Rightarrow> ModelEvaluator \<Rightarrow> SymbolicError + bool \<times> ModelEvaluator"
and eval_all_m :: "SymCx \<Rightarrow> model \<Rightarrow> SymBoolExpr list \<Rightarrow> ModelEvaluator
      \<Rightarrow> SymbolicError + bool \<times> ModelEvaluator" where
  "eval_word_m cx M (Var x) s = Inr (case M x of Some v \<Rightarrow> v | None \<Rightarrow> 0, s)"
| "eval_word_m cx M (GasLeft x) s = Inr (case M x of Some v \<Rightarrow> v | None \<Rightarrow> 0, s)"
| "eval_word_m cx M (Hash x alg bytes) s = Inr (case M x of Some v \<Rightarrow> v | None \<Rightarrow> 0, s)"
| "eval_word_m cx M (Const v) s = Inr (v, s)"
| "eval_word_m cx M (Keccak x len bytes) s =
     (case ev_words s (Keccak x len bytes) of
        Some v \<Rightarrow> Inr (v, s)
      | None \<Rightarrow> remember_word (Keccak x len bytes)
         (case eval_word_m cx M len s of Inl e \<Rightarrow> Inl e | Inr (l, s1) \<Rightarrow>
           (case usize_try_from l of
              None \<Rightarrow> Inl keccak_len_error
            | Some n \<Rightarrow>
                if n > length bytes then Inl keccak_len_error
                else (case eval_take_m cx M n bytes s1 of Inl e \<Rightarrow> Inl e
                      | Inr (bs, s2) \<Rightarrow> Inr (keccak256 cx bs, s2)))))"
| "eval_word_m cx M (NotW e) s =
     (case ev_words s (NotW e) of
        Some v \<Rightarrow> Inr (v, s)
      | None \<Rightarrow> remember_word (NotW e)
         (case eval_word_m cx M e s of Inl err \<Rightarrow> Inl err | Inr (v, s1) \<Rightarrow> Inr (NOT v, s1)))"
| "eval_word_m cx M (BinOp op l r) s =
     (case ev_words s (BinOp op l r) of
        Some v \<Rightarrow> Inr (v, s)
      | None \<Rightarrow> remember_word (BinOp op l r)
         (case eval_word_m cx M l s of Inl e \<Rightarrow> Inl e | Inr (a, s1) \<Rightarrow>
           (case eval_word_m cx M r s1 of Inl e \<Rightarrow> Inl e
            | Inr (b, s2) \<Rightarrow> Inr (eval_binop cx op a b, s2))))"
| "eval_word_m cx M (TernOp op l r m) s =
     (case ev_words s (TernOp op l r m) of
        Some v \<Rightarrow> Inr (v, s)
      | None \<Rightarrow> remember_word (TernOp op l r m)
         (case eval_word_m cx M l s of Inl e \<Rightarrow> Inl e | Inr (a, s1) \<Rightarrow>
           (case eval_word_m cx M r s1 of Inl e \<Rightarrow> Inl e | Inr (b, s2) \<Rightarrow>
             (case eval_word_m cx M m s2 of Inl e \<Rightarrow> Inl e
              | Inr (c, s3) \<Rightarrow> Inr (eval_ternop op a b c, s3)))))"
| "eval_word_m cx M (Ite c t e) s =
     (case ev_words s (Ite c t e) of
        Some v \<Rightarrow> Inr (v, s)
      | None \<Rightarrow> remember_word (Ite c t e)
         (case eval_bool_m cx M c s of Inl err \<Rightarrow> Inl err
          | Inr (b, s1) \<Rightarrow> if b then eval_word_m cx M t s1 else eval_word_m cx M e s1))"
| "eval_take_m cx M n [] s = Inr ([], s)"
| "eval_take_m cx M n (e # es) s =
     (if n = 0 then Inr ([], s)
      else (case eval_word_m cx M e s of Inl err \<Rightarrow> Inl err | Inr (v, s1) \<Rightarrow>
        (case eval_take_m cx M (n - 1) es s1 of Inl err \<Rightarrow> Inl err
         | Inr (bs, s2) \<Rightarrow> Inr (ucast (v AND 0xff) # bs, s2))))"
| "eval_bool_m cx M (ConstB b) s = Inr (b, s)"
| "eval_bool_m cx M (NotB c) s =
     (case eval_bool_m cx M c s of Inl err \<Rightarrow> Inl err | Inr (b, s1) \<Rightarrow> Inr (\<not> b, s1))"
| "eval_bool_m cx M (AndB cs) s =
     (case ev_bools s (AndB cs) of
        Some b \<Rightarrow> Inr (b, s)
      | None \<Rightarrow> remember_bool (AndB cs) (eval_all_m cx M cs s))"
| "eval_bool_m cx M (CmpB op l r) s =
     (case eval_word_m cx M l s of Inl e \<Rightarrow> Inl e | Inr (a, s1) \<Rightarrow>
       (case eval_word_m cx M r s1 of Inl e \<Rightarrow> Inl e
        | Inr (b, s2) \<Rightarrow> Inr (eval_cmp cx op a b, s2)))"
| "eval_all_m cx M [] s = Inr (True, s)"
| "eval_all_m cx M (c # cs) s =
     (case eval_bool_m cx M c s of Inl err \<Rightarrow> Inl err
      | Inr (b, s1) \<Rightarrow> if b then eval_all_m cx M cs s1 else Inr (False, s1))"

definition eval_model :: "SymCx \<Rightarrow> model \<Rightarrow> SymExpr \<Rightarrow> SymbolicError + u256" where
  "eval_model cx M e =
     (case eval_word_m cx M e ModelEvaluator_new of Inl err \<Rightarrow> Inl err | Inr (v, s) \<Rightarrow> Inr v)"

definition eval_model_b :: "SymCx \<Rightarrow> model \<Rightarrow> SymBoolExpr \<Rightarrow> SymbolicError + bool" where
  "eval_model_b cx M c =
     (case eval_bool_m cx M c ModelEvaluator_new of Inl err \<Rightarrow> Inl err | Inr (b, s) \<Rightarrow> Inr b)"

text \<open>
  \<open>eval_model_constraints\<close>: one evaluator runs over all constraints; an error counts as false
  and the first false constraint ends the loop.
\<close>

fun eval_constraints_m :: "SymCx \<Rightarrow> model \<Rightarrow> SymBoolExpr list \<Rightarrow> ModelEvaluator \<Rightarrow> bool" where
  "eval_constraints_m cx M [] s = True"
| "eval_constraints_m cx M (c # cs) s =
     (case eval_bool_m cx M c s of
        Inl err \<Rightarrow> False
      | Inr (b, s1) \<Rightarrow> b \<and> eval_constraints_m cx M cs s1)"

definition eval_model_constraints :: "SymCx \<Rightarrow> model \<Rightarrow> SymBoolExpr list \<Rightarrow> bool" where
  "eval_model_constraints cx M cs = eval_constraints_m cx M cs ModelEvaluator_new"

subsection \<open>The memo tables never change a result\<close>

text \<open>The invariant of the tables: every entry is the reference value of its key.\<close>

definition memo_ok :: "SymCx \<Rightarrow> model \<Rightarrow> ModelEvaluator \<Rightarrow> bool" where
  "memo_ok cx M s \<longleftrightarrow>
     (\<forall>e v. ev_words s e = Some v \<longrightarrow> eval_word cx M e = Inr v) \<and>
     (\<forall>c b. ev_bools s c = Some b \<longrightarrow> eval_bool cx M c = Inr b)"

text \<open>A memoised result agrees with the reference result and keeps the invariant.\<close>

definition memo_result ::
    "SymCx \<Rightarrow> model \<Rightarrow> SymbolicError + 'a \<Rightarrow> SymbolicError + 'a \<times> ModelEvaluator \<Rightarrow> bool" where
  "memo_result cx M ref r \<longleftrightarrow>
     (case r of Inl err \<Rightarrow> ref = Inl err | Inr (v, s) \<Rightarrow> ref = Inr v \<and> memo_ok cx M s)"

lemma memo_ok_new [simp]: "memo_ok cx M ModelEvaluator_new"
  by (simp add: memo_ok_def ModelEvaluator_new_def)

lemma memo_ok_word [simp]:
  "memo_ok cx M s \<Longrightarrow> eval_word cx M e = Inr v \<Longrightarrow>
   memo_ok cx M (s\<lparr>ev_words := (ev_words s)(e \<mapsto> v)\<rparr>)"
  by (auto simp: memo_ok_def)

lemma memo_ok_bool [simp]:
  "memo_ok cx M s \<Longrightarrow> eval_bool cx M c = Inr b \<Longrightarrow>
   memo_ok cx M (s\<lparr>ev_bools := (ev_bools s)(c \<mapsto> b)\<rparr>)"
  by (auto simp: memo_ok_def)

lemma memo_ok_word_lookup: "memo_ok cx M s \<Longrightarrow> ev_words s e = Some v \<Longrightarrow> eval_word cx M e = Inr v"
  by (auto simp: memo_ok_def)

lemma memo_ok_bool_lookup: "memo_ok cx M s \<Longrightarrow> ev_bools s c = Some b \<Longrightarrow> eval_bool cx M c = Inr b"
  by (auto simp: memo_ok_def)

lemma memo_result_remember_word:
  "memo_result cx M (eval_word cx M e) r \<Longrightarrow> memo_result cx M (eval_word cx M e) (remember_word e r)"
  by (auto simp: memo_result_def remember_word_def split: sum.splits)

lemma memo_result_remember_bool:
  "memo_result cx M (eval_bool cx M c) r \<Longrightarrow> memo_result cx M (eval_bool cx M c) (remember_bool c r)"
  by (auto simp: memo_result_def remember_bool_def split: sum.splits)

lemma memo_result_lookup:
  "memo_ok cx M s \<Longrightarrow> (ev_words s e = None \<Longrightarrow> memo_result cx M (eval_word cx M e) r) \<Longrightarrow>
   memo_result cx M (eval_word cx M e)
     (case ev_words s e of Some v \<Rightarrow> Inr (v, s) | None \<Rightarrow> remember_word e r)"
  by (auto simp: memo_result_def remember_word_def dest: memo_ok_word_lookup
      split: sum.splits option.splits)

lemma memo_result_bind:
  assumes "memo_result cx M ref r"
    and "\<And>v s. r = Inr (v, s) \<Longrightarrow> ref = Inr v \<Longrightarrow> memo_ok cx M s \<Longrightarrow> memo_result cx M (g v) (f v s)"
  shows "memo_result cx M (case ref of Inl e \<Rightarrow> Inl e | Inr v \<Rightarrow> g v)
    (case r of Inl e \<Rightarrow> Inl e | Inr (v, s) \<Rightarrow> f v s)"
  using assms by (auto simp: memo_result_def split: sum.splits)

lemma memo_result_Inr [simp]: "memo_result cx M (Inr v) (Inr (w, s)) \<longleftrightarrow> v = w \<and> memo_ok cx M s"
  by (auto simp: memo_result_def)

lemma memo_result_Inl [simp]: "memo_result cx M (Inl e) (Inl f) \<longleftrightarrow> e = f"
  by (auto simp: memo_result_def)

lemma eval_m_refines:
  "memo_ok cx M s \<Longrightarrow> memo_result cx M (eval_word cx M e) (eval_word_m cx M e s)"
  "memo_ok cx M s \<Longrightarrow> memo_result cx M (eval_take cx M n es) (eval_take_m cx M n es s)"
  "memo_ok cx M s \<Longrightarrow> memo_result cx M (eval_bool cx M c) (eval_bool_m cx M c s)"
  "memo_ok cx M s \<Longrightarrow> memo_result cx M (eval_all cx M cs) (eval_all_m cx M cs s)"
proof (induction cx M e s and cx M n es s and cx M c s and cx M cs s
    rule: eval_word_m_eval_take_m_eval_bool_m_eval_all_m.induct)
  case (5 cx M x len bytes s)
  show ?case
    unfolding eval_word_m.simps
    by (rule memo_result_lookup [OF "5.prems"], simp only: eval_word.simps,
        rule memo_result_bind, rule "5.IH"(1), assumption, rule "5.prems",
        auto intro!: memo_result_bind "5.IH"(2) split: option.splits)
next
  case (6 cx M e s)
  show ?case
    unfolding eval_word_m.simps
    by (rule memo_result_lookup [OF "6.prems"], simp only: eval_word.simps, rule memo_result_bind)
      (simp_all add: 6)
next
  case (7 cx M op l r s)
  show ?case
    unfolding eval_word_m.simps
    by (rule memo_result_lookup [OF "7.prems"], simp only: eval_word.simps, intro memo_result_bind)
      (simp_all add: 7)
next
  case (8 cx M op l r m s)
  show ?case
    unfolding eval_word_m.simps
    by (rule memo_result_lookup [OF "8.prems"], simp only: eval_word.simps, intro memo_result_bind)
      (simp_all add: 8)
next
  case (9 cx M c t e s)
  show ?case
    unfolding eval_word_m.simps
    by (rule memo_result_lookup [OF "9.prems"], simp only: eval_word.simps, rule memo_result_bind)
      (simp_all add: 9)
next
  case (11 cx M n e es s)
  then show ?case
    by (auto intro!: memo_result_bind)
next
  case (13 cx M c s)
  then show ?case by (auto intro!: memo_result_bind)
next
  case (14 cx M cs s)
  then show ?case
    using memo_result_remember_bool [of cx M "AndB cs" "eval_all_m cx M cs s"]
      memo_ok_bool_lookup [of cx M s "AndB cs"]
    by (auto split: option.splits)
next
  case (15 cx M op l r s)
  then show ?case by (auto intro!: memo_result_bind)
next
  case (17 cx M c cs s)
  then show ?case by (auto intro!: memo_result_bind)
qed auto


lemma eval_model_eq [simp]: "eval_model cx M e = eval_word cx M e"
  using eval_m_refines(1) [of cx M ModelEvaluator_new e]
  by (auto simp: eval_model_def memo_result_def split: sum.splits)

lemma eval_model_b_eq [simp]: "eval_model_b cx M c = eval_bool cx M c"
  using eval_m_refines(3) [of cx M ModelEvaluator_new c]
  by (auto simp: eval_model_b_def memo_result_def split: sum.splits)

lemma eval_constraints_m_eq:
  "memo_ok cx M s \<Longrightarrow> eval_constraints_m cx M cs s \<longleftrightarrow> (\<forall>c \<in> set cs. eval_bool cx M c = Inr True)"
proof (induction cs arbitrary: s)
  case (Cons c cs)
  have "memo_result cx M (eval_bool cx M c) (eval_bool_m cx M c s)"
    using Cons.prems by (rule eval_m_refines)
  with Cons.IH show ?case
    by (auto simp: memo_result_def split: sum.splits)
qed simp

section \<open>Visiting the nodes of an expression\<close>

fun get_var :: "SymExpr \<Rightarrow> symbol option" where
  "get_var (Var x) = Some x"
| "get_var (GasLeft x) = Some x"
| "get_var (Keccak x len bytes) = Some x"
| "get_var (Hash x alg bytes) = Some x"
| "get_var _ = None"

fun get_eval_var :: "SymExpr \<Rightarrow> symbol option" where
  "get_eval_var (Var x) = Some x"
| "get_eval_var (GasLeft x) = Some x"
| "get_eval_var (Hash x alg bytes) = Some x"
| "get_eval_var _ = None"

text \<open>
  \<open>visit_unique\<close>: a depth-first walk with an explicit stack that visits each distinct word node
  once. The stack is a list whose head is the end of the vector, so the children of a node are
  listed in the order in which they are popped. The visitor returns \<open>Inl\<close> to break.
\<close>

datatype Node = WordNode SymExpr | BoolNode SymBoolExpr

fun node_children :: "Node \<Rightarrow> Node list" where
  "node_children (BoolNode (ConstB b)) = []"
| "node_children (BoolNode (NotB c)) = [BoolNode c]"
| "node_children (BoolNode (AndB cs)) = map BoolNode cs"
| "node_children (BoolNode (CmpB op l r)) = [WordNode l, WordNode r]"
| "node_children (WordNode (Const v)) = []"
| "node_children (WordNode (Var x)) = []"
| "node_children (WordNode (GasLeft x)) = []"
| "node_children (WordNode (Keccak x len bytes)) = WordNode len # map WordNode bytes"
| "node_children (WordNode (Hash x alg bytes)) = map WordNode bytes"
| "node_children (WordNode (NotW e)) = [WordNode e]"
| "node_children (WordNode (BinOp op l r)) = [WordNode l, WordNode r]"
| "node_children (WordNode (TernOp op l r m)) = [WordNode l, WordNode r, WordNode m]"
| "node_children (WordNode (Ite c l r)) = [BoolNode c, WordNode l, WordNode r]"

fun node_weight :: "Node \<Rightarrow> nat" where
  "node_weight (WordNode e) = 3 * size e + 1"
| "node_weight (BoolNode c) = 3 * size c + 1"

abbreviation nodes_weight :: "Node list \<Rightarrow> nat" where
  "nodes_weight ns \<equiv> sum_list (map node_weight ns)"

lemma node_weight_pos [simp]: "0 < node_weight n"
  by (cases n) auto

lemma weight_word_list: "nodes_weight (map WordNode es) \<le> 3 * size_list size es"
  by (induction es) auto

lemma weight_bool_list: "nodes_weight (map BoolNode cs) \<le> 3 * size_list size cs"
  by (induction cs) auto

lemma node_children_weight: "nodes_weight (node_children n) < node_weight n"
proof (induction n rule: node_children.induct)
  case (3 cs)
  show ?case using weight_bool_list [of cs] by (simp del: map_map)
next
  case (8 x len bytes)
  show ?case using weight_word_list [of bytes] by (simp del: map_map)
next
  case (9 x alg bytes)
  show ?case using weight_word_list [of bytes] by (simp del: map_map)
qed auto

function visit_loop ::
    "('s \<Rightarrow> SymExpr \<Rightarrow> 'b + 's) \<Rightarrow> Node list \<Rightarrow> Node set \<Rightarrow> 's \<Rightarrow> 'b + 's" where
  "visit_loop f [] visited s = Inr s"
| "visit_loop f (BoolNode c # pending) visited s =
     (if BoolNode c \<in> visited then visit_loop f pending visited s
      else visit_loop f (node_children (BoolNode c) @ pending) (insert (BoolNode c) visited) s)"
| "visit_loop f (WordNode e # pending) visited s =
     (if WordNode e \<in> visited then visit_loop f pending visited s
      else (case f s e of
        Inl b \<Rightarrow> Inl b
      | Inr s' \<Rightarrow>
          visit_loop f (node_children (WordNode e) @ pending) (insert (WordNode e) visited) s'))"
  by pat_completeness auto
termination
  by (relation "measure (\<lambda>(f, pending, visited, s). nodes_weight pending)")
    (auto simp del: node_weight.simps simp: node_children_weight less_Suc_eq_le)

definition visit_unique ::
    "SymExpr option \<Rightarrow> SymBoolExpr option \<Rightarrow> ('s \<Rightarrow> SymExpr \<Rightarrow> 'b + 's) \<Rightarrow> 's \<Rightarrow> 'b + 's" where
  "visit_unique word cond visitor s =
     visit_loop visitor
       ((case cond of Some c \<Rightarrow> [BoolNode c] | None \<Rightarrow> []) @
        (case word of Some e \<Rightarrow> [WordNode e] | None \<Rightarrow> [])) {} s"

text \<open>\<open>SymExpr::visit_bool\<close>, \<open>SymBoolExpr::visit_bool\<close> and the collection of symbols.\<close>

definition visit_bool :: "(SymExpr \<Rightarrow> bool) \<Rightarrow> SymExpr \<Rightarrow> bool" where
  "visit_bool p e = (visit_unique (Some e) None (\<lambda>s x. if p x then Inl () else Inr s) () = Inl ())"

definition visit_bool_b :: "(SymExpr \<Rightarrow> bool) \<Rightarrow> SymBoolExpr \<Rightarrow> bool" where
  "visit_bool_b p c = (visit_unique None (Some c) (\<lambda>s x. if p x then Inl () else Inr s) () = Inl ())"

text \<open>\<open>IndexSet::extend\<close> with at most one symbol: insertion at the end unless present.\<close>

definition index_insert :: "'a option \<Rightarrow> 'a list \<Rightarrow> 'a list" where
  "index_insert x xs = (case x of None \<Rightarrow> xs | Some y \<Rightarrow> if y \<in> set xs then xs else xs @ [y])"

definition collect_with ::
    "(SymExpr \<Rightarrow> symbol option) \<Rightarrow> SymExpr option \<Rightarrow> SymBoolExpr option \<Rightarrow> symbol list \<Rightarrow> symbol list" where
  "collect_with g word cond vars =
     (case visit_unique word cond (\<lambda>vs x. Inr (index_insert (g x) vs) :: unit + symbol list) vars of
        Inr vs \<Rightarrow> vs | Inl _ \<Rightarrow> vars)"

definition collect_eval_vars :: "SymExpr \<Rightarrow> symbol list \<Rightarrow> symbol list" where
  "collect_eval_vars e vars = collect_with get_eval_var (Some e) None vars"

definition collect_eval_vars_b :: "SymBoolExpr \<Rightarrow> symbol list \<Rightarrow> symbol list" where
  "collect_eval_vars_b c vars = collect_with get_eval_var None (Some c) vars"

definition collect_vars :: "SymBoolExpr \<Rightarrow> symbol list \<Rightarrow> symbol list" where
  "collect_vars c vars = collect_with get_var None (Some c) vars"

definition contains_keccak :: "SymExpr \<Rightarrow> bool" where
  "contains_keccak e = visit_bool (\<lambda>x. case x of Keccak n l b \<Rightarrow> True | _ \<Rightarrow> False) e"

definition is_raw_gasleft :: "SymExpr \<Rightarrow> bool" where
  "is_raw_gasleft e = (case e of GasLeft x \<Rightarrow> True | _ \<Rightarrow> False)"

definition contains_gasleft :: "SymExpr \<Rightarrow> bool" where
  "contains_gasleft e = visit_bool is_raw_gasleft e"

definition contains_udiv :: "SymExpr \<Rightarrow> bool" where
  "contains_udiv e = visit_bool (\<lambda>x. case x of BinOp UDiv a b \<Rightarrow> True | _ \<Rightarrow> False) e"

text \<open>
  \<open>eval_model_if_complete\<close> evaluates only when the model has every symbol that the evaluation
  may read; \<open>SymExpr::eval\<close> is the case of the empty model.
\<close>

definition eval_model_if_complete :: "SymCx \<Rightarrow> model \<Rightarrow> SymExpr \<Rightarrow> SymbolicError + u256 option" where
  "eval_model_if_complete cx M e =
     (if \<forall>x \<in> set (collect_eval_vars e []). M x \<noteq> None
      then (case eval_model cx M e of Inl err \<Rightarrow> Inl err | Inr v \<Rightarrow> Inr (Some v))
      else Inr None)"

definition eval_closed :: "SymCx \<Rightarrow> SymExpr \<Rightarrow> u256 option" where
  "eval_closed cx e =
     (case eval_model_if_complete cx Map.empty e of Inl err \<Rightarrow> None | Inr v \<Rightarrow> v)"

subsection \<open>The walk visits exactly the subterms, each once\<close>

definition node_child :: "Node \<Rightarrow> Node \<Rightarrow> bool" where
  "node_child n m \<longleftrightarrow> m \<in> set (node_children n)"

text \<open>The reference notion: \<open>e\<close> is a word node of the subterm closure of \<open>n\<close>.\<close>

definition has_word :: "Node \<Rightarrow> SymExpr \<Rightarrow> bool" where
  "has_word n e \<longleftrightarrow> node_child\<^sup>*\<^sup>* n (WordNode e)"

text \<open>The nodes in the order of the walk, and a fold with early exit over its word nodes.\<close>

function visit_nodes :: "Node list \<Rightarrow> Node set \<Rightarrow> Node list" where
  "visit_nodes [] visited = []"
| "visit_nodes (n # pending) visited =
     (if n \<in> visited then visit_nodes pending visited
      else n # visit_nodes (node_children n @ pending) (insert n visited))"
  by pat_completeness auto
termination
  by (relation "measure (\<lambda>(pending, visited). nodes_weight pending)")
    (auto simp: node_children_weight)

fun fold_break :: "('s \<Rightarrow> SymExpr \<Rightarrow> 'b + 's) \<Rightarrow> Node list \<Rightarrow> 's \<Rightarrow> 'b + 's" where
  "fold_break f [] s = Inr s"
| "fold_break f (BoolNode c # ns) s = fold_break f ns s"
| "fold_break f (WordNode e # ns) s = (case f s e of Inl b \<Rightarrow> Inl b | Inr s' \<Rightarrow> fold_break f ns s')"

lemma visit_loop_fold: "visit_loop f pending visited s = fold_break f (visit_nodes pending visited) s"
  by (induction f pending visited s rule: visit_loop.induct) (auto split: sum.splits)

lemma visit_nodes_reach:
  "m \<in> set (visit_nodes pending visited) \<Longrightarrow> \<exists>n \<in> set pending. node_child\<^sup>*\<^sup>* n m"
proof (induction pending visited rule: visit_nodes.induct)
  case (2 n pending visited)
  show ?case
  proof (cases "n \<in> visited \<or> m = n")
    case True
    with 2 show ?thesis by (auto split: if_splits)
  next
    case False
    with "2.prems" have "m \<in> set (visit_nodes (node_children n @ pending) (insert n visited))"
      by auto
    with "2.IH"(2) False obtain k
      where k: "k \<in> set (node_children n @ pending)" "node_child\<^sup>*\<^sup>* k m" by blast
    show ?thesis
    proof (cases "k \<in> set pending")
      case False
      with k have "node_child n k" by (auto simp: node_child_def)
      with k show ?thesis by (auto intro: converse_rtranclp_into_rtranclp)
    qed (use k in auto)
  qed
qed simp

lemma visit_nodes_fresh: "m \<in> set (visit_nodes pending visited) \<Longrightarrow> m \<notin> visited"
  by (induction pending visited rule: visit_nodes.induct) (auto split: if_splits)

lemma visit_nodes_distinct: "distinct (visit_nodes pending visited)"
  by (induction pending visited rule: visit_nodes.induct) (auto dest: visit_nodes_fresh)

text \<open>Every child of a visited node is visited or still on the stack.\<close>

definition walk_inv :: "Node list \<Rightarrow> Node set \<Rightarrow> bool" where
  "walk_inv pending visited \<longleftrightarrow> (\<forall>n \<in> visited. set (node_children n) \<subseteq> visited \<union> set pending)"

lemma visit_nodes_closed:
  "walk_inv pending visited \<Longrightarrow>
   walk_inv [] (visited \<union> set (visit_nodes pending visited)) \<and>
   set pending \<subseteq> visited \<union> set (visit_nodes pending visited)"
proof (induction pending visited rule: visit_nodes.induct)
  case (2 n pending visited)
  show ?case
  proof (cases "n \<in> visited")
    case True
    with "2.prems" have "walk_inv pending visited" by (auto simp: walk_inv_def)
    with 2 True show ?thesis by auto
  next
    case False
    with "2.prems" have "walk_inv (node_children n @ pending) (insert n visited)"
      by (auto simp: walk_inv_def)
    with "2.IH"(2) [OF False] False show ?thesis by auto
  qed
qed (simp add: walk_inv_def)

lemma walk_inv_reach:
  "node_child\<^sup>*\<^sup>* n m \<Longrightarrow> walk_inv [] S \<Longrightarrow> n \<in> S \<Longrightarrow> m \<in> S"
  by (induction rule: rtranclp_induct) (auto simp: walk_inv_def node_child_def)

lemma set_visit_nodes: "set (visit_nodes [n] {}) = {m. node_child\<^sup>*\<^sup>* n m}"
proof -
  have "walk_inv [n] {}" by (simp add: walk_inv_def)
  from visit_nodes_closed [OF this] show ?thesis
    using visit_nodes_reach [of _ "[n]" "{}"] walk_inv_reach [of n]
    by fastforce
qed

declare visit_nodes.simps [simp del]

lemma fold_break_find:
  "fold_break (\<lambda>s x. if p x then Inl () else Inr s) ns () = Inl () \<longleftrightarrow> (\<exists>e. WordNode e \<in> set ns \<and> p e)"
proof (induction ns)
  case (Cons n ns)
  then show ?case by (cases n) auto
qed simp

lemma visit_bool_iff: "visit_bool p e \<longleftrightarrow> (\<exists>x. has_word (WordNode e) x \<and> p x)"
  by (simp add: visit_bool_def visit_unique_def visit_loop_fold fold_break_find set_visit_nodes
      has_word_def)

lemma visit_bool_b_iff: "visit_bool_b p c \<longleftrightarrow> (\<exists>x. has_word (BoolNode c) x \<and> p x)"
  by (simp add: visit_bool_b_def visit_unique_def visit_loop_fold fold_break_find set_visit_nodes
      has_word_def)

lemma set_index_insert [simp]: "set (index_insert x xs) = set_option x \<union> set xs"
  by (auto simp: index_insert_def split: option.splits)

lemma distinct_index_insert [simp]: "distinct xs \<Longrightarrow> distinct (index_insert x xs)"
  by (auto simp: index_insert_def split: option.splits)

lemma fold_break_collect:
  "\<exists>vs'. fold_break (\<lambda>vs x. Inr (index_insert (g x) vs) :: unit + 'a list) ns vs = Inr vs' \<and>
     set vs' = set vs \<union> {y. \<exists>e. WordNode e \<in> set ns \<and> g e = Some y} \<and> (distinct vs \<longrightarrow> distinct vs')"
proof (induction ns arbitrary: vs)
  case (Cons n ns)
  show ?case
  proof (cases n)
    case (WordNode e)
    with Cons [of "index_insert (g e) vs"] show ?thesis by (auto split: option.splits)
  next
    case (BoolNode c)
    with Cons [of vs] show ?thesis by auto
  qed
qed simp

lemma collect_with_word:
  "set (collect_with g (Some e) None vars) = set vars \<union> {y. \<exists>x. has_word (WordNode e) x \<and> g x = Some y}"
  using fold_break_collect [of g "visit_nodes [WordNode e] {}" vars]
  by (auto simp: collect_with_def visit_unique_def visit_loop_fold set_visit_nodes has_word_def)

lemma collect_with_bool:
  "set (collect_with g None (Some c) vars) = set vars \<union> {y. \<exists>x. has_word (BoolNode c) x \<and> g x = Some y}"
  using fold_break_collect [of g "visit_nodes [BoolNode c] {}" vars]
  by (auto simp: collect_with_def visit_unique_def visit_loop_fold set_visit_nodes has_word_def)

subsection \<open>Closed evaluation\<close>

text \<open>Two models that agree on the symbols of an expression give it the same value.\<close>

definition agree_on :: "Node set \<Rightarrow> model \<Rightarrow> model \<Rightarrow> bool" where
  "agree_on ns M N \<longleftrightarrow>
     (\<forall>n \<in> ns. \<forall>x y. has_word n x \<longrightarrow> get_eval_var x = Some y \<longrightarrow> M y = N y)"

lemma has_word_refl [simp]: "has_word (WordNode e) e"
  by (simp add: has_word_def)

lemma has_word_child: "m \<in> set (node_children n) \<Longrightarrow> has_word m e \<Longrightarrow> has_word n e"
  by (auto simp: has_word_def node_child_def intro: converse_rtranclp_into_rtranclp)

lemma agree_on_children: "agree_on {n} M N \<Longrightarrow> agree_on (set (node_children n)) M N"
  by (auto simp: agree_on_def dest: has_word_child)

lemma agree_on_subset: "agree_on S M N \<Longrightarrow> T \<subseteq> S \<Longrightarrow> agree_on T M N"
  by (auto simp: agree_on_def)

lemma agree_on_Un [simp]: "agree_on (S \<union> T) M N \<longleftrightarrow> agree_on S M N \<and> agree_on T M N"
  by (auto simp: agree_on_def)

lemma agree_on_insert: "agree_on (insert n (insert m S)) M N \<longleftrightarrow> agree_on {n} M N \<and> agree_on (insert m S) M N"
  by (auto simp: agree_on_def)

lemma agree_on_Cons: "agree_on (insert n (f ` S)) M N \<longleftrightarrow> agree_on {n} M N \<and> agree_on (f ` S) M N"
  by (auto simp: agree_on_def)

lemma agree_on_own: "agree_on {WordNode e} M N \<Longrightarrow> get_eval_var e = Some y \<Longrightarrow> M y = N y"
  using has_word_refl [of e] by (auto simp: agree_on_def simp del: has_word_refl)

lemma eval_agree:
  "agree_on {WordNode e} M N \<Longrightarrow> eval_word cx M e = eval_word cx N e"
  "agree_on (WordNode ` set es) M N \<Longrightarrow> eval_take cx M n es = eval_take cx N n es"
  "agree_on {BoolNode c} M N \<Longrightarrow> eval_bool cx M c = eval_bool cx N c"
  "agree_on (BoolNode ` set cs) M N \<Longrightarrow> eval_all cx M cs = eval_all cx N cs"
proof (induction cx M e and cx M n es and cx M c and cx M cs
    rule: eval_word_eval_take_eval_bool_eval_all.induct)
  case (5 cx M x len bytes)
  then show ?case
    using agree_on_children [OF 5(3)]
    by (auto simp: agree_on_Cons split: sum.splits option.splits)
next
  case (6 cx M e)
  then show ?case using agree_on_children [OF 6(2)] by auto
next
  case (7 cx M op l r)
  then show ?case using agree_on_children [OF 7(3)] by (auto simp: agree_on_insert split: sum.splits)
next
  case (8 cx M op l r m)
  then show ?case using agree_on_children [OF 8(4)] by (auto simp: agree_on_insert split: sum.splits)
next
  case (9 cx M c t e)
  then show ?case using agree_on_children [OF 9(4)] by (auto simp: agree_on_insert split: sum.splits)
next
  case (11 cx M n e es)
  then show ?case by (auto simp: agree_on_Cons split: sum.splits)
next
  case (13 cx M c)
  then show ?case using agree_on_children [OF 13(2)] by auto
next
  case (14 cx M cs)
  then show ?case using agree_on_children [OF 14(2)] by auto
next
  case (15 cx M op l r)
  then show ?case using agree_on_children [OF 15(3)] by (auto simp: agree_on_insert split: sum.splits)
next
  case (17 cx M c cs)
  then show ?case by (auto simp: agree_on_Cons split: sum.splits)
qed (auto dest: agree_on_own)

text \<open>A value found without a model is the value under every model.\<close>

lemma eval_closed_sound: "eval_closed cx e = Some v \<Longrightarrow> eval_word cx M e = Inr v"
proof -
  assume ev: "eval_closed cx e = Some v"
  have "get_eval_var x \<noteq> Some y" if "has_word (WordNode e) x" for x y
    using ev that
    by (auto simp: eval_closed_def eval_model_if_complete_def collect_eval_vars_def
        collect_with_word split: if_splits)
  then have "agree_on {WordNode e} M Map.empty" by (auto simp: agree_on_def)
  then have "eval_word cx M e = eval_word cx Map.empty e" by (rule eval_agree)
  with ev show ?thesis
    by (auto simp: eval_closed_def eval_model_if_complete_def split: if_splits sum.splits)
qed

lemma eval_model_if_complete_sound:
  "eval_model_if_complete cx M e = Inr (Some v) \<Longrightarrow> eval_word cx M e = Inr v"
  by (auto simp: eval_model_if_complete_def split: if_splits sum.splits)

lemma eval_closed_Const [simp]: "eval_closed cx (Const v) = Some v"
  by (simp add: eval_closed_def eval_model_if_complete_def collect_eval_vars_def collect_with_def visit_unique_def index_insert_def)

subsection \<open>A context with the signed operations of the EVM\<close>

text \<open>
  The context on which the hypotheses about the interpreter are seen to hold: signed division and
  remainder truncate towards zero and are 0 for a zero divisor. The hash functions are arbitrary.
\<close>

definition evm_cx :: SymCx where
  "evm_cx =
     \<lparr>stable_hash = \<lambda>e. 0,
      keccak256 = \<lambda>bs. of_nat (length bs),
      i256_div = \<lambda>a b. if b = 0 then 0 else word_of_int (sint a sdiv sint b),
      i256_mod = \<lambda>a b. if b = 0 then 0 else word_of_int (sint a smod sint b),
      i256_cmp = \<lambda>a b. if sint a < sint b then Less else if a = b then Equal else Greater,
      concrete_keccak_preimages = Map.empty\<rparr>"

lemma evm_cx_laws: "evm_signed_laws evm_cx"
proof -
  have "sint (1 :: u256) = 1" by simp
  moreover have "sgn k * \<bar>k\<bar> = k" for k :: int by (simp add: sgn_mult_abs)
  then have "k sdiv 1 = k" for k :: int by (simp add: signed_divide_int_def)
  moreover have "k smod 1 = 0" for k :: int by (simp add: signed_modulo_int_def)
  ultimately show ?thesis by (simp add: evm_signed_laws_def evm_cx_def)
qed

section \<open>Properties\<close>

text \<open>
  C2: the memoising evaluator is transparent. Evaluating a word through the memo tables gives the
  value or the error of the reference semantics, and checking the constraints of a path one after
  the other with shared tables decides whether the reference semantics makes all of them true.
\<close>

theorem memoised_evaluation_is_reference:
  "eval_model cx M e = eval_word cx M e \<and>
   eval_model_constraints cx M cs = list_all (\<lambda>c. eval_bool cx M c = Inr True) cs"
  by (simp add: eval_model_constraints_def eval_constraints_m_eq list_all_iff)

text \<open>
  C5: an evaluation that \<open>eval_model_if_complete\<close> accepts is final. The value it finds is the value
  of the expression under every model that extends the one it was given.
\<close>

theorem complete_evaluation_is_final:
  assumes ev: "eval_model_if_complete cx M e = Inr (Some v)" and "M \<subseteq>\<^sub>m N"
  shows "eval_word cx N e = Inr v"
proof -
  have all: "\<forall>x \<in> set (collect_eval_vars e []). M x \<noteq> None" and v: "eval_word cx M e = Inr v"
    using ev by (auto simp: eval_model_if_complete_def split: if_splits sum.splits)
  have "M y = N y" if "has_word (WordNode e) x" "get_eval_var x = Some y" for x y
  proof -
    have "y \<in> set (collect_eval_vars e [])"
      using that by (auto simp: collect_eval_vars_def collect_with_word)
    with all obtain w where "M y = Some w" by blast
    with \<open>M \<subseteq>\<^sub>m N\<close> show ?thesis by (metis domI map_le_def)
  qed
  then have "agree_on {WordNode e} M N" by (auto simp: agree_on_def)
  with v show ?thesis by (simp add: eval_agree(1) [symmetric])
qed

theorem complete_evaluation_is_final_witness:
  "eval_word evm_cx [0 \<mapsto> 3, 1 \<mapsto> 7] (BinOp Add (Var 0) (Const 2)) = Inr 5"
  by (rule complete_evaluation_is_final [where M = "[0 \<mapsto> 3]"])
    (simp_all add: eval_model_if_complete_def collect_eval_vars_def collect_with_def visit_unique_def
      index_insert_def map_le_def)

end
