(* ===== verification/Sym_Width.thy ===== *)
theory Sym_Width
  imports Sym_Expr
begin

text \<open>
  What the engine knows of the bits of a word without a model: constant masks and shifts
  (\<open>mask_bits\<close>, \<open>mask_low_bits\<close>, \<open>power_of_two_shift\<close>), known bytes (\<open>known_byte\<close>, \<open>known_word\<close>)
  and the bound on the number of significant bits, which the code computes by a worklist with a
  memo table and a visit budget (\<open>unsigned_bits_cached\<close>). Each answer is shown to hold under every
  model, and the worklist is shown never to read a missing table entry.
\<close>

section \<open>Masks and powers of two\<close>

fun as_const :: "SymExpr \<Rightarrow> u256 option" where
  "as_const (Const v) = Some v"
| "as_const _ = None"

fun as_const_b :: "SymBoolExpr \<Rightarrow> bool option" where
  "as_const_b (ConstB b) = Some b"
| "as_const_b _ = None"

definition mask_bits :: "u256 \<Rightarrow> nat \<Rightarrow> u256" where
  "mask_bits v bits = (if bits \<ge> 256 then v else v AND (push_bit bits 1 - 1))"

definition mask_low_bits :: "u256 \<Rightarrow> nat option" where
  "mask_low_bits m = (let bits = bit_len m in if m = mask_bits U256_MAX bits then Some bits else None)"

definition power_of_two_shift :: "u256 \<Rightarrow> nat option" where
  "power_of_two_shift v = (if v \<le> 1 \<or> \<not> is_power_of_two v then None else Some (bit_len v - 1))"

text \<open>\<open>low_masked_source\<close> and \<open>low_masked_source_any\<close>: the operand under a constant low mask.\<close>

definition low_masked_source :: "SymExpr \<Rightarrow> nat \<Rightarrow> SymExpr option" where
  "low_masked_source e bits =
     (case e of
        BinOp And l r \<Rightarrow>
          if Option.bind (as_const r) mask_low_bits = Some bits then Some l else None
      | _ \<Rightarrow> None)"

definition low_masked_source_any :: "SymExpr \<Rightarrow> SymExpr option" where
  "low_masked_source_any e =
     (case e of
        BinOp And l r \<Rightarrow>
          if Option.bind (as_const r) mask_low_bits \<noteq> None then Some l else None
      | _ \<Rightarrow> None)"

lemma as_const_Some [simp]: "as_const e = Some v \<longleftrightarrow> e = Const v"
  by (cases e) auto

lemma Some_as_const [simp]: "Some v = as_const e \<longleftrightarrow> e = Const v"
  by (cases e) auto

lemma as_const_None: "as_const e = None \<longleftrightarrow> (\<forall>v. e \<noteq> Const v)"
  by (cases e) auto

lemma as_const_b_Some [simp]: "as_const_b c = Some b \<longleftrightarrow> c = ConstB b"
  by (cases c) auto

lemma mask_bits_eq [u256_simps]: "mask_bits v n = take_bit n v"
proof (cases "n \<ge> 256")
  case True
  then show ?thesis
    by (auto simp: mask_bits_def take_bit_word_eq_self)
next
  case False
  have "push_bit n 1 - 1 = (mask n :: u256)"
    by (simp add: mask_eq_exp_minus_1 push_bit_eq_mult)
  with False show ?thesis by (simp add: mask_bits_def take_bit_eq_mask)
qed

lemma mask_low_bits_Some: "mask_low_bits m = Some n \<Longrightarrow> m = mask n \<and> n \<le> 256"
  using bit_len_le_256 [of m]
  by (auto simp: mask_low_bits_def Let_def u256_simps split: if_splits)

lemma power_of_two_shift_Some:
  "power_of_two_shift v = Some n \<Longrightarrow> v = 2 ^ n \<and> 0 < n \<and> n < 256"
proof -
  assume p: "power_of_two_shift v = Some n"
  then have v: "\<not> v \<le> 1" "is_power_of_two v" and n: "n = bit_len v - 1"
    by (auto simp: power_of_two_shift_def split: if_splits)
  from v(2) n have eq: "v = 2 ^ n"
    by (simp add: is_power_of_two_def push_bit_eq_mult)
  with v(1) have "0 < n" by (cases n) auto
  moreover have "n < 256"
    using n bit_len_le_256 [of v] \<open>0 < n\<close> by linarith
  ultimately show ?thesis using eq by simp
qed

section \<open>Known bytes\<close>

lemma bit_be_byte: "bit (be_byte v i) n \<longleftrightarrow> n < 8 \<and> bit v ((31 - i) * 8 + n)"
  by (auto simp: be_byte_def bit_unsigned_iff bit_drop_bit_eq)

lemma be_byte_and [simp]: "be_byte (a AND b) i = be_byte a i AND be_byte b i"
  by (rule bit_eqI) (auto simp: bit_be_byte bit_and_iff)

lemma be_byte_or [simp]: "be_byte (a OR b) i = be_byte a i OR be_byte b i"
  by (rule bit_eqI) (auto simp: bit_be_byte bit_or_iff)

lemma be_byte_xor [simp]: "be_byte (a XOR b) i = be_byte a i XOR be_byte b i"
  by (rule bit_eqI) (auto simp: bit_be_byte bit_xor_iff)

lemma be_byte_not [simp]: "i < 32 \<Longrightarrow> be_byte (NOT a) i = NOT (be_byte a i)"
  by (rule bit_eqI) (auto simp: bit_be_byte bit_not_iff)

lemma be_byte_zero [simp]: "be_byte 0 i = 0"
  by (simp add: be_byte_def)

lemma be_byte_push_bit:
  "i < 32 \<Longrightarrow> be_byte (push_bit (8 * k) v) i = (if i + k < 32 then be_byte v (i + k) else 0)"
  by (rule bit_eqI) (auto simp: bit_be_byte bit_push_bit_iff algebra_simps diff_mult_distrib)

lemma be_byte_drop_bit:
  "i < 32 \<Longrightarrow> be_byte (drop_bit (8 * k) v) i = (if i < k then 0 else be_byte v (i - k))"
  by (rule bit_eqI)
    (auto simp: bit_be_byte bit_drop_bit_eq algebra_simps diff_mult_distrib dest: bit_imp_le_length)

section \<open>Known bytes\<close>

fun known_byte :: "SymExpr \<Rightarrow> nat \<Rightarrow> u8 option" where
  "known_byte (Const v) i = Some (be_byte v i)"
| "known_byte (Var x) i = None"
| "known_byte (GasLeft x) i = None"
| "known_byte (Keccak x len bytes) i = None"
| "known_byte (Hash x alg bytes) i = None"
| "known_byte (NotW e) i = map_option NOT (known_byte e i)"
| "known_byte (Ite c t e) i =
     (case known_byte t i of None \<Rightarrow> None | Some a \<Rightarrow>
       (case known_byte e i of None \<Rightarrow> None | Some b \<Rightarrow> if a = b then Some a else None))"
| "known_byte (BinOp op l r) i =
     (case op of
        And \<Rightarrow> (case (known_byte l i, known_byte r i) of
            (Some a, Some b) \<Rightarrow> Some (a AND b)
          | (a, b) \<Rightarrow> if a = Some 0 \<or> b = Some 0 then Some 0 else None)
      | Or \<Rightarrow> (case known_byte l i of None \<Rightarrow> None | Some a \<Rightarrow>
          (case known_byte r i of None \<Rightarrow> None | Some b \<Rightarrow> Some (a OR b)))
      | Xor \<Rightarrow> (case known_byte l i of None \<Rightarrow> None | Some a \<Rightarrow>
          (case known_byte r i of None \<Rightarrow> None | Some b \<Rightarrow> Some (a XOR b)))
      | Shl \<Rightarrow> (case as_const r of None \<Rightarrow> None | Some shift \<Rightarrow>
          if shift \<ge> 256 then Some 0
          else if unat shift mod 8 \<noteq> 0 then None
          else let source_index = i + unat shift div 8
               in if source_index \<ge> 32 then Some 0 else known_byte l source_index)
      | Shr \<Rightarrow> (case as_const r of None \<Rightarrow> None | Some shift \<Rightarrow>
          if shift \<ge> 256 then Some 0
          else if unat shift mod 8 \<noteq> 0 then None
          else let byte_shift = unat shift div 8
               in if i < byte_shift then Some 0 else known_byte l (i - byte_shift))
      | _ \<Rightarrow> None)"
| "known_byte (TernOp op l r m) i = None"

definition known_word :: "SymExpr \<Rightarrow> u256 option" where
  "known_word e =
     (let bytes = map (known_byte e) [0..<32]
      in if None \<in> set bytes then None else Some (from_be_bytes (map the bytes)))"

lemma known_byte_sound:
  "known_byte e i = Some b \<Longrightarrow> i < 32 \<Longrightarrow> eval_word cx M e = Inr v \<Longrightarrow> be_byte v i = b"
proof (induction e i arbitrary: b v rule: known_byte.induct)
  case (7 c t e i)
  then show ?case by (auto split: option.splits if_splits sum.splits)
next
  case (8 op l r i)
  obtain x y where xy: "eval_word cx M l = Inr x" "eval_word cx M r = Inr y"
    "v = eval_binop cx op x y"
    using "8.prems"(3) by (auto split: sum.splits)
  show ?case
  proof (cases op)
    case And
    with 8 xy show ?thesis by (force split: option.splits if_splits)
  next
    case Or
    with 8 xy show ?thesis by (auto split: option.splits)
  next
    case Xor
    with 8 xy show ?thesis by (auto split: option.splits)
  next
    case Shl
    with 8 xy show ?thesis
      using be_byte_push_bit [of i "unat y div 8" x]
      by (auto simp: Let_def split: option.splits if_splits)
  next
    case Shr
    with 8 xy show ?thesis
      using be_byte_drop_bit [of i "unat y div 8" x]
      by (auto simp: Let_def split: option.splits if_splits)
  qed (use 8 in auto)
qed (auto split: sum.splits)

lemma bit_foldl_bytes:
  "bit (foldl (\<lambda>acc b. push_bit 8 acc OR ucast b) (w :: u256) (bs :: u8 list)) n \<longleftrightarrow>
   n < 256 \<and>
   (if n < 8 * length bs then bit (bs ! (length bs - 1 - n div 8)) (n mod 8) else bit w (n - 8 * length bs))"
proof (induction bs arbitrary: w n rule: rev_induct)
  case Nil
  then show ?case by (auto dest: bit_imp_le_length)
next
  case (snoc b bs)
  show ?case
  proof (cases "n < 8")
    case True
    then show ?thesis
      by (auto simp: bit_or_iff bit_push_bit_iff bit_unsigned_iff nth_append)
  next
    case False
    then have "bit (foldl (\<lambda>acc b. push_bit 8 acc OR ucast b) w (bs @ [b])) n \<longleftrightarrow>
        n < 256 \<and> bit (foldl (\<lambda>acc b. push_bit 8 acc OR ucast b) w bs) (n - 8)"
      by (auto simp: bit_or_iff bit_push_bit_iff bit_unsigned_iff dest: bit_imp_le_length)
    also have "\<dots> \<longleftrightarrow> n < 256 \<and> (if n < 8 * length (bs @ [b])
        then bit ((bs @ [b]) ! (length (bs @ [b]) - 1 - n div 8)) (n mod 8)
        else bit w (n - 8 * length (bs @ [b])))"
    proof -
      have d: "(n - 8) div 8 = n div 8 - 1" "(n - 8) mod 8 = n mod 8" "1 \<le> n div 8"
        using False by (simp_all add: le_mod_geq le_div_geq)
      have "n - 8 < 8 * length bs \<longleftrightarrow> n < 8 * length (bs @ [b])" using False by auto
      moreover have "n < 256 \<Longrightarrow> n - 8 < 256" by simp
      ultimately show ?thesis using d False unfolding snoc.IH by (auto simp: nth_append)
    qed
    finally show ?thesis .
  qed
qed

lemma be_byte_from_be_bytes:
  "length bs = 32 \<Longrightarrow> i < 32 \<Longrightarrow> be_byte (from_be_bytes bs) i = bs ! i"
  by (rule bit_eqI) (auto simp: from_be_bytes_def bit_be_byte bit_foldl_bytes)

lemma be_byte_eqI:
  assumes "\<And>i. i < 32 \<Longrightarrow> be_byte v i = be_byte w i"
  shows "v = w"
proof (rule bit_eqI)
  fix n
  show "bit v n \<longleftrightarrow> bit w n"
  proof (cases "n < 256")
    case True
    have "bit (be_byte v (31 - n div 8)) (n mod 8) \<longleftrightarrow> bit (be_byte w (31 - n div 8)) (n mod 8)"
      using assms [of "31 - n div 8"] by simp
    moreover have "(31 - (31 - n div 8)) * 8 + n mod 8 = n"
      using True by simp
    ultimately show ?thesis by (simp add: bit_be_byte)
  next
    case False
    then show ?thesis by (auto dest: bit_imp_le_length)
  qed
qed

lemma known_word_sound: "known_word e = Some w \<Longrightarrow> eval_word cx M e = Inr v \<Longrightarrow> v = w"
proof (rule be_byte_eqI)
  fix i :: nat
  assume kw: "known_word e = Some w" and ev: "eval_word cx M e = Inr v" and i: "i < 32"
  from kw have all: "None \<notin> known_byte e ` {0..<32}"
    and w: "w = from_be_bytes (map (the \<circ> known_byte e) [0..<32])"
    by (auto simp: known_word_def Let_def split: if_splits)
  from all i obtain b where b: "known_byte e i = Some b"
    by (metis atLeastLessThan_iff image_eqI not_None_eq zero_le)
  with i ev have "be_byte v i = b" by (auto dest: known_byte_sound)
  moreover have "be_byte w i = b"
    using i b by (simp add: w be_byte_from_be_bytes)
  ultimately show "be_byte v i = be_byte w i" by simp
qed

section \<open>Significant bits\<close>

definition const_usize :: "SymExpr \<Rightarrow> nat option" where
  "const_usize e = Option.bind (as_const e) usize_try_from"

text \<open>The operands a visit pushes, in the order in which they are popped.\<close>

fun width_children :: "SymExpr \<Rightarrow> SymExpr list" where
  "width_children (BinOp op l r) =
     (case op of
        And \<Rightarrow> if as_const r \<noteq> None then [l] else []
      | Add \<Rightarrow> [l, r]
      | Mul \<Rightarrow> [l, r]
      | Shl \<Rightarrow> if const_usize r \<noteq> None then [l] else []
      | Shr \<Rightarrow> if const_usize r \<noteq> None then [l] else []
      | UDiv \<Rightarrow> [l]
      | _ \<Rightarrow> [])"
| "width_children (Ite c l r) = [l, r]"
| "width_children (TernOp op l r m) = [m]"
| "width_children _ = []"

text \<open>The table reads \<open>bit_widths[x]\<close> panic on a missing entry: \<open>None\<close>.\<close>

fun bits_of :: "(SymExpr \<rightharpoonup> nat) \<Rightarrow> SymExpr \<Rightarrow> nat option" where
  "bits_of bw (Const v) = Some (max (bit_len v) 1)"
| "bits_of bw (BinOp op l r) =
     (case op of
        And \<Rightarrow> (case as_const r of
            None \<Rightarrow> Some 256
          | Some m \<Rightarrow> map_option (\<lambda>a. min a (bit_len m)) (bw l))
      | Add \<Rightarrow> (case bw l of None \<Rightarrow> None | Some a \<Rightarrow>
          map_option (\<lambda>b. min (usize_saturating_add (max a b) 1) 256) (bw r))
      | Mul \<Rightarrow> (case bw l of None \<Rightarrow> None | Some a \<Rightarrow>
          map_option (\<lambda>b. min (usize_saturating_add a b) 256) (bw r))
      | Shl \<Rightarrow> (case const_usize r of
            None \<Rightarrow> Some 256
          | Some s \<Rightarrow> map_option (\<lambda>a. min (usize_saturating_add a s) 256) (bw l))
      | Shr \<Rightarrow> (case const_usize r of
            None \<Rightarrow> Some 256
          | Some s \<Rightarrow> map_option (\<lambda>a. max (a - s) 1) (bw l))
      | UDiv \<Rightarrow> bw l
      | _ \<Rightarrow> Some 256)"
| "bits_of bw (TernOp op l r m) = bw m"
| "bits_of bw (Ite c l r) =
     (case bw l of None \<Rightarrow> None | Some a \<Rightarrow> map_option (max a) (bw r))"
| "bits_of bw _ = Some 256"

text \<open>
  The worklist: the head of the list is the end of the vector \<open>pending\<close>. The result holds the table,
  the remaining budget and whether the loop ran to its end; \<open>None\<close> is a panic.
\<close>

function ub_loop ::
  "(SymExpr \<times> bool) list \<Rightarrow> (SymExpr \<rightharpoonup> nat) \<Rightarrow> nat \<Rightarrow> ((SymExpr \<rightharpoonup> nat) \<times> nat \<times> bool) option" where
  "ub_loop [] bw remaining = Some (bw, remaining, True)"
| "ub_loop ((e, children_visited) # pending) bw remaining =
     (if bw e \<noteq> None then ub_loop pending bw remaining
      else if \<not> children_visited then
        (if remaining = 0 then Some (bw, 0, False)
         else ub_loop (map (\<lambda>c. (c, False)) (width_children e) @ (e, True) # pending) bw (remaining - 1))
      else (case bits_of bw e of
          None \<Rightarrow> None
        | Some b \<Rightarrow> ub_loop pending (bw(e \<mapsto> b)) remaining))"
  by pat_completeness auto
termination
  by (relation "measures [\<lambda>(p, bw, n). n, \<lambda>(p, bw, n). length p]") auto

definition unsigned_bits_cached ::
  "SymExpr \<Rightarrow> (SymExpr \<rightharpoonup> nat) \<Rightarrow> nat \<Rightarrow> ((SymExpr \<rightharpoonup> nat) \<times> nat \<times> nat option) option" where
  "unsigned_bits_cached e bw remaining =
     (case bw e of
        Some b \<Rightarrow> Some (bw, remaining, Some b)
      | None \<Rightarrow> map_option (\<lambda>(bw', remaining', finished). (bw', remaining', if finished then bw' e else None))
          (ub_loop [(e, False)] bw remaining))"

text \<open>
  \<open>unsigned_bits\<close> runs with the budget \<open>usize::MAX\<close> and falls back to 256 when it is exhausted. That
  the panic branch, which shares the fallback here, is never taken is \<open>unsigned_bits_cached_no_panic\<close>.
\<close>

definition unsigned_bits :: "SymExpr \<Rightarrow> nat" where
  "unsigned_bits e =
     (case unsigned_bits_cached e Map.empty USIZE_MAX of
        Some (bw, remaining, Some b) \<Rightarrow> b
      | _ \<Rightarrow> 256)"

subsection \<open>The table entries bound the values\<close>

definition widths_ok :: "SymCx \<Rightarrow> model \<Rightarrow> (SymExpr \<rightharpoonup> nat) \<Rightarrow> bool" where
  "widths_ok cx M bw \<longleftrightarrow> (\<forall>e b v. bw e = Some b \<longrightarrow> eval_word cx M e = Inr v \<longrightarrow> unat v < 2 ^ b)"

lemma widths_okD:
  "widths_ok cx M bw \<Longrightarrow> bw e = Some b \<Longrightarrow> eval_word cx M e = Inr v \<Longrightarrow> unat v < 2 ^ b"
  by (auto simp: widths_ok_def)

lemma unat_lt_256: "unat (v :: u256) < 2 ^ 256"
proof -
  have "unat v < 2 ^ LENGTH(256)" by (rule unsigned_less)
  then show ?thesis by simp
qed

lemma unat_bit_len: "unat (v :: u256) < 2 ^ bit_len v"
  by (rule bit_len_upper)

lemma lt_exp_min: "unat (v :: u256) < 2 ^ n \<Longrightarrow> unat v < 2 ^ min n 256"
  using unat_lt_256 [of v] by (cases "n \<le> 256") (simp_all add: min_def)

lemma lt_exp_mono: "(x :: nat) < 2 ^ n \<Longrightarrow> n \<le> m \<Longrightarrow> x < 2 ^ m"
  by (erule less_le_trans) simp

lemma unat_add_bound:
  assumes "unat (x :: u256) < 2 ^ a" "unat y < 2 ^ b"
  shows "unat (x + y) < 2 ^ min (max a b + 1) 256"
proof (rule lt_exp_min)
  have "unat x < 2 ^ max a b" "unat y < 2 ^ max a b"
    using assms by (auto intro: lt_exp_mono)
  then have "unat x + unat y < 2 ^ (max a b + 1)" by simp
  then show "unat (x + y) < 2 ^ (max a b + 1)"
    by (simp add: unat_word_ariths le_less_trans [OF mod_less_eq_dividend])
qed

lemma unat_mult_bound:
  assumes "unat (x :: u256) < 2 ^ a" "unat y < 2 ^ b"
  shows "unat (x * y) < 2 ^ min (a + b) 256"
proof (rule lt_exp_min)
  have "unat x * unat y < 2 ^ a * 2 ^ b"
    using assms by (intro mult_strict_mono) auto
  then show "unat (x * y) < 2 ^ (a + b)"
    by (simp add: unat_word_ariths power_add le_less_trans [OF mod_less_eq_dividend])
qed

lemma unat_shl_bound:
  "unat (x :: u256) < 2 ^ a \<Longrightarrow> unat (push_bit s x) < 2 ^ min (a + s) 256"
proof (rule lt_exp_min)
  assume "unat x < 2 ^ a"
  then have "2 ^ s * unat x < 2 ^ s * 2 ^ a" by simp
  then show "unat (push_bit s x) < 2 ^ (a + s)"
    by (simp add: unsigned_push_bit_eq take_bit_eq_mod power_add mult.commute
        le_less_trans [OF mod_less_eq_dividend] push_bit_eq_mult [where 'a = nat])
qed

lemma unat_drop_bit_u256: "unat (drop_bit s (x :: u256)) = unat x div 2 ^ s"
  using unat_lt_256 [of x]
  by (simp add: unsigned_drop_bit_eq drop_bit_eq_div [where 'a = nat] take_bit_nat_eq_self)

lemma unat_shr_bound:
  "unat (x :: u256) < 2 ^ a \<Longrightarrow> unat (drop_bit s x) < 2 ^ max (a - s) 1"
proof (rule lt_exp_mono)
  assume x: "unat x < 2 ^ a"
  show "unat (drop_bit s x) < 2 ^ (a - s)"
  proof (cases "s \<le> a")
    case True
    with x show ?thesis
      by (simp add: unat_drop_bit_u256 less_mult_imp_div_less power_add [symmetric])
  next
    case False
    with x have "unat x < 2 ^ s" by (auto intro: lt_exp_mono)
    then show ?thesis by (simp add: unat_drop_bit_u256)
  qed
qed simp

lemma unat_and_bound:
  assumes "unat (x :: u256) < 2 ^ a"
  shows "unat (x AND m) < 2 ^ min a (bit_len m)"
proof (cases "a \<le> bit_len m")
  case True
  have "unat (x AND m) \<le> unat x" using word_and_le2 [of x m] by (simp add: word_le_nat_alt)
  with assms True show ?thesis by (simp add: min_def)
next
  case False
  have "unat (x AND m) \<le> unat m" using word_and_le1 [of x m] by (simp add: word_le_nat_alt)
  with False unat_bit_len [of m] show ?thesis by (simp add: min_def)
qed

lemma u256_lt_2: "unat (v :: u256) < 2 ^ 1 \<Longrightarrow> v = 0 \<or> v = 1"
proof -
  assume "unat v < 2 ^ 1"
  then have "unat v < 2" by (simp only: power_one_right)
  then consider "unat v = 0" | "unat v = 1" by linarith
  then have "unat v = unat (0 :: u256) \<or> unat v = unat (1 :: u256)" by cases simp_all
  then show ?thesis unfolding word_unat_eq_iff .
qed

lemma u256_div_self: "(a :: u256) \<noteq> 0 \<Longrightarrow> a div a = 1"
proof -
  assume "a \<noteq> 0"
  then have "uint a \<noteq> 0" using uint_0_iff [of a] by blast
  then have "uint a div uint a = 1" by (rule div_self)
  then show ?thesis by (simp only: word_div_def word_of_int_1)
qed

lemma unat_div_bound: "unat (x :: u256) < 2 ^ b \<Longrightarrow> unat (x div y) < 2 ^ b"
  by (simp add: unat_div le_less_trans [OF div_le_dividend])

lemmas width_bounds = unat_and_bound unat_add_bound [simplified] unat_mult_bound unat_shl_bound
  unat_shr_bound [simplified] unat_div_bound

lemma unat_ternop_bound:
  assumes "unat m < 2 ^ b"
  shows "unat (eval_ternop op x y m) < 2 ^ b"
proof (cases "m = 0")
  case False
  have "unat (of_nat (k mod unat m) :: u256) < unat m" for k
  proof -
    have "k mod unat m < unat m" using False by (simp add: unat_gt_0)
    moreover have "unat (of_nat (k mod unat m) :: u256) \<le> k mod unat m"
      by (simp add: unat_of_nat)
    ultimately show ?thesis by simp
  qed
  with False assms show ?thesis by (cases op) (auto intro: less_trans)
qed simp

lemma usize_saturating_add_min:
  "min (usize_saturating_add a b) 256 = min (a + b) 256"
  by (simp add: usize_saturating_add_def min_def)

lemma const_usize_Some: "const_usize e = Some s \<longleftrightarrow> (\<exists>v. e = Const v \<and> unat v < 2 ^ 64 \<and> s = unat v)"
  by (cases e) (auto simp: const_usize_def usize_try_from_def)

lemma bits_of_sound:
  assumes ok: "widths_ok cx M bw" and b: "bits_of bw e = Some b" and v: "eval_word cx M e = Inr v"
  shows "unat v < 2 ^ b"
proof (cases e)
  case (Const x)
  with b v show ?thesis
    using unat_bit_len [of x] by (auto intro: lt_exp_mono)
next
  case (BinOp op l r)
  with v obtain x y where xy: "eval_word cx M l = Inr x" "eval_word cx M r = Inr y"
    "v = eval_binop cx op x y"
    by (auto split: sum.splits)
  note ok' = widths_okD [OF ok _ xy(1)] widths_okD [OF ok _ xy(2)]
  show ?thesis
    using BinOp b xy unat_lt_256 [of v]
    by (cases op)
      (auto simp: const_usize_Some usize_saturating_add_min split: option.splits
        intro: width_bounds dest!: ok')
next
  case (TernOp op l r m)
  with b v show ?thesis
    by (auto simp del: eval_ternop.simps split: sum.splits
        intro!: unat_ternop_bound dest: widths_okD [OF ok])
next
  case (Ite c l r)
  with b v show ?thesis
    by (auto split: sum.splits option.splits if_splits intro: lt_exp_mono dest!: widths_okD [OF ok])
qed (use b unat_lt_256 [of v] in auto)

lemma widths_ok_upd:
  "widths_ok cx M bw \<Longrightarrow> bits_of bw e = Some b \<Longrightarrow> widths_ok cx M (bw(e \<mapsto> b))"
  using bits_of_sound [of cx M bw e b] by (auto simp: widths_ok_def)

lemma ub_loop_sound:
  "ub_loop p bw n = Some (bw', n', fin) \<Longrightarrow> widths_ok cx M bw \<Longrightarrow> widths_ok cx M bw'"
  by (induction p bw n rule: ub_loop.induct) (auto split: if_splits option.splits dest: widths_ok_upd)

lemma unsigned_bits_cached_sound:
  assumes "unsigned_bits_cached e bw n = Some (bw', n', r)" "widths_ok cx M bw"
  shows "widths_ok cx M bw' \<and> (\<forall>b v. r = Some b \<longrightarrow> eval_word cx M e = Inr v \<longrightarrow> unat v < 2 ^ b)"
  using assms
  by (auto simp: unsigned_bits_cached_def split: option.splits if_splits
      dest: widths_okD ub_loop_sound)

lemma unsigned_bits_sound:
  assumes "eval_word cx M e = Inr v"
  shows "unat v < 2 ^ unsigned_bits e"
proof (cases "unsigned_bits_cached e Map.empty USIZE_MAX")
  case (Some res)
  obtain bw n r where res: "res = (bw, n, r)" by (cases res)
  have "widths_ok cx M Map.empty" by (simp add: widths_ok_def)
  from unsigned_bits_cached_sound [OF Some [unfolded res] this] assms Some res unat_lt_256 [of v]
  show ?thesis by (simp add: unsigned_bits_def split: option.splits)
qed (use unat_lt_256 [of v] in \<open>simp add: unsigned_bits_def\<close>)

subsection \<open>The worklist never reads a missing entry\<close>

text \<open>
  An entry whose children were visited finds them in the table when it is popped: each child is in
  the table already or above it on the stack.
\<close>

fun stack_ok :: "SymExpr set \<Rightarrow> (SymExpr \<times> bool) list \<Rightarrow> bool" where
  "stack_ok A [] = True"
| "stack_ok A ((e, children_visited) # p) =
     ((children_visited \<longrightarrow> set (width_children e) \<subseteq> A) \<and> stack_ok (insert e A) p)"

lemma stack_ok_mono: "stack_ok A p \<Longrightarrow> A \<subseteq> B \<Longrightarrow> stack_ok B p"
proof (induction A p arbitrary: B rule: stack_ok.induct)
  case (2 A e cv p)
  from 2(1) [of "insert e B"] 2(2,3) show ?case by auto
qed simp

lemma stack_ok_push: "stack_ok A (map (\<lambda>c. (c, False)) cs @ p) \<longleftrightarrow> stack_ok (set cs \<union> A) p"
  by (induction cs arbitrary: A) auto

lemma bits_of_defined: "set (width_children e) \<subseteq> dom bw \<Longrightarrow> bits_of bw e \<noteq> None"
  by (cases e) (auto split: SymBinOp.splits option.splits if_splits)

lemma ub_loop_no_panic: "stack_ok (dom bw) p \<Longrightarrow> ub_loop p bw n \<noteq> None"
proof (induction p bw n rule: ub_loop.induct)
  case (2 e cv p bw n)
  show ?case
  proof (cases "bw e")
    case None
    show ?thesis
    proof (cases cv)
      case True
      with 2(4) have "set (width_children e) \<subseteq> dom bw" by simp
      with bits_of_defined obtain b where b: "bits_of bw e = Some b" by blast
      have "ub_loop p (bw(e \<mapsto> b)) n \<noteq> None"
        using None True 2(4) 2(3) [OF _ _ b] by (simp add: fun_upd_def [symmetric])
      with None True b show ?thesis by simp
    next
      case False
      have "stack_ok (insert e (set (width_children e) \<union> dom bw)) p"
        using 2(4) False by (auto elim: stack_ok_mono)
      with None False 2(2) show ?thesis by (cases "n = 0") (simp_all add: stack_ok_push)
    qed
  qed (use 2 in \<open>auto simp: insert_absorb domI\<close>)
qed simp

lemma unsigned_bits_cached_no_panic: "unsigned_bits_cached e bw n \<noteq> None"
  using ub_loop_no_panic [of bw "[(e, False)]" n]
  by (auto simp: unsigned_bits_cached_def split: option.splits)

lemma ub_loop_covers:
  "ub_loop p bw n = Some (bw', n', True) \<Longrightarrow> dom bw \<union> fst ` set p \<subseteq> dom bw'"
proof (induction p bw n rule: ub_loop.induct)
  case (2 e cv p bw n)
  show ?case
  proof (cases "bw e")
    case None
    show ?thesis
    proof (cases cv)
      case True
      with None 2(4) obtain b where b: "bits_of bw e = Some b"
        and "ub_loop p (bw(e \<mapsto> b)) n = Some (bw', n', True)"
        by (auto split: option.splits)
      with None True have "dom (bw(e \<mapsto> b)) \<union> fst ` set p \<subseteq> dom bw'"
        using 2(3) [OF _ _ b] by (simp add: fun_upd_def [symmetric])
      then show ?thesis by auto
    next
      case False
      with None 2(4) have "n \<noteq> 0"
        and "ub_loop (map (\<lambda>c. (c, False)) (width_children e) @ (e, True) # p) bw (n - 1) = Some (bw', n', True)"
        by (auto split: if_splits)
      with None False have "dom bw \<union> fst ` set (map (\<lambda>c. (c, False)) (width_children e) @ (e, True) # p) \<subseteq> dom bw'"
        by (intro 2(2)) auto
      then show ?thesis by auto
    qed
  next
    case (Some b)
    with 2(4) have "dom bw \<union> fst ` set p \<subseteq> dom bw'" by (intro 2(1)) auto
    with Some show ?thesis by auto
  qed
qed simp

lemma ub_loop_remaining: "ub_loop p bw n = Some (bw', n', fin) \<Longrightarrow> n' \<le> n"
proof (induction p bw n rule: ub_loop.induct)
  case (2 e cv p bw n)
  then show ?case
    by (cases "bw e"; cases cv; cases "bits_of bw e") (auto simp: fun_upd_def [symmetric] split: if_splits)
qed simp

lemma unsigned_bits_cached_remaining:
  "unsigned_bits_cached e bw n = Some (bw', n', r) \<Longrightarrow> n' \<le> n"
  by (auto simp: unsigned_bits_cached_def simp del: ub_loop.simps split: option.splits
      dest: ub_loop_remaining)

lemma unsigned_bits_cached_complete:
  "unsigned_bits_cached e bw n = Some (bw', n', None) \<Longrightarrow>
   \<exists>bw'' n''. ub_loop [(e, False)] bw n = Some (bw'', n'', False)"
  using ub_loop_covers [of "[(e, False)]" bw n bw' n']
  by (auto simp: unsigned_bits_cached_def split: option.splits if_splits)

section \<open>Properties\<close>

text \<open>
  C4: the width worklist is safe and sound. With a table whose entries bound the values of their
  words, it ends without reading a missing entry, leaves such a table, never adds to its budget, and
  the width it returns bounds the value of the word.
\<close>

theorem width_worklist_sound:
  assumes "widths_ok cx M bw"
  shows "\<exists>bw' n' r. unsigned_bits_cached e bw n = Some (bw', n', r) \<and> widths_ok cx M bw' \<and> n' \<le> n \<and>
    (case (r, eval_word cx M e) of (Some b, Inr v) \<Rightarrow> unat v < 2 ^ b | _ \<Rightarrow> True)"
proof -
  obtain bw' n' r where u: "unsigned_bits_cached e bw n = Some (bw', n', r)"
    using unsigned_bits_cached_no_panic [of e bw n] by auto
  with unsigned_bits_cached_sound [OF u assms] unsigned_bits_cached_remaining [OF u] show ?thesis
    by (auto split: option.split sum.split)
qed

theorem width_worklist_sound_witness:
  "\<exists>bw' n' r. unsigned_bits_cached (BinOp And (Var 0) (Const 0xff)) [Var 0 \<mapsto> 256] 9 = Some (bw', n', r) \<and>
    widths_ok evm_cx [0 \<mapsto> 0x1234] bw' \<and> n' \<le> 9 \<and>
    (case (r, eval_word evm_cx [0 \<mapsto> 0x1234] (BinOp And (Var 0) (Const 0xff))) of
       (Some b, Inr v) \<Rightarrow> unat v < 2 ^ b | _ \<Rightarrow> True)"
  by (rule width_worklist_sound) (simp add: widths_ok_def)

text \<open>
  C10: known bytes and known words are the bytes and the value of the word under every model.
\<close>

theorem known_bytes_are_bytes:
  assumes "eval_word cx M e = Inr v" "i < 32"
  shows "known_word e \<in> {None, Some v} \<and> known_byte e i \<in> {None, Some (be_byte v i)}"
  using known_word_sound [OF _ assms(1)] known_byte_sound [OF _ assms(2,1)]
  by (cases "known_word e"; cases "known_byte e i") auto

theorem known_bytes_are_bytes_witness:
  "known_word (BinOp And (Var 0) (Const 0)) \<in> {None, Some 0} \<and>
   known_byte (BinOp And (Var 0) (Const 0)) 31 \<in> {None, Some (be_byte 0 31)}"
  by (rule known_bytes_are_bytes [where cx = evm_cx and M = "[0 \<mapsto> 7]"]) simp_all

end
