(* ===== verification/Sym_Count.thy ===== *)
theory Sym_Count
  imports Sym_Select
begin

text \<open>
  \<open>UnfoldedNodeCounter\<close> of \<open>expr/expr.rs\<close>: the number of nodes of the tree an expression unfolds
  to, computed with a memo table over the distinct nodes, a budget of 256 distinct nodes and a bound
  of 8192 unfolded ones. It guards the rewrites that place one operand in both arms of a
  conditional. A count it returns is the size of the tree.
\<close>

record UnfoldedNodeCounter =
  cnt_expr_nodes :: "SymExpr \<rightharpoonup> nat"
  cnt_bool_nodes :: "SymBoolExpr \<rightharpoonup> nat"
  remaining_unique_nodes :: nat

definition MAX_BRANCHLESS_REWRITE_NODES :: nat where
  "MAX_BRANCHLESS_REWRITE_NODES = 256"

definition MAX_BRANCHLESS_REWRITE_UNFOLDED_NODES :: nat where
  "MAX_BRANCHLESS_REWRITE_UNFOLDED_NODES = 8 * 1024"

definition UnfoldedNodeCounter_new :: UnfoldedNodeCounter where
  "UnfoldedNodeCounter_new =
     \<lparr>cnt_expr_nodes = Map.empty, cnt_bool_nodes = Map.empty,
      remaining_unique_nodes = MAX_BRANCHLESS_REWRITE_NODES\<rparr>"

text \<open>\<open>nodes.checked_add(self.expr_nodes(x)?)?\<close>.\<close>

definition add_nodes :: "nat \<Rightarrow> (nat \<times> UnfoldedNodeCounter) option \<Rightarrow> (nat \<times> UnfoldedNodeCounter) option" where
  "add_nodes n r =
     (case r of None \<Rightarrow> None | Some (m, c) \<Rightarrow> if n + m \<le> USIZE_MAX then Some (n + m, c) else None)"

text \<open>The table lookup, the budget and the bound around the count of one node.\<close>

definition enter_expr ::
    "SymExpr \<Rightarrow> UnfoldedNodeCounter \<Rightarrow> (UnfoldedNodeCounter \<Rightarrow> (nat \<times> UnfoldedNodeCounter) option)
      \<Rightarrow> (nat \<times> UnfoldedNodeCounter) option" where
  "enter_expr e c body =
     (case cnt_expr_nodes c e of
        Some n \<Rightarrow> Some (n, c)
      | None \<Rightarrow>
          if remaining_unique_nodes c = 0 then None
          else (case body (c\<lparr>remaining_unique_nodes := remaining_unique_nodes c - 1\<rparr>) of
              None \<Rightarrow> None
            | Some (n, c') \<Rightarrow>
                if n > MAX_BRANCHLESS_REWRITE_UNFOLDED_NODES then None
                else Some (n, c'\<lparr>cnt_expr_nodes := (cnt_expr_nodes c')(e \<mapsto> n)\<rparr>)))"

definition enter_bool ::
    "SymBoolExpr \<Rightarrow> UnfoldedNodeCounter \<Rightarrow> (UnfoldedNodeCounter \<Rightarrow> (nat \<times> UnfoldedNodeCounter) option)
      \<Rightarrow> (nat \<times> UnfoldedNodeCounter) option" where
  "enter_bool e c body =
     (case cnt_bool_nodes c e of
        Some n \<Rightarrow> Some (n, c)
      | None \<Rightarrow>
          if remaining_unique_nodes c = 0 then None
          else (case body (c\<lparr>remaining_unique_nodes := remaining_unique_nodes c - 1\<rparr>) of
              None \<Rightarrow> None
            | Some (n, c') \<Rightarrow>
                if n > MAX_BRANCHLESS_REWRITE_UNFOLDED_NODES then None
                else Some (n, c'\<lparr>cnt_bool_nodes := (cnt_bool_nodes c')(e \<mapsto> n)\<rparr>)))"

fun expr_nodes :: "SymExpr \<Rightarrow> UnfoldedNodeCounter \<Rightarrow> (nat \<times> UnfoldedNodeCounter) option"
and expr_list_nodes :: "nat \<Rightarrow> SymExpr list \<Rightarrow> UnfoldedNodeCounter \<Rightarrow> (nat \<times> UnfoldedNodeCounter) option"
and bool_nodes :: "SymBoolExpr \<Rightarrow> UnfoldedNodeCounter \<Rightarrow> (nat \<times> UnfoldedNodeCounter) option"
and bool_list_nodes :: "nat \<Rightarrow> SymBoolExpr list \<Rightarrow> UnfoldedNodeCounter \<Rightarrow> (nat \<times> UnfoldedNodeCounter) option"
where
  "expr_nodes (Const v) c = enter_expr (Const v) c (\<lambda>c. Some (1, c))"
| "expr_nodes (Var x) c = enter_expr (Var x) c (\<lambda>c. Some (1, c))"
| "expr_nodes (GasLeft x) c = enter_expr (GasLeft x) c (\<lambda>c. Some (1, c))"
| "expr_nodes (Keccak x len bytes) c = enter_expr (Keccak x len bytes) c
     (\<lambda>c. case add_nodes 1 (expr_nodes len c) of None \<Rightarrow> None | Some (n, c1) \<Rightarrow> expr_list_nodes n bytes c1)"
| "expr_nodes (Hash x alg bytes) c = enter_expr (Hash x alg bytes) c (\<lambda>c. expr_list_nodes 1 bytes c)"
| "expr_nodes (NotW e) c = enter_expr (NotW e) c (\<lambda>c. add_nodes 1 (expr_nodes e c))"
| "expr_nodes (BinOp op l r) c = enter_expr (BinOp op l r) c
     (\<lambda>c. case add_nodes 1 (expr_nodes l c) of None \<Rightarrow> None | Some (n, c1) \<Rightarrow> add_nodes n (expr_nodes r c1))"
| "expr_nodes (TernOp op l r m) c = enter_expr (TernOp op l r m) c
     (\<lambda>c. case add_nodes 1 (expr_nodes l c) of None \<Rightarrow> None | Some (n, c1) \<Rightarrow>
       (case add_nodes n (expr_nodes r c1) of None \<Rightarrow> None | Some (n', c2) \<Rightarrow> add_nodes n' (expr_nodes m c2)))"
| "expr_nodes (Ite d t e) c = enter_expr (Ite d t e) c
     (\<lambda>c. case add_nodes 1 (bool_nodes d c) of None \<Rightarrow> None | Some (n, c1) \<Rightarrow>
       (case add_nodes n (expr_nodes t c1) of None \<Rightarrow> None | Some (n', c2) \<Rightarrow> add_nodes n' (expr_nodes e c2)))"
| "expr_list_nodes n [] c = Some (n, c)"
| "expr_list_nodes n (e # es) c =
     (case add_nodes n (expr_nodes e c) of None \<Rightarrow> None | Some (n', c1) \<Rightarrow> expr_list_nodes n' es c1)"
| "bool_nodes (ConstB b) c = enter_bool (ConstB b) c (\<lambda>c. Some (1, c))"
| "bool_nodes (NotB d) c = enter_bool (NotB d) c (\<lambda>c. add_nodes 1 (bool_nodes d c))"
| "bool_nodes (AndB ds) c = enter_bool (AndB ds) c (\<lambda>c. bool_list_nodes 1 ds c)"
| "bool_nodes (CmpB op l r) c = enter_bool (CmpB op l r) c
     (\<lambda>c. case add_nodes 1 (expr_nodes l c) of None \<Rightarrow> None | Some (n, c1) \<Rightarrow> add_nodes n (expr_nodes r c1))"
| "bool_list_nodes n [] c = Some (n, c)"
| "bool_list_nodes n (d # ds) c =
     (case add_nodes n (bool_nodes d c) of None \<Rightarrow> None | Some (n', c1) \<Rightarrow> bool_list_nodes n' ds c1)"

definition duplicating_branchless_rewrite_fits :: "SymExpr \<Rightarrow> SymExpr \<Rightarrow> bool" where
  "duplicating_branchless_rewrite_fits operand conditional =
     (case expr_nodes operand UnfoldedNodeCounter_new of
        None \<Rightarrow> False
      | Some (operand_nodes, c) \<Rightarrow>
          (case expr_nodes conditional c of
             None \<Rightarrow> False
           | Some (conditional_nodes, _) \<Rightarrow>
               operand_nodes * 2 \<le> USIZE_MAX \<and>
               conditional_nodes + operand_nodes * 2 \<le> USIZE_MAX \<and>
               conditional_nodes + operand_nodes * 2 + 2 \<le> USIZE_MAX \<and>
               conditional_nodes + operand_nodes * 2 + 2 \<le> MAX_BRANCHLESS_REWRITE_UNFOLDED_NODES))"

section \<open>The counter counts the unfolded tree\<close>

fun unfolded :: "SymExpr \<Rightarrow> nat" and unfolded_b :: "SymBoolExpr \<Rightarrow> nat" where
  "unfolded (Const v) = 1"
| "unfolded (Var x) = 1"
| "unfolded (GasLeft x) = 1"
| "unfolded (Keccak x len bytes) = 1 + unfolded len + sum_list (map unfolded bytes)"
| "unfolded (Hash x alg bytes) = 1 + sum_list (map unfolded bytes)"
| "unfolded (NotW e) = 1 + unfolded e"
| "unfolded (BinOp op l r) = 1 + unfolded l + unfolded r"
| "unfolded (TernOp op l r m) = 1 + unfolded l + unfolded r + unfolded m"
| "unfolded (Ite c t e) = 1 + unfolded_b c + unfolded t + unfolded e"
| "unfolded_b (ConstB b) = 1"
| "unfolded_b (NotB c) = 1 + unfolded_b c"
| "unfolded_b (AndB cs) = 1 + sum_list (map unfolded_b cs)"
| "unfolded_b (CmpB op l r) = 1 + unfolded l + unfolded r"

definition counter_ok :: "UnfoldedNodeCounter \<Rightarrow> bool" where
  "counter_ok c \<longleftrightarrow>
     (\<forall>e n. cnt_expr_nodes c e = Some n \<longrightarrow> n = unfolded e) \<and>
     (\<forall>e n. cnt_bool_nodes c e = Some n \<longrightarrow> n = unfolded_b e)"

definition counts :: "nat \<Rightarrow> (nat \<times> UnfoldedNodeCounter) option \<Rightarrow> bool" where
  "counts k r \<longleftrightarrow> (\<forall>n c. r = Some (n, c) \<longrightarrow> n = k \<and> counter_ok c)"

lemma counts_Some [simp]: "counter_ok c \<Longrightarrow> counts k (Some (k, c))"
  by (simp add: counts_def)

lemma counts_add: "counts k r \<Longrightarrow> counts (n + k) (add_nodes n r)"
  by (auto simp: counts_def add_nodes_def split: option.splits if_splits)

lemma counts_bind:
  assumes "counts k r" and "\<And>c. r = Some (k, c) \<Longrightarrow> counter_ok c \<Longrightarrow> counts m (f k c)"
  shows "counts m (case r of None \<Rightarrow> None | Some (n, c) \<Rightarrow> f n c)"
proof (cases r)
  case None
  then show ?thesis by (simp add: counts_def)
next
  case (Some p)
  obtain n c where p: "p = (n, c)" by (cases p)
  with Some assms(1) have "n = k" "counter_ok c" by (auto simp: counts_def)
  with Some p assms(2) show ?thesis by simp
qed

lemma counts_enter_expr:
  assumes "counter_ok c" and b: "\<And>c. counter_ok c \<Longrightarrow> counts (unfolded e) (body c)"
  shows "counts (unfolded e) (enter_expr e c body)"
proof -
  have "counter_ok (c\<lparr>remaining_unique_nodes := remaining_unique_nodes c - 1\<rparr>)"
    using assms(1) by (simp add: counter_ok_def)
  from b [OF this] assms(1) show ?thesis
    by (auto simp: enter_expr_def counts_def counter_ok_def split: option.splits if_splits)
qed

lemma counts_enter_bool:
  assumes "counter_ok c" and b: "\<And>c. counter_ok c \<Longrightarrow> counts (unfolded_b e) (body c)"
  shows "counts (unfolded_b e) (enter_bool e c body)"
proof -
  have "counter_ok (c\<lparr>remaining_unique_nodes := remaining_unique_nodes c - 1\<rparr>)"
    using assms(1) by (simp add: counter_ok_def)
  from b [OF this] assms(1) show ?thesis
    by (auto simp: enter_bool_def counts_def counter_ok_def split: option.splits if_splits)
qed

lemma nodes_count:
  "counter_ok c \<Longrightarrow> counts (unfolded e) (expr_nodes e c)"
  "counter_ok c \<Longrightarrow> counts (n + sum_list (map unfolded es)) (expr_list_nodes n es c)"
  "counter_ok c \<Longrightarrow> counts (unfolded_b d) (bool_nodes d c)"
  "counter_ok c \<Longrightarrow> counts (n + sum_list (map unfolded_b ds)) (bool_list_nodes n ds c)"
proof (induction e c and n es c and d c and n ds c
    rule: expr_nodes_expr_list_nodes_bool_nodes_bool_list_nodes.induct)
  case (4 x len bytes c)
  show ?case
    unfolding expr_nodes.simps
    by (rule counts_enter_expr [OF 4(3)], unfold unfolded.simps) (rule counts_bind, rule counts_add, rule 4(1), assumption, rule 4(2), assumption, rule refl, assumption)
next
  case (5 x alg bytes c)
  show ?case
    unfolding expr_nodes.simps
    by (rule counts_enter_expr [OF 5(2)], unfold unfolded.simps) (rule 5(1), assumption)
next
  case (6 e c)
  show ?case
    unfolding expr_nodes.simps
    by (rule counts_enter_expr [OF 6(2)], unfold unfolded.simps) (rule counts_add, rule 6(1), assumption)
next
  case (7 op l r c)
  show ?case
    unfolding expr_nodes.simps
    by (rule counts_enter_expr [OF 7(3)], unfold unfolded.simps) (rule counts_bind, rule counts_add, rule 7(1), assumption, rule counts_add, rule 7(2), assumption, rule refl, assumption)
next
  case (8 op l r m c)
  show ?case
    unfolding expr_nodes.simps
    by (rule counts_enter_expr [OF 8(4)], unfold unfolded.simps) (rule counts_bind, rule counts_add, rule 8(1), assumption, rule counts_bind, rule counts_add, rule 8(2), assumption, rule refl, assumption, rule counts_add, rule 8(3), assumption, rule refl, assumption, rule refl, assumption)
next
  case (9 d t e c)
  show ?case
    unfolding expr_nodes.simps
    by (rule counts_enter_expr [OF 9(4)], unfold unfolded.simps) (rule counts_bind, rule counts_add, rule 9(1), assumption, rule counts_bind, rule counts_add, rule 9(2), assumption, rule refl, assumption, rule counts_add, rule 9(3), assumption, rule refl, assumption, rule refl, assumption)
next
  case (11 n e es c)
  show ?case
    by (simp only: expr_list_nodes.simps bool_list_nodes.simps list.map sum_list.Cons add.assoc [symmetric]) (rule counts_bind, rule counts_add, rule 11(1), rule 11(3), rule 11(2), assumption, rule refl, assumption)
next
  case (13 d c)
  show ?case
    unfolding bool_nodes.simps
    by (rule counts_enter_bool [OF 13(2)], unfold unfolded_b.simps) (rule counts_add, rule 13(1), assumption)
next
  case (14 ds c)
  show ?case
    unfolding bool_nodes.simps
    by (rule counts_enter_bool [OF 14(2)], unfold unfolded_b.simps) (rule 14(1), assumption)
next
  case (15 op l r c)
  show ?case
    unfolding bool_nodes.simps
    by (rule counts_enter_bool [OF 15(3)], unfold unfolded_b.simps) (rule counts_bind, rule counts_add, rule 15(1), assumption, rule counts_add, rule 15(2), assumption, rule refl, assumption)
next
  case (17 n d ds c)
  show ?case
    by (simp only: expr_list_nodes.simps bool_list_nodes.simps list.map sum_list.Cons add.assoc [symmetric]) (rule counts_bind, rule counts_add, rule 17(1), rule 17(3), rule 17(2), assumption, rule refl, assumption)
qed (simp_all only: expr_nodes.simps bool_nodes.simps expr_list_nodes.simps bool_list_nodes.simps
    list.map sum_list.Nil add_0_right unfolded.simps(1-3) unfolded_b.simps(1) counts_Some
    counts_enter_expr [of _ "Const _", unfolded unfolded.simps] counts_enter_expr [of _ "Var _", unfolded unfolded.simps]
    counts_enter_expr [of _ "GasLeft _", unfolded unfolded.simps] counts_enter_bool [of _ "ConstB _", unfolded unfolded_b.simps])

lemma expr_nodes_count: "expr_nodes e c = Some (n, c') \<Longrightarrow> counter_ok c \<Longrightarrow> n = unfolded e \<and> counter_ok c'"
  using nodes_count(1) [of c e] by (auto simp: counts_def)

lemma counter_ok_new [simp]: "counter_ok UnfoldedNodeCounter_new"
  by (simp add: counter_ok_def UnfoldedNodeCounter_new_def)

lemma rewrite_fits_unfolded:
  assumes "duplicating_branchless_rewrite_fits operand conditional"
  shows "unfolded conditional + 2 * unfolded operand + 2 \<le> MAX_BRANCHLESS_REWRITE_UNFOLDED_NODES"
proof -
  obtain n c m c' where n: "expr_nodes operand UnfoldedNodeCounter_new = Some (n, c)"
    and m: "expr_nodes conditional c = Some (m, c')"
    and le: "m + n * 2 + 2 \<le> MAX_BRANCHLESS_REWRITE_UNFOLDED_NODES"
    using assms by (auto simp: duplicating_branchless_rewrite_fits_def split: option.splits)
  from expr_nodes_count [OF n] have "n = unfolded operand" "counter_ok c" by simp_all
  with expr_nodes_count [OF m] le show ?thesis by simp
qed

section \<open>Properties\<close>

text \<open>
  C11: the duplication guard bounds the unfolded size. When it lets a rewrite put the operand in both
  arms of the conditional, the conditional, two copies of the operand and the two new nodes have at
  most 8192 nodes as trees, however much the expressions share.
\<close>

theorem rewrite_guard_bounds_unfolding:
  assumes "duplicating_branchless_rewrite_fits operand conditional"
  shows "unfolded conditional + 2 * unfolded operand + 2 \<le> 8192"
  using rewrite_fits_unfolded [OF assms] by (simp add: MAX_BRANCHLESS_REWRITE_UNFOLDED_NODES_def)

theorem rewrite_guard_bounds_unfolding_witness:
  "unfolded (Ite (ConstB True) (Const 0) (Const 1)) + 2 * unfolded (Var 0) + 2 \<le> 8192"
  by (rule rewrite_guard_bounds_unfolding)
    (simp add: duplicating_branchless_rewrite_fits_def enter_expr_def enter_bool_def add_nodes_def
      UnfoldedNodeCounter_new_def MAX_BRANCHLESS_REWRITE_NODES_def MAX_BRANCHLESS_REWRITE_UNFOLDED_NODES_def)

end
