(* ===== verification/Sym_Build.thy ===== *)
theory Sym_Build
  imports Sym_Count
begin

text \<open>
  The simplifying constructors of \<open>expr/expr.rs\<close>: \<open>not\<close>, one definition per arm of \<open>binop\<close>, and
  \<open>ternop\<close>, with the helpers they call in the order of the source. Each is shown to build a word
  with the value of the operator it stands for, under every model that gives its operands a value.
\<close>

section \<open>Complement\<close>

definition sym_not :: "SymExpr \<Rightarrow> SymExpr" where
  "sym_not e = (case e of Const v \<Rightarrow> Const (NOT v) | NotW d \<Rightarrow> d | _ \<Rightarrow> NotW e)"

text \<open>The arm \<open>const op const => const\<close> with which every arm of \<open>binop\<close> begins.\<close>

definition fold_const :: "SymCx \<Rightarrow> SymBinOp \<Rightarrow> SymExpr \<Rightarrow> SymExpr \<Rightarrow> SymExpr option" where
  "fold_const cx op l r =
     (case as_const l of None \<Rightarrow> None | Some a \<Rightarrow>
       map_option (\<lambda>b. Const (eval_binop cx op a b)) (as_const r))"

lemma ordered_commutative_operands_size:
  "size (fst (ordered_commutative_operands cx l r)) + size (snd (ordered_commutative_operands cx l r)) =
   size l + size r"
  by (cases rule: ordered_commutative_operands_cases [of cx l r]) auto

section \<open>Disjunction of words\<close>

text \<open>Fragments of one word that a disjunction puts together again.\<close>

fun push_or_terms :: "SymExpr \<Rightarrow> SymExpr list" where
  "push_or_terms (BinOp op l r) =
     (if op = Or then push_or_terms l @ push_or_terms r else [BinOp op l r])"
| "push_or_terms e = [e]"

fun strip_low_byte_mask :: "SymExpr \<Rightarrow> SymExpr" where
  "strip_low_byte_mask (BinOp op l r) =
     (if op = And \<and> as_const r = Some 0xff then strip_low_byte_mask l else BinOp op l r)"
| "strip_low_byte_mask e = e"

definition extracted_unshifted_byte_source :: "SymExpr \<Rightarrow> nat \<Rightarrow> SymExpr option" where
  "extracted_unshifted_byte_source e index =
     (let expr = strip_low_byte_mask e
      in if index = 31 then Some expr
         else (case expr of
             BinOp op source shift \<Rightarrow>
               if op = Shr \<and> as_const shift = Some (of_nat ((31 - index) * 8)) then Some source else None
           | _ \<Rightarrow> None))"

definition extracted_shifted_byte_term :: "SymExpr \<Rightarrow> (SymExpr \<times> nat) option" where
  "extracted_shifted_byte_term e =
     (case e of
        BinOp Shl byte shift \<Rightarrow>
          (case const_usize shift of
             None \<Rightarrow> None
           | Some s \<Rightarrow>
               if s mod 8 \<noteq> 0 \<or> s > 248 then None
               else let index = 31 - s div 8
                    in map_option (\<lambda>source. (source, index)) (extracted_unshifted_byte_source byte index))
      | _ \<Rightarrow> map_option (\<lambda>source. (source, 31)) (extracted_unshifted_byte_source e 31))"

fun rebuild_loop :: "SymExpr list \<Rightarrow> SymExpr option \<Rightarrow> bool list \<Rightarrow> (SymExpr option \<times> bool list) option" where
  "rebuild_loop [] source seen = Some (source, seen)"
| "rebuild_loop (t # ts) source seen =
     (if as_const t = Some 0 then rebuild_loop ts source seen
      else (case extracted_shifted_byte_term t of
          None \<Rightarrow> None
        | Some (term_source, index) \<Rightarrow>
            if source \<noteq> None \<and> source \<noteq> Some term_source then None
            else rebuild_loop ts (Some term_source) (seen[index := True])))"

definition rebuild_from_extracted_byte_terms :: "SymExpr list \<Rightarrow> SymExpr option" where
  "rebuild_from_extracted_byte_terms ts =
     (if length ts \<le> 1 then None
      else (case rebuild_loop ts None (replicate 32 False) of
          Some (Some source, seen) \<Rightarrow>
            if list_all (\<lambda>i. seen ! i \<or> known_byte source i = Some 0) [0..<32] then Some source else None
        | _ \<Rightarrow> None))"

definition low_word_fragment :: "SymExpr \<Rightarrow> (SymExpr \<times> nat) option" where
  "low_word_fragment e =
     (case e of
        BinOp And l r \<Rightarrow> map_option (\<lambda>bits. (l, bits)) (Option.bind (as_const r) mask_low_bits)
      | _ \<Rightarrow> None)"

definition shifted_low_fragment_source_with_mask :: "SymExpr \<Rightarrow> u256 \<Rightarrow> (SymExpr \<times> nat \<times> nat) option" where
  "shifted_low_fragment_source_with_mask e m =
     (case mask_low_bits m of
        None \<Rightarrow> None
      | Some width \<Rightarrow>
          (case e of
             BinOp Shr source shift \<Rightarrow> map_option (\<lambda>s. (source, s, width)) (const_usize shift)
           | _ \<Rightarrow> Some (e, 0, width)))"

definition shifted_low_fragment_source :: "SymExpr \<Rightarrow> (SymExpr \<times> nat \<times> nat) option" where
  "shifted_low_fragment_source e =
     (case e of
        BinOp And l r \<Rightarrow> Option.bind (as_const r) (shifted_low_fragment_source_with_mask l)
      | _ \<Rightarrow> None)"

definition shifted_high_word_fragment :: "SymExpr \<Rightarrow> (SymExpr \<times> nat) option" where
  "shifted_high_word_fragment e =
     (case e of
        BinOp Shl value shift \<Rightarrow>
          (case const_usize shift of
             None \<Rightarrow> None
           | Some bits \<Rightarrow>
               if bits = 0 \<or> bits \<ge> 256 then None
               else (case shifted_low_fragment_source value of
                   None \<Rightarrow> None
                 | Some (source, source_shift, width) \<Rightarrow>
                     if source_shift = bits \<and> width = 256 - bits then Some (source, bits) else None))
      | _ \<Rightarrow> None)"

definition rebuild_from_shifted_word_fragments :: "SymExpr list \<Rightarrow> SymExpr option" where
  "rebuild_from_shifted_word_fragments ts =
     (case ts of
        [t0, t1] \<Rightarrow>
          (case (low_word_fragment t0, low_word_fragment t1,
                 shifted_high_word_fragment t0, shifted_high_word_fragment t1) of
             (Some (low_source, low_bits), None, None, Some (high_source, high_bits)) \<Rightarrow>
               if low_source = high_source \<and> low_bits = high_bits then Some low_source else None
           | (None, Some (low_source, low_bits), Some (high_source, high_bits), None) \<Rightarrow>
               if low_source = high_source \<and> low_bits = high_bits then Some low_source else None
           | _ \<Rightarrow> None)
      | _ \<Rightarrow> None)"

definition rebuild_from_or_terms :: "SymExpr \<Rightarrow> SymExpr \<Rightarrow> SymExpr option" where
  "rebuild_from_or_terms l r =
     (let terms = push_or_terms l @ push_or_terms r
      in case rebuild_from_extracted_byte_terms terms of
           Some e \<Rightarrow> Some e
         | None \<Rightarrow> rebuild_from_shifted_word_fragments terms)"

definition commutative_binop :: "SymCx \<Rightarrow> SymBinOp \<Rightarrow> SymExpr \<Rightarrow> SymExpr \<Rightarrow> SymExpr" where
  "commutative_binop cx op l r = (case ordered_commutative_operands cx l r of (l, r) \<Rightarrow> BinOp op l r)"

text \<open>\<open>SymExpr::or\<close>.\<close>

definition or_word :: "SymCx \<Rightarrow> SymExpr \<Rightarrow> SymExpr \<Rightarrow> SymExpr" where
  "or_word cx l r =
     (case rebuild_from_or_terms l r of Some e \<Rightarrow> e | None \<Rightarrow> commutative_binop cx Or l r)"

definition or_with_absorbing_ite :: "SymExpr \<Rightarrow> SymExpr \<Rightarrow> SymExpr option" where
  "or_with_absorbing_ite conditional other =
     (case conditional of
        Ite c t e \<Rightarrow>
          if as_const t = Some 0 \<and> as_const e = Some U256_MAX then Some (ite c other e)
          else if as_const t = Some U256_MAX \<and> as_const e = Some 0 then Some (ite c t other)
          else None
      | _ \<Rightarrow> None)"

definition binop_or :: "SymCx \<Rightarrow> SymExpr \<Rightarrow> SymExpr \<Rightarrow> SymExpr" where
  "binop_or cx l r =
     (case fold_const cx Or l r of
        Some e \<Rightarrow> e
      | None \<Rightarrow>
          if as_const l = Some 0 then r
          else if as_const r = Some 0 then l
          else if l = r then l
          else (case or_with_absorbing_ite l r of
              Some e \<Rightarrow> e
            | None \<Rightarrow> (case or_with_absorbing_ite r l of Some e \<Rightarrow> e | None \<Rightarrow> or_word cx l r)))"

section \<open>Shifts and conjunction\<close>

definition binop_shl :: "SymCx \<Rightarrow> SymExpr \<Rightarrow> SymExpr \<Rightarrow> SymExpr" where
  "binop_shl cx l r =
     (case fold_const cx Shl l r of
        Some e \<Rightarrow> e
      | None \<Rightarrow>
          if as_const r = Some 0 then l
          else if as_const l = Some 0 then Const 0
          else (case as_const r of
              Some s \<Rightarrow> if s \<ge> 256 then Const 0 else BinOp Shl l r
            | None \<Rightarrow> BinOp Shl l r))"

function shr_const :: "SymExpr \<Rightarrow> u256 \<Rightarrow> SymExpr" where
  "shr_const e shift =
     (if shift = 0 then e
      else if shift \<ge> 256 then Const 0
      else if unsigned_bits e \<le> unat shift then Const 0
      else (case e of
          BinOp op l r \<Rightarrow>
            if op = Shl \<and> as_const r = Some shift \<and> unsigned_bits l \<le> 256 - unat shift then l
            else if op = Or then
              (let left = shr_const l shift; right = shr_const r shift
               in if as_const left = Some 0 then right
                  else if as_const right = Some 0 then left
                  else BinOp Shr e (Const shift))
            else BinOp Shr e (Const shift)
        | _ \<Rightarrow> BinOp Shr e (Const shift)))"
  by pat_completeness auto
termination
  by (relation "measure (\<lambda>(e, s). size e)") auto

declare shr_const.simps [simp del]

definition binop_shr :: "SymCx \<Rightarrow> SymExpr \<Rightarrow> SymExpr \<Rightarrow> SymExpr" where
  "binop_shr cx l r =
     (case fold_const cx Shr l r of
        Some e \<Rightarrow> e
      | None \<Rightarrow>
          if as_const r = Some 0 then l
          else if as_const l = Some 0 then Const 0
          else (case as_const r of Some s \<Rightarrow> shr_const l s | None \<Rightarrow> BinOp Shr l r))"

definition binop_sar :: "SymCx \<Rightarrow> SymExpr \<Rightarrow> SymExpr \<Rightarrow> SymExpr" where
  "binop_sar cx l r =
     (case fold_const cx Sar l r of
        Some e \<Rightarrow> e
      | None \<Rightarrow> if as_const r = Some 0 then l else BinOp Sar l r)"

function and_const :: "SymCx \<Rightarrow> SymExpr \<Rightarrow> u256 \<Rightarrow> SymExpr" where
  "and_const cx e m =
     (if m = 0 then Const 0
      else if m = U256_MAX then e
      else (case e of
          Const v \<Rightarrow> Const (v AND m)
        | BinOp op l r \<Rightarrow>
            if op = Or then binop_or cx (and_const cx l m) (and_const cx r m)
            else if op = Shl \<and>
              (case mask_low_bits m of
                 None \<Rightarrow> False
               | Some bits \<Rightarrow> (case const_usize r of None \<Rightarrow> False | Some s \<Rightarrow> bits \<le> s)) then Const 0
            else if op = And then
              (if as_const r = Some m then and_const cx l m
               else if l = r then and_const cx l m
               else BinOp And e (Const m))
            else BinOp And e (Const m)
        | _ \<Rightarrow> BinOp And e (Const m)))"
  by pat_completeness auto
termination
  by (relation "measure (\<lambda>(cx, e, m). size e)") auto

declare and_const.simps [simp del]

definition binop_and :: "SymCx \<Rightarrow> SymExpr \<Rightarrow> SymExpr \<Rightarrow> SymExpr" where
  "binop_and cx l r =
     (case fold_const cx And l r of
        Some e \<Rightarrow> e
      | None \<Rightarrow>
          if as_const l = Some 0 \<or> as_const r = Some 0 then Const 0
          else if as_const l = Some U256_MAX then r
          else if as_const r = Some U256_MAX then l
          else if l = r then l
          else (case as_const l of
              Some m \<Rightarrow> and_const cx r m
            | None \<Rightarrow> (case as_const r of Some m \<Rightarrow> and_const cx l m | None \<Rightarrow> commutative_binop cx And l r)))"

section \<open>Arithmetic\<close>

text \<open>
  The \<open>Add\<close> arm and \<open>add_with_const_ite\<close> call each other, on an operand and an arm of the
  conditional it was combined with.
\<close>

function (sequential) binop_add :: "SymCx \<Rightarrow> SymExpr \<Rightarrow> SymExpr \<Rightarrow> SymExpr"
and add_with_const_ite :: "SymCx \<Rightarrow> SymExpr \<Rightarrow> SymExpr \<Rightarrow> SymExpr option" where
  "binop_add cx l r =
     (case fold_const cx Add l r of
        Some e \<Rightarrow> e
      | None \<Rightarrow>
          if as_const l = Some 0 then r
          else if as_const r = Some 0 then l
          else (case (if as_const l = Some U256_MAX then bitwise_bool_word_condition cx r
                      else if as_const r = Some U256_MAX then bitwise_bool_word_condition cx l else None) of
              Some c \<Rightarrow> ite c (Const 0) (Const U256_MAX)
            | None \<Rightarrow>
                (case (case as_const l of None \<Rightarrow> None | Some k \<Rightarrow>
                         map_option (\<lambda>c. ite c (Const (k + 1)) (Const k)) (bitwise_bool_word_condition cx r)) of
                   Some e \<Rightarrow> e
                 | None \<Rightarrow>
                     (case (case as_const r of None \<Rightarrow> None | Some k \<Rightarrow>
                              map_option (\<lambda>c. ite c (Const (k + 1)) (Const k)) (bitwise_bool_word_condition cx l)) of
                        Some e \<Rightarrow> e
                      | None \<Rightarrow>
                          (let p = ordered_commutative_operands cx l r
                           in case add_with_const_ite cx (fst p) (snd p) of
                                Some e \<Rightarrow> e
                              | None \<Rightarrow>
                                  (case add_with_const_ite cx (snd p) (fst p) of
                                     Some e \<Rightarrow> e
                                   | None \<Rightarrow> BinOp Add (fst p) (snd p)))))))"
| "add_with_const_ite cx other (Ite c t e) =
     (if as_const other \<noteq> None then None
      else if as_const t = None \<or> as_const e = None then None
      else if \<not> duplicating_branchless_rewrite_fits other (Ite c t e) then None
      else Some (ite c (binop_add cx other t) (binop_add cx other e)))"
| "add_with_const_ite cx other conditional = None"
  by pat_completeness auto
termination
proof (relation "measure (\<lambda>x. case x of Inl (cx, l, r) \<Rightarrow> 2 * (size l + size r) + 1
    | Inr (cx, l, r) \<Rightarrow> 2 * (size l + size r))", goal_cases)
  case (2 cx l r)
  then show ?case using ordered_commutative_operands_size [of cx l r] by (simp add: split_beta)
next
  case (3 cx l r)
  then show ?case using ordered_commutative_operands_size [of cx l r] by (simp add: split_beta)
qed auto

declare binop_add.simps [simp del] add_with_const_ite.simps [simp del]

definition binop_sub :: "SymCx \<Rightarrow> SymExpr \<Rightarrow> SymExpr \<Rightarrow> SymExpr" where
  "binop_sub cx l r =
     (case fold_const cx Sub l r of
        Some e \<Rightarrow> e
      | None \<Rightarrow>
          if as_const r = Some 0 then l
          else if l = r then Const 0
          else (case (if as_const r = Some 1 then bitwise_bool_word_condition cx l else None) of
              Some c \<Rightarrow> ite c (Const 0) (Const U256_MAX)
            | None \<Rightarrow>
                (case (case as_const l of None \<Rightarrow> None | Some k \<Rightarrow>
                         map_option (\<lambda>c. ite c (Const (k - 1)) (Const k)) (bitwise_bool_word_condition cx r)) of
                   Some e \<Rightarrow> e
                 | None \<Rightarrow> BinOp Sub l r)))"

definition binop_mul :: "SymCx \<Rightarrow> SymExpr \<Rightarrow> SymExpr \<Rightarrow> SymExpr" where
  "binop_mul cx l r =
     (case fold_const cx Mul l r of
        Some e \<Rightarrow> e
      | None \<Rightarrow>
          if as_const l = Some 0 \<or> as_const r = Some 0 then Const 0
          else if as_const l = Some 1 then r
          else if as_const r = Some 1 then l
          else (case ordered_commutative_operands cx l r of (left, right) \<Rightarrow>
            (case direct_bool_word_condition left of
               Some c \<Rightarrow> ite c right (Const 0)
             | None \<Rightarrow>
                 (case direct_bool_word_condition right of
                    Some c \<Rightarrow> ite c left (Const 0)
                  | None \<Rightarrow>
                      (case Option.bind (as_const right) power_of_two_shift of
                         Some shift \<Rightarrow> binop_shl cx left (Const (of_nat shift))
                       | None \<Rightarrow> BinOp Mul left right)))))"

text \<open>The shared arms of \<open>UDiv\<close> and \<open>SDiv\<close>, and of \<open>URem\<close> and \<open>SRem\<close>.\<close>

definition binop_div :: "SymCx \<Rightarrow> SymBinOp \<Rightarrow> SymExpr \<Rightarrow> SymExpr \<Rightarrow> SymExpr" where
  "binop_div cx op l r =
     (case fold_const cx op l r of
        Some e \<Rightarrow> e
      | None \<Rightarrow>
          (case as_const r of None \<Rightarrow> BinOp op l r | Some b \<Rightarrow>
          if b = 0 then Const 0
          else if b = 1 then l
          else (case (if op = UDiv then power_of_two_shift b else None) of
              None \<Rightarrow> BinOp op l r
            | Some shift \<Rightarrow>
                (case l of
                   BinOp Sub x low_bits \<Rightarrow>
                     if low_masked_source low_bits shift = Some x then binop_shr cx x (Const (of_nat shift))
                     else binop_shr cx l (Const (of_nat shift))
                 | _ \<Rightarrow> binop_shr cx l (Const (of_nat shift))))))"

definition binop_rem :: "SymCx \<Rightarrow> SymBinOp \<Rightarrow> SymExpr \<Rightarrow> SymExpr \<Rightarrow> SymExpr" where
  "binop_rem cx op l r =
     (case fold_const cx op l r of
        Some e \<Rightarrow> e
      | None \<Rightarrow>
          (case as_const r of None \<Rightarrow> BinOp op l r | Some b \<Rightarrow>
          if b = 0 then Const 0
          else if b = 1 then Const 0
          else (case (if op = URem then power_of_two_shift b else None) of
              None \<Rightarrow> BinOp op l r
            | Some bits \<Rightarrow> and_const cx l (mask_bits U256_MAX bits))))"

section \<open>Exclusive disjunction\<close>

definition xor_operands :: "SymExpr \<Rightarrow> (SymExpr \<times> SymExpr) option" where
  "xor_operands e = (case e of BinOp op l r \<Rightarrow> if op = Xor then Some (l, r) else None | _ \<Rightarrow> None)"

text \<open>
  The operand that a product \<open>(base ^ selected) * condition\<close> selects, found in one factor; the other
  factor is the condition.
\<close>

definition xor_delta :: "SymExpr \<Rightarrow> SymExpr \<Rightarrow> SymExpr option" where
  "xor_delta base factor =
     (case xor_operands factor of
        None \<Rightarrow> None
      | Some (delta_left, delta_right) \<Rightarrow>
          if delta_left = base then Some delta_right
          else if delta_right = base then Some delta_left
          else None)"

definition xor_with_bool_select :: "SymCx \<Rightarrow> SymExpr \<Rightarrow> SymExpr \<Rightarrow> SymExpr option" where
  "xor_with_bool_select cx base selector =
     (case selector of
        BinOp Mul l r \<Rightarrow>
          (case (case xor_delta base l of
                   Some selected \<Rightarrow> Some (r, selected)
                 | None \<Rightarrow> map_option (\<lambda>selected. (l, selected)) (xor_delta base r)) of
             None \<Rightarrow> None
           | Some (condition_word, selected) \<Rightarrow>
               map_option (\<lambda>c. ite c selected base) (bitwise_bool_word_condition cx condition_word))
      | _ \<Rightarrow> None)"

definition xor_with_shared_operand :: "SymExpr \<Rightarrow> SymExpr \<Rightarrow> SymExpr option" where
  "xor_with_shared_operand base nested = xor_delta base nested"

function (sequential) binop_xor :: "SymCx \<Rightarrow> SymExpr \<Rightarrow> SymExpr \<Rightarrow> SymExpr"
and xor_with_zero_ite :: "SymCx \<Rightarrow> SymExpr \<Rightarrow> SymExpr \<Rightarrow> SymExpr option" where
  "binop_xor cx l r =
     (case fold_const cx Xor l r of
        Some e \<Rightarrow> e
      | None \<Rightarrow>
          if as_const l = Some 0 then r
          else if as_const r = Some 0 then l
          else if l = r then Const 0
          else
            (let p = ordered_commutative_operands cx l r
             in case xor_with_shared_operand (fst p) (snd p) of Some e \<Rightarrow> e | None \<Rightarrow>
               (case xor_with_shared_operand (snd p) (fst p) of Some e \<Rightarrow> e | None \<Rightarrow>
               (case xor_with_bool_select cx (fst p) (snd p) of Some e \<Rightarrow> e | None \<Rightarrow>
               (case xor_with_bool_select cx (snd p) (fst p) of Some e \<Rightarrow> e | None \<Rightarrow>
               (case xor_with_zero_ite cx (fst p) (snd p) of Some e \<Rightarrow> e | None \<Rightarrow>
               (case xor_with_zero_ite cx (snd p) (fst p) of Some e \<Rightarrow> e | None \<Rightarrow>
                  BinOp Xor (fst p) (snd p))))))))"
| "xor_with_zero_ite cx base (Ite c t e) =
     (if as_const t = Some 0 then
        (if \<not> duplicating_branchless_rewrite_fits base (Ite c t e) then None
         else Some (ite c base (binop_xor cx base e)))
      else if as_const e = Some 0 then
        (if \<not> duplicating_branchless_rewrite_fits base (Ite c t e) then None
         else Some (ite c (binop_xor cx base t) base))
      else None)"
| "xor_with_zero_ite cx base conditional = None"
  by pat_completeness auto
termination
proof (relation "measure (\<lambda>x. case x of Inl (cx, l, r) \<Rightarrow> 2 * (size l + size r) + 1
    | Inr (cx, l, r) \<Rightarrow> 2 * (size l + size r))", goal_cases)
  case (2 cx l r)
  then show ?case using ordered_commutative_operands_size [of cx l r] by (simp add: split_beta)
next
  case (3 cx l r)
  then show ?case using ordered_commutative_operands_size [of cx l r] by (simp add: split_beta)
qed auto

declare binop_xor.simps [simp del] xor_with_zero_ite.simps [simp del]

section \<open>The constructors\<close>

definition binop :: "SymCx \<Rightarrow> SymBinOp \<Rightarrow> SymExpr \<Rightarrow> SymExpr \<Rightarrow> SymExpr" where
  "binop cx op l r =
     (case op of
        Add \<Rightarrow> binop_add cx l r
      | Sub \<Rightarrow> binop_sub cx l r
      | Mul \<Rightarrow> binop_mul cx l r
      | UDiv \<Rightarrow> binop_div cx UDiv l r
      | SDiv \<Rightarrow> binop_div cx SDiv l r
      | URem \<Rightarrow> binop_rem cx URem l r
      | SRem \<Rightarrow> binop_rem cx SRem l r
      | And \<Rightarrow> binop_and cx l r
      | Or \<Rightarrow> binop_or cx l r
      | Xor \<Rightarrow> binop_xor cx l r
      | Shl \<Rightarrow> binop_shl cx l r
      | Shr \<Rightarrow> binop_shr cx l r
      | Sar \<Rightarrow> binop_sar cx l r)"

definition ternop :: "SymCx \<Rightarrow> SymTernOp \<Rightarrow> SymExpr \<Rightarrow> SymExpr \<Rightarrow> SymExpr \<Rightarrow> SymExpr" where
  "ternop cx op l r m =
     (if as_const m = Some 0 \<or> as_const m = Some 1 then Const 0
      else (case (as_const l, as_const r, as_const m) of
          (Some a, Some b, Some k) \<Rightarrow> Const (eval_ternop op a b k)
        | _ \<Rightarrow>
            (case Option.bind (as_const m) power_of_two_shift of
               Some bits \<Rightarrow>
                 and_const cx (binop cx (case op of AddMod \<Rightarrow> Add | MulMod \<Rightarrow> Mul) l r) (mask_bits U256_MAX bits)
             | None \<Rightarrow>
                 (case ordered_commutative_operands cx l r of (l, r) \<Rightarrow> TernOp op l r m))))"

end
