(* ===== verification/Sym_Rebuild.thy ===== *)
theory Sym_Rebuild
  imports Sym_Build
begin

text \<open>
  The disjunction of words: a disjunction of byte extracts or of a low and a high fragment of one
  word is that word again (\<open>rebuild_from_or_terms\<close>), so the \<open>Or\<close> arm of \<open>binop\<close> keeps the value of
  the operator. The lemmas that the other arms share come first.
\<close>

section \<open>Shared arms\<close>

lemma fold_const_Some:
  "fold_const cx op l r = Some e \<longleftrightarrow>
   (\<exists>a b. l = Const a \<and> r = Const b \<and> e = Const (eval_binop cx op a b))"
  by (cases l; cases r) (auto simp: fold_const_def)

lemma fold_const_sound:
  "fold_const cx op l r = Some e \<Longrightarrow> eval_word cx M l = Inr a \<Longrightarrow> eval_word cx M r = Inr b \<Longrightarrow>
   eval_word cx M e = Inr (eval_binop cx op a b)"
  by (auto simp: fold_const_Some)

lemma eval_BinOp:
  "eval_word cx M l = Inr a \<Longrightarrow> eval_word cx M r = Inr b \<Longrightarrow>
   eval_word cx M (BinOp op l r) = Inr (eval_binop cx op a b)"
  by simp

lemma eval_BinOp_Inr:
  "eval_word cx M (BinOp op l r) = Inr v \<longleftrightarrow>
   (\<exists>a b. eval_word cx M l = Inr a \<and> eval_word cx M r = Inr b \<and> v = eval_binop cx op a b)"
  by (auto split: sum.splits)

lemma commutative_binop_sound:
  assumes "eval_word cx M l = Inr a" "eval_word cx M r = Inr b"
    "eval_binop cx op b a = eval_binop cx op a b"
  shows "eval_word cx M (commutative_binop cx op l r) = Inr (eval_binop cx op a b)"
  using assms
  by (cases rule: ordered_commutative_operands_cases [of cx l r]) (simp_all add: commutative_binop_def)

lemma sym_not_sound: "eval_word cx M e = Inr v \<Longrightarrow> eval_word cx M (sym_not e) = Inr (NOT v)"
  by (cases e) (auto simp: sym_not_def split: sum.splits)

section \<open>Rebuilding a word from its fragments\<close>

definition bits_sub :: "u256 \<Rightarrow> u256 \<Rightarrow> bool" where
  "bits_sub x s \<longleftrightarrow> (\<forall>n. bit x n \<longrightarrow> bit s n)"

definition or_vals :: "u256 list \<Rightarrow> u256" where
  "or_vals xs = foldr (OR) xs 0"

lemma bit_or_vals: "bit (or_vals xs) n \<longleftrightarrow> (\<exists>x \<in> set xs. bit x n)"
  by (induction xs) (auto simp: or_vals_def bit_or_iff)

lemma or_vals_append: "or_vals (xs @ ys) = or_vals xs OR or_vals ys"
  by (rule bit_eqI) (auto simp: bit_or_vals bit_or_iff)

lemma or_vals_single [simp]: "or_vals [x] = x"
  by (simp add: or_vals_def)

abbreviation evals :: "SymCx \<Rightarrow> model \<Rightarrow> SymExpr list \<Rightarrow> u256 list \<Rightarrow> bool" where
  "evals cx M \<equiv> list_all2 (\<lambda>e v. eval_word cx M e = Inr v)"

lemma push_or_terms_sound:
  "eval_word cx M e = Inr v \<Longrightarrow> \<exists>xs. evals cx M (push_or_terms e) xs \<and> v = or_vals xs"
proof (induction e arbitrary: v rule: push_or_terms.induct)
  case (1 op l r)
  show ?case
  proof (cases "op = Or")
    case True
    with "1.prems" obtain a b where "eval_word cx M l = Inr a" "eval_word cx M r = Inr b" "v = a OR b"
      by (auto split: sum.splits)
    with 1(1,2) [OF True] obtain xs ys where
      "evals cx M (push_or_terms l) xs" "a = or_vals xs" "evals cx M (push_or_terms r) ys" "b = or_vals ys"
      by blast
    with True \<open>v = a OR b\<close> show ?thesis
      by (intro exI [of _ "xs @ ys"]) (simp add: or_vals_append list_all2_appendI)
  qed (use 1 in \<open>auto intro: exI [of _ "[v]"]\<close>)
qed (auto intro: exI [of _ "[_]"])

lemma strip_low_byte_mask_sound:
  assumes "eval_word cx M e = Inr v"
  shows "\<exists>w. eval_word cx M (strip_low_byte_mask e) = Inr w \<and> (v = w \<or> v = w AND 0xff)"
  using assms
proof (induction e arbitrary: v rule: strip_low_byte_mask.induct)
  case (1 op l r)
  show ?case
  proof (cases "op = And \<and> as_const r = Some 0xff")
    case True
    with "1.prems" obtain a where a: "eval_word cx M l = Inr a" and v: "v = a AND 0xff"
      by (auto split: sum.splits)
    from 1(1) [OF True a] obtain w where "eval_word cx M (strip_low_byte_mask l) = Inr w"
      and "a = w \<or> a = w AND 0xff" by blast
    with True v show ?thesis by (auto simp: and.assoc)
  qed (use 1 in auto)
qed auto

lemma low_byte_mask: "(0xff :: u256) = mask 8"
  by (simp add: mask_eq_exp_minus_1)

lemma bit_and_low_byte: "bit (w AND (0xff :: u256)) n \<longleftrightarrow> n < 8 \<and> bit w n"
proof -
  have "bit (w AND mask 8) n \<longleftrightarrow> n < 8 \<and> bit w n"
    by (auto simp: bit_and_iff bit_mask_iff dest: bit_imp_le_length)
  then show ?thesis unfolding low_byte_mask .
qed

lemma fragment_sub:
  assumes idx: "idx < 32" and x: "x = push_bit ((31 - idx) * 8) b"
    and b: "b = drop_bit ((31 - idx) * 8) s \<or> b = drop_bit ((31 - idx) * 8) s AND 0xff"
  shows "bits_sub x s \<and> be_byte x idx = be_byte s idx"
proof -
  define k where "k = (31 - idx) * 8"
  have sub: "bit b n \<Longrightarrow> bit s (k + n)" and eq: "n < 8 \<Longrightarrow> bit b n = bit s (k + n)" for n
    using b by (auto simp: k_def [symmetric] bit_drop_bit_eq bit_and_low_byte)
  have "bit s n" if "bit x n" for n
  proof -
    from that have "k \<le> n" "bit b (n - k)" by (simp_all add: x k_def [symmetric] bit_push_bit_iff)
    with sub [of "n - k"] show ?thesis by simp
  qed
  moreover have "bit (be_byte x idx) n = bit (be_byte s idx) n" if "n < 8" for n
  proof -
    have "k + n < 256" using that idx by (simp add: k_def)
    then show ?thesis
      using eq [OF that] that idx by (simp add: bit_be_byte k_def [symmetric] x bit_push_bit_iff)
  qed
  ultimately show ?thesis
    by (auto simp: bits_sub_def intro!: bit_eqI)
qed

lemma unat_of_nat_small: "n < 256 \<Longrightarrow> unat (of_nat n :: u256) = n"
  by (simp add: unat_of_nat)

lemma of_nat_ge_256: "n < 256 \<Longrightarrow> \<not> (256 :: u256) \<le> of_nat n"
  by (simp add: word_le_nat_alt unat_of_nat_small)

lemma extracted_unshifted_byte_source_sound:
  assumes "extracted_unshifted_byte_source e idx = Some src" "idx < 32" "eval_word cx M e = Inr b"
  shows "\<exists>s. eval_word cx M src = Inr s \<and>
    (b = drop_bit ((31 - idx) * 8) s \<or> b = drop_bit ((31 - idx) * 8) s AND 0xff)"
proof -
  obtain w where w: "eval_word cx M (strip_low_byte_mask e) = Inr w" "b = w \<or> b = w AND 0xff"
    using strip_low_byte_mask_sound [OF assms(3)] by blast
  show ?thesis
  proof (cases "idx = 31")
    case True
    with assms(1) w show ?thesis by (auto simp: extracted_unshifted_byte_source_def)
  next
    case False
    with assms(1) have st: "strip_low_byte_mask e = BinOp Shr src (Const (of_nat ((31 - idx) * 8)))"
      by (cases "strip_low_byte_mask e") (auto simp: extracted_unshifted_byte_source_def split: if_splits)
    have k: "(31 - idx) * 8 < 256" using assms(2) by simp
    from w(1) [unfolded st] obtain s where s: "eval_word cx M src = Inr s"
      and "w = drop_bit ((31 - idx) * 8) s"
      using of_nat_ge_256 [OF k] unat_of_nat_small [OF k]
      by (auto simp del: of_nat_mult of_nat_diff split: sum.splits)
    with w(2) show ?thesis by auto
  qed
qed

lemma extracted_shifted_byte_term_cases:
  assumes "extracted_shifted_byte_term t = Some (src, idx)"
  obtains byte sh where "t = BinOp Shl byte (Const sh)" "idx < 32" "unat sh = (31 - idx) * 8"
      "extracted_unshifted_byte_source byte idx = Some src"
    | "idx = 31" "extracted_unshifted_byte_source t 31 = Some src"
proof (cases "\<exists>byte shift. t = BinOp Shl byte shift")
  case True
  then obtain byte shift where t: "t = BinOp Shl byte shift" by blast
  with assms obtain n where n: "const_usize shift = Some n" "n mod 8 = 0" "n \<le> 248" "idx = 31 - n div 8"
      "extracted_unshifted_byte_source byte idx = Some src"
    by (auto simp: extracted_shifted_byte_term_def Let_def split: option.splits if_splits)
  then have "(31 - idx) * 8 = n" by auto
  with n t show thesis
    by (auto simp: const_usize_Some intro: that(1))
next
  case False
  with assms show thesis
    by (intro that(2)) (auto simp: extracted_shifted_byte_term_def split: SymExpr.splits SymBinOp.splits)
qed

lemma extracted_shifted_byte_term_sound:
  assumes "extracted_shifted_byte_term t = Some (src, idx)" and x: "eval_word cx M t = Inr x"
  shows "idx < 32 \<and> (\<exists>s. eval_word cx M src = Inr s \<and> bits_sub x s \<and> be_byte x idx = be_byte s idx)"
  using assms(1)
proof (cases rule: extracted_shifted_byte_term_cases)
  case (1 byte sh)
  then have sh: "\<not> 256 \<le> sh" by (simp add: word_le_nat_alt)
  from x 1 sh obtain b where b: "eval_word cx M byte = Inr b" "x = push_bit ((31 - idx) * 8) b"
    by (auto split: sum.splits)
  with extracted_unshifted_byte_source_sound [OF 1(4,2) b(1)] fragment_sub [OF 1(2) b(2)] 1(2)
  show ?thesis by blast
next
  case 2
  have "idx < 32" "x = push_bit ((31 - idx) * 8) x" using 2 by simp_all
  with extracted_unshifted_byte_source_sound [OF 2(2) _ x] fragment_sub [of idx x x] 2(1)
  show ?thesis by auto
qed

lemma rebuild_loop_sound:
  assumes "rebuild_loop ts source seen = Some (Some src, seen')" "evals cx M ts xs" "length seen = 32"
    and "source \<noteq> None \<Longrightarrow> \<exists>s. eval_word cx M (the source) = Inr s"
  shows "\<exists>s. eval_word cx M src = Inr s \<and> (source \<noteq> None \<longrightarrow> source = Some src) \<and> (\<forall>x \<in> set xs. bits_sub x s) \<and>
    (\<forall>i < 32. seen' ! i \<longrightarrow> seen ! i \<or> (\<exists>x \<in> set xs. be_byte x i = be_byte s i))"
  using assms
proof (induction ts source seen arbitrary: xs rule: rebuild_loop.induct)
  case (2 t ts source seen)
  from "2.prems"(2) obtain x xs' where xs: "xs = x # xs'" and x: "eval_word cx M t = Inr x"
    and xs': "evals cx M ts xs'"
    by (auto simp: list_all2_Cons1)
  show ?case
  proof (cases "as_const t = Some 0")
    case True
    with x have "x = 0" by simp
    with 2(1) [OF True _ xs' "2.prems"(3,4)] True "2.prems"(1) xs show ?thesis
      by (auto simp: bits_sub_def)
  next
    case False
    with "2.prems"(1) obtain ts' idx where t: "extracted_shifted_byte_term t = Some (ts', idx)"
      and src: "source \<noteq> None \<longrightarrow> source = Some ts'"
      and rest: "rebuild_loop ts (Some ts') (seen[idx := True]) = Some (Some src, seen')"
      by (auto split: option.splits if_splits)
    from extracted_shifted_byte_term_sound [OF t x] obtain s where idx: "idx < 32"
      and s: "eval_word cx M ts' = Inr s" "bits_sub x s" "be_byte x idx = be_byte s idx"
      by blast
    have nsrc: "\<not> (source \<noteq> None \<and> source \<noteq> Some ts')" using src by blast
    from 2(2) [OF False t refl nsrc rest xs'] s "2.prems"(3)
    obtain s' where "eval_word cx M src = Inr s'" "ts' = src" "\<forall>x \<in> set xs'. bits_sub x s'"
      "\<forall>i < 32. seen' ! i \<longrightarrow> seen[idx := True] ! i \<or> (\<exists>x \<in> set xs'. be_byte x i = be_byte s' i)"
      by auto
    moreover have "seen[idx := True] ! i \<longleftrightarrow> i = idx \<or> seen ! i" if "i < 32" for i
      using that "2.prems"(3) by (cases "i = idx") simp_all
    ultimately show ?thesis
      using s src xs by (intro exI [of _ s']) auto
  qed
qed auto

lemma or_vals_bytes_eq:
  assumes sub: "\<forall>x \<in> set xs. bits_sub x s"
    and cov: "\<And>i. i < 32 \<Longrightarrow> (\<exists>x \<in> set xs. be_byte x i = be_byte s i) \<or> be_byte s i = 0"
  shows "or_vals xs = s"
proof (rule be_byte_eqI, rule bit_eqI)
  fix i n :: nat
  assume i: "i < 32"
  show "bit (be_byte (or_vals xs) i) n = bit (be_byte s i) n"
    using cov [OF i]
  proof
    assume "\<exists>x \<in> set xs. be_byte x i = be_byte s i"
    then obtain x where "x \<in> set xs" and e: "be_byte x i = be_byte s i" by blast
    from arg_cong [OF e, of "\<lambda>w. bit w n"] \<open>x \<in> set xs\<close> sub show ?thesis
      by (auto simp: bit_be_byte bit_or_vals bits_sub_def)
  next
    assume e: "be_byte s i = 0"
    from arg_cong [OF e, of "\<lambda>w. bit w n"] sub show ?thesis
      by (auto simp: bit_be_byte bit_or_vals bits_sub_def)
  qed
qed

lemma rebuild_from_extracted_byte_terms_sound:
  assumes "rebuild_from_extracted_byte_terms ts = Some src" "evals cx M ts xs"
  shows "eval_word cx M src = Inr (or_vals xs)"
proof -
  from assms(1) obtain seen where r: "rebuild_loop ts None (replicate 32 False) = Some (Some src, seen)"
    and k: "\<And>i. i < 32 \<Longrightarrow> seen ! i \<or> known_byte src i = Some 0"
    by (auto simp: rebuild_from_extracted_byte_terms_def list_all_iff split: if_splits option.splits)
  from rebuild_loop_sound [OF r assms(2)] obtain s where s: "eval_word cx M src = Inr s"
    and sub: "\<forall>x \<in> set xs. bits_sub x s"
    and seen: "\<forall>i < 32. seen ! i \<longrightarrow> (\<exists>x \<in> set xs. be_byte x i = be_byte s i)"
    by auto
  have "(\<exists>x \<in> set xs. be_byte x i = be_byte s i) \<or> be_byte s i = 0" if "i < 32" for i
    using k [OF that] seen that known_byte_sound [of src i 0, OF _ that s] by blast
  with sub s show ?thesis by (simp add: or_vals_bytes_eq)
qed

lemma low_word_fragment_Some:
  "low_word_fragment t = Some (src, n) \<Longrightarrow> t = BinOp And src (Const (mask n)) \<and> n \<le> 256"
  by (auto simp: low_word_fragment_def split: SymExpr.splits SymBinOp.splits bind_splits
      dest!: mask_low_bits_Some)

lemma shifted_high_word_fragment_Some:
  assumes "shifted_high_word_fragment t = Some (src, n)"
  shows "0 < n \<and> n < 256 \<and> (\<exists>sh sh'. unat sh = n \<and> unat sh' = n \<and>
    t = BinOp Shl (BinOp And (BinOp Shr src (Const sh)) (Const (mask (256 - n)))) (Const sh'))"
proof -
  from assms obtain val shift where t: "t = BinOp Shl val shift" and sh: "const_usize shift = Some n"
    and n: "0 < n" "n < 256" and v: "shifted_low_fragment_source val = Some (src, n, 256 - n)"
    by (auto simp: shifted_high_word_fragment_def split: SymExpr.splits SymBinOp.splits option.splits if_splits)
  from v obtain l m where "val = BinOp And l (Const m)"
    and w: "shifted_low_fragment_source_with_mask l m = Some (src, n, 256 - n)"
    by (auto simp: shifted_low_fragment_source_def split: SymExpr.splits SymBinOp.splits bind_splits)
  moreover from w have "m = mask (256 - n)"
    by (auto simp: shifted_low_fragment_source_with_mask_def dest!: mask_low_bits_Some
        split: option.splits SymExpr.splits SymBinOp.splits)
  moreover from w n obtain s where "l = BinOp Shr src s" "const_usize s = Some n"
    by (auto simp: shifted_low_fragment_source_with_mask_def
        split: option.splits SymExpr.splits SymBinOp.splits)
  ultimately show ?thesis using t sh n by (auto simp: const_usize_Some)
qed

lemma fragments_join:
  assumes "n < 256"
  shows "(s AND mask n) OR push_bit n (drop_bit n s AND mask (256 - n)) = (s :: u256)"
  by (rule bit_eqI)
    (use assms in \<open>auto simp: bit_or_iff bit_and_iff bit_mask_iff bit_push_bit_iff bit_drop_bit_eq\<close>)

lemma fragments_sound:
  assumes low: "low_word_fragment t = Some (src, n)" and high: "shifted_high_word_fragment u = Some (src, n)"
    and "eval_word cx M t = Inr x" "eval_word cx M u = Inr y"
  shows "eval_word cx M src = Inr (x OR y)"
proof -
  from shifted_high_word_fragment_Some [OF high] obtain sh sh' where n: "n < 256"
    and sh: "unat sh = n" "unat sh' = n"
    and u: "u = BinOp Shl (BinOp And (BinOp Shr src (Const sh)) (Const (mask (256 - n)))) (Const sh')"
    by blast
  from n sh have le: "\<not> 256 \<le> sh" "\<not> 256 \<le> sh'" by (simp_all add: word_le_nat_alt)
  from assms(3) low_word_fragment_Some [OF low] obtain s where s: "eval_word cx M src = Inr s" "x = s AND mask n"
    by (auto split: sum.splits)
  with assms(4) u sh le have "y = push_bit n (drop_bit n s AND mask (256 - n))" by simp
  with s fragments_join [OF n] show ?thesis by simp
qed

lemma rebuild_from_shifted_word_fragments_sound:
  assumes "rebuild_from_shifted_word_fragments ts = Some src" "evals cx M ts xs"
  shows "eval_word cx M src = Inr (or_vals xs)"
proof -
  obtain t0 t1 where ts: "ts = [t0, t1]"
    using assms(1) by (auto simp: rebuild_from_shifted_word_fragments_def split: list.splits)
  with assms(2) obtain x y where xs: "xs = [x, y]" and x: "eval_word cx M t0 = Inr x"
    and y: "eval_word cx M t1 = Inr y"
    by (auto simp: list_all2_Cons1)
  consider n where "low_word_fragment t0 = Some (src, n)" "shifted_high_word_fragment t1 = Some (src, n)"
    | n where "low_word_fragment t1 = Some (src, n)" "shifted_high_word_fragment t0 = Some (src, n)"
    using assms(1)
    by (auto simp: ts rebuild_from_shifted_word_fragments_def split: option.splits if_splits prod.splits)
  then show ?thesis
  proof cases
    case 1
    from fragments_sound [OF this x y] show ?thesis by (simp add: xs or_vals_def)
  next
    case 2
    from fragments_sound [OF this y x] show ?thesis by (simp add: xs or_vals_def or.commute)
  qed
qed

lemma rebuild_from_or_terms_sound:
  assumes "rebuild_from_or_terms l r = Some e" "eval_word cx M l = Inr a" "eval_word cx M r = Inr b"
  shows "eval_word cx M e = Inr (a OR b)"
proof -
  obtain xs ys where "evals cx M (push_or_terms l) xs" "a = or_vals xs"
    "evals cx M (push_or_terms r) ys" "b = or_vals ys"
    using push_or_terms_sound [OF assms(2)] push_or_terms_sound [OF assms(3)] by blast
  then have "evals cx M (push_or_terms l @ push_or_terms r) (xs @ ys)" "a OR b = or_vals (xs @ ys)"
    by (simp_all add: list_all2_appendI or_vals_append)
  with assms(1) show ?thesis
    by (auto simp: rebuild_from_or_terms_def Let_def split: option.splits
        dest: rebuild_from_extracted_byte_terms_sound rebuild_from_shifted_word_fragments_sound)
qed

section \<open>Disjunction\<close>

lemma or_word_sound:
  assumes "eval_word cx M l = Inr a" "eval_word cx M r = Inr b"
  shows "eval_word cx M (or_word cx l r) = Inr (a OR b)"
  using commutative_binop_sound [of cx M l a r b Or] rebuild_from_or_terms_sound [OF _ assms] assms
  by (auto simp: or_word_def or.commute split: option.splits)

lemma or_with_absorbing_ite_sound:
  assumes "or_with_absorbing_ite k other = Some e" "eval_word cx M k = Inr a" "eval_word cx M other = Inr b"
  shows "eval_word cx M e = Inr (a OR b)"
proof -
  consider c where "k = Ite c (Const 0) (Const U256_MAX)" "e = ite c other (Const U256_MAX)"
    | c where "k = Ite c (Const U256_MAX) (Const 0)" "e = ite c (Const U256_MAX) other"
    using assms(1) by (cases k) (auto simp: or_with_absorbing_ite_def split: if_splits)
  then show ?thesis
  proof cases
    case (1 c)
    with assms(2) obtain v where "eval_bool cx M c = Inr v" "a = (if v then 0 else U256_MAX)"
      by (cases "eval_bool cx M c") (auto split: if_splits)
    with 1 assms(3) show ?thesis by (auto intro!: ite_sound)
  next
    case (2 c)
    with assms(2) obtain v where "eval_bool cx M c = Inr v" "a = (if v then U256_MAX else 0)"
      by (cases "eval_bool cx M c") (auto split: if_splits)
    with 2 assms(3) show ?thesis by (auto intro!: ite_sound)
  qed
qed

lemma binop_or_sound:
  assumes "eval_word cx M l = Inr a" "eval_word cx M r = Inr b"
  shows "eval_word cx M (binop_or cx l r) = Inr (a OR b)"
  using assms fold_const_sound [of cx Or l r _ M a b] or_word_sound [OF assms]
    or_with_absorbing_ite_sound [OF _ assms] or_with_absorbing_ite_sound [OF _ assms(2,1)]
  by (auto simp: binop_or_def or.commute split: option.splits)

end
