(* ===== verification/Sym_Sound.thy ===== *)
theory Sym_Sound
  imports Sym_Rebuild
begin

text \<open>
  The simplifying constructors keep the value of the operator: for every model that gives the
  operands a value, the word that \<open>binop\<close> or \<open>ternop\<close> builds has the value of the operator on them.
\<close>

lemma binop_cases [consumes 2, case_names fold left right none]:
  assumes "eval_word cx M l = Inr a" "eval_word cx M r = Inr b"
  obtains e where "fold_const cx op l r = Some e" "eval_word cx M e = Inr (eval_binop cx op a b)"
  | "fold_const cx op l r = None" "l = Const a" "as_const r = None" "\<forall>v. r \<noteq> Const v" "\<forall>v. Const v \<noteq> r"
  | "fold_const cx op l r = None" "r = Const b" "as_const l = None" "\<forall>v. l \<noteq> Const v" "\<forall>v. Const v \<noteq> l"
  | "fold_const cx op l r = None" "as_const l = None" "as_const r = None"
      "\<forall>v. l \<noteq> Const v" "\<forall>v. r \<noteq> Const v" "\<forall>v. Const v \<noteq> l" "\<forall>v. Const v \<noteq> r"
proof (cases "fold_const cx op l r")
  case (Some e)
  with fold_const_sound [OF Some assms] that(1) show thesis by blast
next
  case None
  with assms that(2-4) show thesis
    by (cases "as_const l"; cases "as_const r") (auto simp: fold_const_def as_const_None)
qed

section \<open>Shifts\<close>

lemma binop_shl_sound:
  assumes "eval_word cx M l = Inr a" "eval_word cx M r = Inr b"
  shows "eval_word cx M (binop_shl cx l r) = Inr (eval_binop cx Shl a b)"
  using assms fold_const_sound [of cx Shl l r _ M a b]
  by (auto simp: binop_shl_def split: option.splits)

lemma shr_zero: "unat (v :: u256) < 2 ^ n \<Longrightarrow> n \<le> s \<Longrightarrow> drop_bit s v = 0"
  using unat_drop_bit_u256 [of s v] lt_exp_mono [of "unat v" n s] by (simp add: unat_eq_zero)

lemma shl_shr:
  assumes "unat (v :: u256) < 2 ^ n" "n \<le> 256 - s"
  shows "drop_bit s (push_bit s v) = v"
proof (rule bit_eqI)
  fix i
  have "i < n" if "bit v i"
  proof (rule ccontr)
    assume "\<not> i < n"
    then have "bit v i = bit (drop_bit n v) (i - n)" by (simp add: bit_drop_bit_eq)
    with shr_zero [OF assms(1), of n] that show False by simp
  qed
  with assms(2) show "bit (drop_bit s (push_bit s v)) i \<longleftrightarrow> bit v i"
    by (auto simp: bit_drop_bit_eq bit_push_bit_iff)
qed

lemma shr_const_cases:
  obtains (triv) "s = 0 \<or> s \<ge> 256"
  | (zero) "s \<noteq> 0" "\<not> s \<ge> 256" "unsigned_bits e \<le> unat s" "shr_const e s = Const 0"
  | (shl) l where "\<not> s \<ge> 256" "e = BinOp Shl l (Const s)" "unsigned_bits l \<le> 256 - unat s" "shr_const e s = l"
  | (or) l r where "s \<noteq> 0" "\<not> s \<ge> 256" "\<not> unsigned_bits e \<le> unat s" "e = BinOp Or l r"
      "shr_const e s = (if shr_const l s = Const 0 then shr_const r s
        else if shr_const r s = Const 0 then shr_const l s else BinOp Shr e (Const s))"
  | (plain) "\<not> s \<ge> 256" "shr_const e s = BinOp Shr e (Const s)"
proof (cases "s = 0 \<or> s \<ge> 256 \<or> unsigned_bits e \<le> unat s")
  case True
  then show thesis using triv zero by (auto simp: shr_const.simps [of e s])
next
  case False
  note u = shr_const.simps [of e s]
  show thesis
  proof (cases "\<exists>op l r. e = BinOp op l r")
    case True
    then obtain op l r where e: "e = BinOp op l r" by blast
    consider "op = Shl \<and> as_const r = Some s \<and> unsigned_bits l \<le> 256 - unat s" | "op = Or"
      | "\<not> (op = Shl \<and> as_const r = Some s \<and> unsigned_bits l \<le> 256 - unat s)" "op \<noteq> Or" by blast
    then show thesis
    proof cases
      case 1
      with False e u show thesis by (intro shl [of l]) simp_all
    next
      case 2
      with False e u show thesis by (intro or [of l r]) (simp_all add: Let_def)
    next
      case 3
      have "shr_const e s = BinOp Shr e (Const s)"
        using False 3 u by (simp only: e SymExpr.case if_False simp_thms de_Morgan_disj)
      with False show thesis by (intro plain) simp_all
    qed
  next
    case noBin: False
    have "shr_const e s = BinOp Shr e (Const s)" using False noBin u by (cases e) simp_all
    with False show thesis by (intro plain) simp_all
  qed
qed

lemma shr_const_sound:
  "eval_word cx M e = Inr a \<Longrightarrow> eval_word cx M (shr_const e s) = Inr (eval_binop cx Shr a s)"
proof (induction e s arbitrary: a rule: shr_const.induct)
  case (1 e s)
  show ?case
  proof (cases rule: shr_const_cases [where s = s and e = e])
    case triv
    with 1(3) show ?thesis by (subst shr_const.simps) auto
  next
    case zero
    with shr_zero [OF unsigned_bits_sound [OF 1(3)]] show ?thesis by simp
  next
    case (shl l)
    with 1(3) obtain b where b: "eval_word cx M l = Inr b" "a = push_bit (unat s) b"
      by (auto split: sum.splits)
    with shl shl_shr [OF unsigned_bits_sound [OF b(1)]] show ?thesis by simp
  next
    case (or l r)
    with 1(3) obtain x y where xy: "eval_word cx M l = Inr x" "eval_word cx M r = Inr y" "a = x OR y"
      by (auto split: sum.splits)
    have l: "eval_word cx M (shr_const l s) = Inr (drop_bit (unat s) x)"
      using 1(1) [OF or(1-4) _ _ xy(1)] or by simp
    have r: "eval_word cx M (shr_const r s) = Inr (drop_bit (unat s) y)"
      using 1(2) [OF or(1-4) _ _ refl xy(2)] or by simp
    from l r xy or(2,4,5) 1(3) show ?thesis by (auto simp: drop_bit_or)
  next
    case plain
    with 1(3) show ?thesis by simp
  qed
qed

lemma binop_shr_sound:
  assumes "eval_word cx M l = Inr a" "eval_word cx M r = Inr b"
  shows "eval_word cx M (binop_shr cx l r) = Inr (eval_binop cx Shr a b)"
  using assms fold_const_sound [of cx Shr l r _ M a b] shr_const_sound [OF assms(1)]
  by (auto simp: binop_shr_def split: option.splits)

lemma binop_sar_sound:
  assumes "eval_word cx M l = Inr a" "eval_word cx M r = Inr b"
  shows "eval_word cx M (binop_sar cx l r) = Inr (eval_binop cx Sar a b)"
  using assms fold_const_sound [of cx Sar l r _ M a b]
  by (auto simp: binop_sar_def split: option.splits)

section \<open>Conjunction\<close>

lemma push_bit_and_mask: "n \<le> s \<Longrightarrow> push_bit s (v :: u256) AND mask n = 0"
  by (rule bit_eqI) (auto simp: bit_and_iff bit_push_bit_iff bit_mask_iff)

lemma u256_or_and: "((x :: u256) OR y) AND m = (x AND m) OR (y AND m)"
  by (rule bit_eqI) (auto simp: bit_and_iff bit_or_iff)

lemma and_const_cases:
  obtains (triv) "m = 0 \<or> m = U256_MAX"
  | (const) v where "e = Const v" "and_const cx e m = Const (v AND m)"
  | (or) l r where "m \<noteq> 0" "m \<noteq> U256_MAX" "e = BinOp Or l r"
      "and_const cx e m = binop_or cx (and_const cx l m) (and_const cx r m)"
  | (shl) l s n where "e = BinOp Shl l (Const s)" "m = mask n" "n \<le> unat s" "and_const cx e m = Const 0"
  | (masked) l where "m \<noteq> 0" "m \<noteq> U256_MAX" "e = BinOp And l (Const m)" "and_const cx e m = and_const cx l m"
  | (same) l where "m \<noteq> 0" "m \<noteq> U256_MAX" "e = BinOp And l l" "as_const l \<noteq> Some m" "and_const cx e m = and_const cx l m"
  | (plain) "and_const cx e m = BinOp And e (Const m)"
proof (cases "m = 0 \<or> m = U256_MAX")
  case False
  then have m: "m \<noteq> 0" "m \<noteq> U256_MAX" by blast+
  note u = and_const.simps [of cx e m, simplified m if_False]
  show thesis
  proof (cases "\<exists>op l r. e = BinOp op l r")
    case True
    then obtain op l r where e: "e = BinOp op l r" by blast
    let ?s = "case mask_low_bits m of None \<Rightarrow> False
      | Some bits \<Rightarrow> (case const_usize r of None \<Rightarrow> False | Some s \<Rightarrow> bits \<le> s)"
    consider "op = Or" | "op = Shl" ?s | "op = And" "as_const r = Some m" | "op = And" "as_const r \<noteq> Some m" "l = r"
      | "op \<noteq> Or" "\<not> (op = Shl \<and> ?s)" "op = And \<longrightarrow> as_const r \<noteq> Some m \<and> l \<noteq> r" by blast
    then show thesis
    proof cases
      case 1
      with m e u show thesis by (intro or [of l r]) simp_all
    next
      case 2
      then obtain n s where n: "mask_low_bits m = Some n" and "const_usize r = Some s" "n \<le> s"
        by (auto split: option.splits)
      then obtain v where "r = Const v" "n \<le> unat v" by (auto simp: const_usize_Some)
      moreover have "and_const cx e m = Const 0" unfolding u unfolding e using 2 by simp
      ultimately show thesis
        using 2(1) e mask_low_bits_Some [OF n] by (intro shl [of l v n]) simp_all
    next
      case 3
      with m e u show thesis by (intro masked [of l]) simp_all
    next
      case 4
      with m e u show thesis by (intro same [of l]) simp_all
    next
      case 5
      have "and_const cx e m = BinOp And e (Const m)"
        unfolding u unfolding e using 5 by (cases op) simp_all
      then show thesis by (rule plain)
    qed
  next
    case noBin: False
    show thesis using u noBin by (cases e) (auto intro: const plain)
  qed
qed (rule triv)

lemma and_const_sound:
  "eval_word cx M e = Inr a \<Longrightarrow> eval_word cx M (and_const cx e m) = Inr (a AND m)"
proof (induction "size e" arbitrary: e a rule: less_induct)
  case less
  show ?case
  proof (cases rule: and_const_cases [where m = m and e = e and cx = cx])
    case triv
    with less(2) show ?thesis by (subst and_const.simps) auto
  next
    case (const v)
    with less(2) show ?thesis by simp
  next
    case (or l r)
    with less(2) obtain x y where xy: "eval_word cx M l = Inr x" "eval_word cx M r = Inr y" "a = x OR y"
      by (auto split: sum.splits)
    have "eval_word cx M (and_const cx l m) = Inr (x AND m)" "eval_word cx M (and_const cx r m) = Inr (y AND m)"
      using less(1) xy or by simp_all
    from binop_or_sound [OF this] or xy show ?thesis by (simp add: u256_or_and)
  next
    case (shl l s n)
    with less(2) show ?thesis by (auto simp: push_bit_and_mask split: sum.splits if_splits)
  next
    case (masked l)
    with less(2) obtain x where x: "eval_word cx M l = Inr x" "a = x AND m"
      by (auto split: sum.splits)
    with less(1) [of l x] masked show ?thesis by (simp add: and.assoc)
  next
    case (same l)
    with less(2) obtain x where x: "eval_word cx M l = Inr x" "a = x"
      by (auto split: sum.splits)
    with less(1) [of l x] same show ?thesis by simp
  next
    case plain
    with less(2) show ?thesis by simp
  qed
qed

lemma binop_and_sound:
  assumes "eval_word cx M l = Inr a" "eval_word cx M r = Inr b"
  shows "eval_word cx M (binop_and cx l r) = Inr (a AND b)"
proof -
  have c: "b AND a = a AND b" by (rule and.commute)
  have comm: "eval_word cx M (commutative_binop cx And l r) = Inr (a AND b)"
    using commutative_binop_sound [OF assms, of And] by (simp add: c)
  have "l = Const a \<Longrightarrow> eval_word cx M (and_const cx r a) = Inr (a AND b)"
    using and_const_sound [OF assms(2), of a] by (simp only: c)
  from assms show ?thesis
  proof (cases rule: binop_cases [where op = And])
    case (fold e)
    then show ?thesis by (simp add: binop_and_def)
  next
    case left
    with \<open>l = Const a \<Longrightarrow> _\<close> assms(2) show ?thesis
      by (cases "a = 0"; cases "a = U256_MAX") (simp_all add: binop_and_def)
  next
    case right
    with and_const_sound [OF assms(1), of b] assms(1) show ?thesis
      by (cases "b = 0"; cases "b = U256_MAX") (simp_all add: binop_and_def)
  next
    case none
    with comm assms show ?thesis by (cases "l = r") (simp_all add: binop_and_def)
  qed
qed

section \<open>Arithmetic\<close>

lemma mult_exp2: "(a :: u256) * 2 ^ n = push_bit n a"
  by (simp add: push_bit_eq_mult)

lemma div_exp2: "(a :: u256) div 2 ^ n = drop_bit n a"
  by (simp add: drop_bit_eq_div)

lemma mod_exp2: "(a :: u256) mod 2 ^ n = a AND mask n"
  by (simp add: take_bit_eq_mod [symmetric] take_bit_eq_mask)

lemma sub_low_shr: "drop_bit n ((a :: u256) - (a AND mask n)) = drop_bit n a"
proof -
  have "a = push_bit n (drop_bit n a) + (a AND mask n)"
    using bits_ident [of n a] by (simp add: take_bit_eq_mask)
  then have "a - (a AND mask n) = push_bit n (drop_bit n a)"
    by (metis add_diff_cancel_right')
  moreover have "bit a m \<Longrightarrow> m < 256" for m using bit_imp_le_length [of a m] by simp
  ultimately show ?thesis
    by (auto intro!: bit_eqI simp: bit_drop_bit_eq bit_push_bit_iff)
qed

lemma of_nat_mod_exp2: "(of_nat (k mod 2 ^ n) :: u256) = of_nat k AND mask n"
  by (simp only: take_bit_eq_mask [symmetric] take_bit_of_nat take_bit_eq_mod [where 'a = nat])

text \<open>A conditional on a recovered condition, in terms of the word it was recovered from.\<close>

lemma ite_recovered:
  assumes "bitwise_bool_word_condition cx w = Some c" "eval_word cx M w = Inr x"
    "x = 1 \<Longrightarrow> eval_word cx M t = Inr v" "x = 0 \<Longrightarrow> eval_word cx M e = Inr v"
  shows "eval_word cx M (ite c t e) = Inr v"
proof -
  from bitwise_bool_word_condition_sound [OF assms(1,2)] obtain b where
    "eval_bool cx M c = Inr b" "x = (if b then 1 else 0)" by blast
  with assms(3,4) show ?thesis by (cases b) (auto intro: ite_sound)
qed

lemma ite_direct:
  assumes "direct_bool_word_condition w = Some c" "eval_word cx M w = Inr x" "eval_word cx M t = Inr y"
  shows "eval_word cx M (ite c t (Const 0)) = Inr (x * y)"
proof -
  from direct_bool_word_condition_sound [OF assms(1,2)] obtain b where
    "eval_bool cx M c = Inr b" "x = (if b then 1 else 0)" by blast
  with assms(3) show ?thesis by (cases b) (auto intro: ite_sound)
qed

lemma binop_sub_sound:
  assumes "eval_word cx M l = Inr a" "eval_word cx M r = Inr b"
  shows "eval_word cx M (binop_sub cx l r) = Inr (a - b)"
  using assms
proof (cases rule: binop_cases [where op = Sub])
  case (fold e)
  then show ?thesis by (simp add: binop_sub_def)
next
  case left
  then show ?thesis
    using assms ite_recovered [of cx r _ M b "Const (a - 1)" "a - b" "Const a"]
    by (auto simp: binop_sub_def split: option.split)
next
  case right
  then show ?thesis
    using assms ite_recovered [of cx l _ M a "Const 0" "a - b" "Const U256_MAX"]
    by (cases "b = 0"; cases "b = 1") (auto simp: binop_sub_def split: option.split)
next
  case none
  with assms show ?thesis by (auto simp: binop_sub_def)
qed

lemma binop_mul_sound:
  assumes "eval_word cx M l = Inr a" "eval_word cx M r = Inr b"
  shows "eval_word cx M (binop_mul cx l r) = Inr (a * b)"
proof (cases "fold_const cx Mul l r")
  case (Some e)
  with fold_const_sound [OF Some assms] show ?thesis by (simp add: binop_mul_def)
next
  case None
  define body where "body x y = (case direct_bool_word_condition x of
      Some c \<Rightarrow> ite c y (Const 0)
    | None \<Rightarrow> (case direct_bool_word_condition y of
        Some c \<Rightarrow> ite c x (Const 0)
      | None \<Rightarrow> (case Option.bind (as_const y) power_of_two_shift of
          Some shift \<Rightarrow> binop_shl cx x (Const (of_nat shift))
        | None \<Rightarrow> BinOp Mul x y)))" for x y
  have body: "eval_word cx M (body x y) = Inr (u * v)"
    if x: "eval_word cx M x = Inr u" and y: "eval_word cx M y = Inr v" for x y u v
  proof -
    have "eval_word cx M (binop_shl cx x (Const (of_nat n))) = Inr (u * v)"
      if "y = Const k" "power_of_two_shift k = Some n" for k n
    proof -
      from power_of_two_shift_Some [OF that(2)] have "k = 2 ^ n" "n < 256" by auto
      with binop_shl_sound [OF x, of "Const (of_nat n)" "of_nat n"] that y show ?thesis
        using of_nat_ge_256 [of n] unat_of_nat_small [of n] by (simp add: mult_exp2 [symmetric])
    qed
    with x y ite_direct [OF _ x y] ite_direct [OF _ y x] show ?thesis
      by (auto simp: body_def mult.commute bind_eq_Some_conv split: option.split)
  qed
  have "eval_word cx M (body (fst (ordered_commutative_operands cx l r))
      (snd (ordered_commutative_operands cx l r))) = Inr (a * b)"
    by (cases rule: ordered_commutative_operands_cases [of cx l r])
      (use body [OF assms] body [OF assms(2,1)] in \<open>simp_all add: mult.commute\<close>)
  then show ?thesis
    using None assms by (auto simp: binop_mul_def body_def split_beta)
qed

lemma low_masked_source_Some:
  "low_masked_source e n = Some x \<Longrightarrow> e = BinOp And x (Const (mask n))"
  by (auto simp: low_masked_source_def split: SymExpr.splits SymBinOp.splits if_splits bind_splits
      dest: mask_low_bits_Some)

lemma udiv_exp2_sound:
  assumes "eval_word cx M l = Inr a" "n < 256"
  shows "eval_word cx M (case l of
      BinOp Sub x low_bits \<Rightarrow>
        if low_masked_source low_bits n = Some x then binop_shr cx x (Const (of_nat n))
        else binop_shr cx l (Const (of_nat n))
    | _ \<Rightarrow> binop_shr cx l (Const (of_nat n))) = Inr (a div 2 ^ n)"
proof -
  have shr: "eval_word cx M x = Inr u \<Longrightarrow> eval_word cx M (binop_shr cx x (Const (of_nat n))) = Inr (drop_bit n u)" for x u
    using binop_shr_sound [of cx M x u "Const (of_nat n)" "of_nat n"] of_nat_ge_256 [OF assms(2)]
      unat_of_nat_small [OF assms(2)] by simp
  show ?thesis
  proof (cases "\<exists>x low. l = BinOp Sub x low \<and> low_masked_source low n = Some x")
    case True
    then obtain x where l: "l = BinOp Sub x (BinOp And x (Const (mask n)))"
      "low_masked_source (BinOp And x (Const (mask n))) n = Some x"
      by (auto dest: low_masked_source_Some)
    with assms(1) obtain u where "eval_word cx M x = Inr u" "a = u - (u AND mask n)"
      by (auto split: sum.splits)
    with l shr show ?thesis by (simp add: div_exp2 sub_low_shr)
  next
    case False
    then have "(case l of BinOp Sub x low_bits \<Rightarrow>
        if low_masked_source low_bits n = Some x then binop_shr cx x (Const (of_nat n))
        else binop_shr cx l (Const (of_nat n))
      | _ \<Rightarrow> binop_shr cx l (Const (of_nat n))) = binop_shr cx l (Const (of_nat n))"
      by (auto split: SymExpr.split SymBinOp.split)
    with shr [OF assms(1)] show ?thesis by (simp add: div_exp2)
  qed
qed

lemma u256_div_1: "(a :: u256) div 1 = a"
  by (simp add: word_div_def)

lemma u256_mod_1: "(a :: u256) mod 1 = 0"
  by (simp add: word_mod_def)

lemma binop_div_sound:
  assumes "eval_word cx M l = Inr a" "eval_word cx M r = Inr b" "op = UDiv \<or> op = SDiv \<and> evm_signed_laws cx"
  shows "eval_word cx M (binop_div cx op l r) = Inr (eval_binop cx op a b)"
  using assms(1,2)
proof (cases rule: binop_cases [where op = op])
  case right
  consider "b = 0" | "b = 1" | n where "b \<noteq> 0" "b \<noteq> 1" "op = UDiv" "power_of_two_shift b = Some n"
    | "b \<noteq> 0" "b \<noteq> 1" "(if op = UDiv then power_of_two_shift b else None) = None"
    by (cases "op = UDiv"; cases "power_of_two_shift b"; cases "b = 0"; cases "b = 1") auto
  then show ?thesis
  proof cases
    case 3
    with power_of_two_shift_Some [OF 3(4)] udiv_exp2_sound [OF assms(1), of n] right show ?thesis
      by (simp add: binop_div_def)
  qed (use right assms in \<open>auto simp: binop_div_def evm_signed_laws_def u256_div_1\<close>)
qed (use assms in \<open>auto simp: binop_div_def\<close>)

lemma binop_rem_sound:
  assumes "eval_word cx M l = Inr a" "eval_word cx M r = Inr b" "op = URem \<or> op = SRem \<and> evm_signed_laws cx"
  shows "eval_word cx M (binop_rem cx op l r) = Inr (eval_binop cx op a b)"
  using assms(1,2)
proof (cases rule: binop_cases [where op = op])
  case right
  consider "b = 0" | "b = 1" | n where "b \<noteq> 0" "b \<noteq> 1" "op = URem" "power_of_two_shift b = Some n"
    | "b \<noteq> 0" "b \<noteq> 1" "(if op = URem then power_of_two_shift b else None) = None"
    by (cases "op = URem"; cases "power_of_two_shift b"; cases "b = 0"; cases "b = 1") auto
  then show ?thesis
  proof cases
    case 3
    from power_of_two_shift_Some [OF 3(4)] have "b = 2 ^ n" by simp
    with 3 and_const_sound [OF assms(1), of "mask_bits U256_MAX n"] right show ?thesis
      by (simp add: binop_rem_def mask_bits_eq mod_exp2 take_bit_minus_one_eq_mask)
  qed (use right assms in \<open>auto simp: binop_rem_def evm_signed_laws_def u256_mod_1\<close>)
qed (use assms in \<open>auto simp: binop_rem_def\<close>)

text \<open>The rest of the \<open>Add\<close> arm, after the constants and the recovered conditions.\<close>

definition add_ordered :: "SymCx \<Rightarrow> SymExpr \<times> SymExpr \<Rightarrow> SymExpr" where
  "add_ordered cx p =
     (case add_with_const_ite cx (fst p) (snd p) of
        Some e \<Rightarrow> e
      | None \<Rightarrow>
          (case add_with_const_ite cx (snd p) (fst p) of
             Some e \<Rightarrow> e
           | None \<Rightarrow> BinOp Add (fst p) (snd p)))"

lemma binop_add_unfold:
  "fold_const cx Add l r = None \<Longrightarrow>
   binop_add cx l r =
     (if as_const l = Some 0 then r
      else if as_const r = Some 0 then l
      else (case (if as_const l = Some U256_MAX then bitwise_bool_word_condition cx r
                  else if as_const r = Some U256_MAX then bitwise_bool_word_condition cx l else None) of
          Some c \<Rightarrow> ite c (Const 0) (Const U256_MAX)
        | None \<Rightarrow>
            (case (case as_const l of None \<Rightarrow> None | Some k \<Rightarrow>
                     map_option (\<lambda>c. ite c (Const (k + 1)) (Const k)) (bitwise_bool_word_condition cx r)) of
               Some e \<Rightarrow> e
             | None \<Rightarrow>
                 (case (case as_const r of None \<Rightarrow> None | Some k \<Rightarrow>
                          map_option (\<lambda>c. ite c (Const (k + 1)) (Const k)) (bitwise_bool_word_condition cx l)) of
                    Some e \<Rightarrow> e
                  | None \<Rightarrow> add_ordered cx (ordered_commutative_operands cx l r)))))"
  by (subst binop_add.simps) (simp only: add_ordered_def Let_def option.case)

lemma binop_add_step:
  assumes "eval_word cx M l = Inr a" "eval_word cx M r = Inr b"
    and "eval_word cx M (add_ordered cx (ordered_commutative_operands cx l r)) = Inr (a + b)"
  shows "eval_word cx M (binop_add cx l r) = Inr (a + b)"
  using assms(1,2)
proof (cases rule: binop_cases [where op = Add])
  case (fold e)
  then show ?thesis by (simp add: binop_add.simps [of cx l r])
next
  case left
  then show ?thesis
    using assms ite_recovered [of cx r _ M b "Const (a + 1)" "a + b" "Const a"]
      ite_recovered [of cx r _ M b "Const 0" "a + b" "Const U256_MAX"]
    by (cases "a = 0"; cases "a = U256_MAX"; cases "bitwise_bool_word_condition cx r")
      (auto simp: binop_add_unfold)
next
  case right
  then show ?thesis
    using assms ite_recovered [of cx l _ M a "Const (b + 1)" "a + b" "Const b"]
      ite_recovered [of cx l _ M a "Const 0" "a + b" "Const U256_MAX"]
    by (cases "b = 0"; cases "b = U256_MAX"; cases "bitwise_bool_word_condition cx l")
      (auto simp: binop_add_unfold)
next
  case none
  with assms show ?thesis by (simp add: binop_add_unfold)
qed

lemma add_with_const_ite_not_Ite: "(\<And>c t e. k \<noteq> Ite c t e) \<Longrightarrow> add_with_const_ite cx x k = None"
  by (cases k) (auto simp: add_with_const_ite.simps)

lemma add_with_const_ite_Const: "add_with_const_ite cx (Const v) k = None"
  by (cases k) (auto simp: add_with_const_ite.simps)

lemma binop_add_const:
  assumes "as_const l = None" "eval_word cx M l = Inr a"
  shows "eval_word cx M (binop_add cx l (Const b)) = Inr (a + b)"
  by (rule binop_add_step)
    (use assms in \<open>simp_all add: ordered_commutative_operands_const add_ordered_def
      add_with_const_ite_not_Ite add_with_const_ite_Const\<close>)

lemma add_with_const_ite_sound:
  assumes "add_with_const_ite cx x k = Some e" "eval_word cx M x = Inr a" "eval_word cx M k = Inr b"
  shows "eval_word cx M e = Inr (a + b)"
proof -
  obtain c t f where k: "k = Ite c (Const t) (Const f)" and x: "as_const x = None"
    and e: "e = ite c (binop_add cx x (Const t)) (binop_add cx x (Const f))"
    using assms(1) by (cases k) (auto simp: add_with_const_ite.simps as_const_None split: if_splits)
  from assms(3) k obtain d where "eval_bool cx M c = Inr d" "b = (if d then t else f)"
    by (cases "eval_bool cx M c") (auto split: if_splits)
  with binop_add_const [OF x assms(2)] show ?thesis
    unfolding e by (cases d) (auto intro: ite_sound)
qed

lemma binop_add_sound:
  assumes "eval_word cx M l = Inr a" "eval_word cx M r = Inr b"
  shows "eval_word cx M (binop_add cx l r) = Inr (a + b)"
proof (rule binop_add_step [OF assms])
  have "eval_word cx M (add_ordered cx (l, r)) = Inr (a + b)"
    using assms add_with_const_ite_sound [OF _ assms] add_with_const_ite_sound [OF _ assms(2,1)]
    by (auto simp: add_ordered_def add.commute split: option.split)
  moreover have "eval_word cx M (add_ordered cx (r, l)) = Inr (a + b)"
    using assms add_with_const_ite_sound [OF _ assms] add_with_const_ite_sound [OF _ assms(2,1)]
    by (auto simp: add_ordered_def add.commute split: option.split)
  ultimately show "eval_word cx M (add_ordered cx (ordered_commutative_operands cx l r)) = Inr (a + b)"
    by (cases rule: ordered_commutative_operands_cases [of cx l r]) simp_all
qed

section \<open>Exclusive disjunction\<close>

lemma xor_delta_sound:
  assumes "xor_delta base f = Some sel" "eval_word cx M base = Inr a" "eval_word cx M f = Inr b"
  shows "eval_word cx M sel = Inr (a XOR b)"
proof -
  consider "f = BinOp Xor base sel" | "f = BinOp Xor sel base"
    using assms(1) by (cases f) (auto simp: xor_delta_def xor_operands_def split: if_splits)
  then show ?thesis
  proof cases
    case 1
    with assms obtain y where "eval_word cx M sel = Inr y" "b = a XOR y" by (auto split: sum.splits)
    then show ?thesis by (simp add: xor.assoc [symmetric])
  next
    case 2
    with assms obtain y where "eval_word cx M sel = Inr y" "b = y XOR a" by (auto split: sum.splits)
    then show ?thesis by (simp add: xor.commute [of y] xor.assoc [symmetric])
  qed
qed

lemma xor_with_bool_select_sound:
  assumes "xor_with_bool_select cx base k = Some e" "eval_word cx M base = Inr a" "eval_word cx M k = Inr b"
  shows "eval_word cx M e = Inr (a XOR b)"
proof -
  obtain l r where k: "k = BinOp Mul l r"
    using assms(1) by (auto simp: xor_with_bool_select_def split: SymExpr.splits SymBinOp.splits)
  with assms(3) obtain x y where x: "eval_word cx M l = Inr x" and y: "eval_word cx M r = Inr y"
    and b: "b = x * y" by (auto split: sum.splits)
  from assms(1) k consider
      sel c where "xor_delta base l = Some sel" "bitwise_bool_word_condition cx r = Some c" "e = ite c sel base"
    | sel c where "xor_delta base r = Some sel" "bitwise_bool_word_condition cx l = Some c" "e = ite c sel base"
    by (auto simp: xor_with_bool_select_def split: option.splits)
  then show ?thesis
  proof cases
    case 1
    from xor_delta_sound [OF 1(1) assms(2) x] have "eval_word cx M sel = Inr (a XOR x)" .
    with 1(3) b assms(2) show ?thesis by (auto intro!: ite_recovered [OF 1(2) y])
  next
    case 2
    from xor_delta_sound [OF 2(1) assms(2) y] have "eval_word cx M sel = Inr (a XOR y)" .
    with 2(3) b assms(2) show ?thesis by (auto intro!: ite_recovered [OF 2(2) x])
  qed
qed

definition xor_ordered :: "SymCx \<Rightarrow> SymExpr \<times> SymExpr \<Rightarrow> SymExpr" where
  "xor_ordered cx p =
     (case xor_with_shared_operand (fst p) (snd p) of Some e \<Rightarrow> e | None \<Rightarrow>
       (case xor_with_shared_operand (snd p) (fst p) of Some e \<Rightarrow> e | None \<Rightarrow>
       (case xor_with_bool_select cx (fst p) (snd p) of Some e \<Rightarrow> e | None \<Rightarrow>
       (case xor_with_bool_select cx (snd p) (fst p) of Some e \<Rightarrow> e | None \<Rightarrow>
       (case xor_with_zero_ite cx (fst p) (snd p) of Some e \<Rightarrow> e | None \<Rightarrow>
       (case xor_with_zero_ite cx (snd p) (fst p) of Some e \<Rightarrow> e | None \<Rightarrow>
          BinOp Xor (fst p) (snd p)))))))"

lemma binop_xor_unfold:
  "fold_const cx Xor l r = None \<Longrightarrow>
   binop_xor cx l r =
     (if as_const l = Some 0 then r
      else if as_const r = Some 0 then l
      else if l = r then Const 0
      else xor_ordered cx (ordered_commutative_operands cx l r))"
  by (subst binop_xor.simps) (simp only: xor_ordered_def Let_def option.case)

lemma xor_ordered_sound:
  assumes "eval_word cx M x = Inr a" "eval_word cx M y = Inr b"
    and "\<And>e. xor_with_zero_ite cx x y = Some e \<Longrightarrow> eval_word cx M e = Inr (a XOR b)"
    and "\<And>e. xor_with_zero_ite cx y x = Some e \<Longrightarrow> eval_word cx M e = Inr (a XOR b)"
  shows "eval_word cx M (xor_ordered cx (x, y)) = Inr (a XOR b)"
proof -
  have c: "b XOR a = a XOR b" by (rule xor.commute)
  have "eval_word cx M e = Inr (a XOR b)" if "xor_with_shared_operand x y = Some e \<or> xor_with_shared_operand y x = Some e"
    for e
    using that xor_delta_sound [OF _ assms(1,2), of e] xor_delta_sound [OF _ assms(2,1), of e]
    by (auto simp: xor_with_shared_operand_def c)
  moreover have "eval_word cx M e = Inr (a XOR b)"
    if "xor_with_bool_select cx x y = Some e \<or> xor_with_bool_select cx y x = Some e" for e
    using that xor_with_bool_select_sound [OF _ assms(1,2), of e] xor_with_bool_select_sound [OF _ assms(2,1), of e]
    by (auto simp: c)
  moreover have "eval_word cx M (BinOp Xor x y) = Inr (a XOR b)" using assms(1,2) by simp
  ultimately show ?thesis
    unfolding xor_ordered_def fst_conv snd_conv using assms(3,4)
    by (simp only: disj_imp split: option.split) blast
qed

lemma binop_xor_sound:
  "eval_word cx M l = Inr a \<Longrightarrow> eval_word cx M r = Inr b \<Longrightarrow> eval_word cx M (binop_xor cx l r) = Inr (a XOR b)"
proof (induction "size l + size r" arbitrary: l r a b rule: less_induct)
  case less
  have zero: "eval_word cx M e = Inr (u XOR v)"
    if z: "xor_with_zero_ite cx x y = Some e" and sz: "size x + size y = size l + size r"
      and x: "eval_word cx M x = Inr u" and y: "eval_word cx M y = Inr v" for x y e u v
  proof -
    from z obtain c t f where yk: "y = Ite c t f"
      by (cases y) (auto simp: xor_with_zero_ite.simps)
    from y yk obtain d where d: "eval_bool cx M c = Inr d" and v: "eval_word cx M (if d then t else f) = Inr v"
      by (cases "eval_bool cx M c") (auto split: if_splits)
    from z yk consider "t = Const 0" "e = ite c x (binop_xor cx x f)" | "f = Const 0" "e = ite c (binop_xor cx x t) x"
      by (auto simp: xor_with_zero_ite.simps split: if_splits)
    then show ?thesis
    proof cases
      case 1
      with v x have "eval_word cx M (if d then x else binop_xor cx x f) = Inr (u XOR v)"
        using less(1) [of x f u v] sz yk by (cases d) auto
      with 1 d show ?thesis by (auto intro: ite_sound)
    next
      case 2
      with v x have "eval_word cx M (if d then binop_xor cx x t else x) = Inr (u XOR v)"
        using less(1) [of x t u v] sz yk by (cases d) auto
      with 2 d show ?thesis by (auto intro: ite_sound)
    qed
  qed
  have c: "b XOR a = a XOR b" by (rule xor.commute)
  have "eval_word cx M (xor_ordered cx (l, r)) = Inr (a XOR b)"
    using zero [of l r _ a b] zero [of r l _ b a] less(2,3) by (intro xor_ordered_sound) (auto simp: c)
  moreover have "eval_word cx M (xor_ordered cx (r, l)) = Inr (b XOR a)"
    using zero [of l r _ a b] zero [of r l _ b a] less(2,3) by (intro xor_ordered_sound) (auto simp: c)
  ultimately have o: "eval_word cx M (xor_ordered cx (ordered_commutative_operands cx l r)) = Inr (a XOR b)"
    by (cases rule: ordered_commutative_operands_cases [of cx l r]) (simp_all add: c)
  show ?case
  proof (cases "fold_const cx Xor l r")
    case None
    with o less(2,3) show ?thesis by (auto simp: binop_xor_unfold)
  next
    case (Some e)
    with fold_const_sound [OF Some less(2,3)] show ?thesis by (simp add: binop_xor.simps [of cx l r])
  qed
qed

section \<open>The constructors\<close>

lemma binop_value:
  assumes "eval_word cx M l = Inr a" "eval_word cx M r = Inr b" "op = SDiv \<or> op = SRem \<longrightarrow> evm_signed_laws cx"
  shows "eval_word cx M (binop cx op l r) = Inr (eval_binop cx op a b)"
  using assms
  by (cases op) (simp_all add: binop_def binop_add_sound binop_sub_sound binop_mul_sound binop_div_sound
      binop_rem_sound binop_and_sound binop_or_sound binop_xor_sound binop_shl_sound binop_shr_sound
      binop_sar_sound del: eval_binop.simps(4-7) eval_binop.simps(11-13))

lemma eval_ternop_exp2:
  assumes "power_of_two_shift m = Some n"
  shows "eval_ternop AddMod a b m = (a + b) AND mask n" "eval_ternop MulMod a b m = (a * b) AND mask n"
proof -
  from power_of_two_shift_Some [OF assms] have n: "m = 2 ^ n" "n < 256" by auto
  then have m: "m \<noteq> 0" "unat m = 2 ^ n" by (simp_all add: unat_exp2)
  show "eval_ternop AddMod a b m = (a + b) AND mask n"
    using m of_nat_mod_exp2 [of "unat a + unat b" n] by simp
  show "eval_ternop MulMod a b m = (a * b) AND mask n"
    using m of_nat_mod_exp2 [of "unat a * unat b" n] by simp
qed

lemma eval_ternop_one: "eval_ternop op a b 1 = 0"
  by (cases op) simp_all

lemma eval_ternop_commute: "eval_ternop op a b m = eval_ternop op b a m"
  by (cases op) (simp_all add: add.commute mult.commute)

lemma ternop_value:
  assumes "eval_word cx M l = Inr a" "eval_word cx M r = Inr b" "eval_word cx M m = Inr k"
  shows "eval_word cx M (ternop cx op l r m) = Inr (eval_ternop op a b k)"
proof -
  consider "as_const m = Some 0 \<or> as_const m = Some 1"
    | (const) "as_const m \<noteq> Some 0" "as_const m \<noteq> Some 1" "l = Const a" "r = Const b" "m = Const k"
    | (exp2) n where "as_const m \<noteq> Some 0" "as_const m \<noteq> Some 1" "as_const l = None \<or> as_const r = None"
        "m = Const k" "power_of_two_shift k = Some n"
    | (plain) "as_const m \<noteq> Some 0" "as_const m \<noteq> Some 1"
        "ternop cx op l r m = (case ordered_commutative_operands cx l r of (l, r) \<Rightarrow> TernOp op l r m)"
  proof (cases "as_const m")
    case None
    then have "ternop cx op l r m = (case ordered_commutative_operands cx l r of (l, r) \<Rightarrow> TernOp op l r m)"
      by (simp add: ternop_def split: option.split)
    with None that(4) show thesis by simp
  next
    case (Some v)
    then have m: "m = Const k" using assms(3) by simp
    show thesis
    proof (cases "power_of_two_shift k")
      case None
      have "as_const l = None \<or> as_const r = None \<Longrightarrow> k \<noteq> 0 \<Longrightarrow> k \<noteq> 1 \<Longrightarrow>
          ternop cx op l r m = (case ordered_commutative_operands cx l r of (l, r) \<Rightarrow> TernOp op l r m)"
        using None by (auto simp: ternop_def m split: option.split)
      with that(1,2,4) m assms show thesis by (cases "as_const l"; cases "as_const r") auto
    next
      case (Some n)
      with that(1,2,3) m assms show thesis by (cases "as_const l"; cases "as_const r") auto
    qed
  qed
  then show ?thesis
  proof cases
    case 1
    with assms(3) eval_ternop_one [of op a b] show ?thesis
      by (auto simp: ternop_def simp del: eval_ternop.simps(1)) simp
  next
    case const
    then show ?thesis by (simp add: ternop_def)
  next
    case exp2
    have "eval_word cx M (binop cx (case op of AddMod \<Rightarrow> Add | MulMod \<Rightarrow> Mul) l r) =
        Inr (case op of AddMod \<Rightarrow> a + b | MulMod \<Rightarrow> a * b)"
      using binop_value [OF assms(1,2), of Add] binop_value [OF assms(1,2), of Mul] by (cases op) simp_all
    from and_const_sound [OF this, of "mask_bits U256_MAX n"] exp2 eval_ternop_exp2 [OF exp2(5), of a b]
    show ?thesis
      by (cases op) (auto simp: ternop_def mask_bits_eq take_bit_minus_one_eq_mask split: option.split
          simp del: eval_ternop.simps)
  next
    case plain
    with assms eval_ternop_commute [of op a b k] show ?thesis
      by (cases rule: ordered_commutative_operands_cases [of cx l r]) (simp_all del: eval_ternop.simps)
  qed
qed

section \<open>Properties\<close>

text \<open>
  C1: \<open>binop\<close> keeps the value of the operation. For every operator, operands and model that give the
  plain operation a value, the simplified word has the same value, provided that the interpreter's
  signed division and remainder treat the divisors 0 and 1 as the EVM does.
\<close>

theorem binop_keeps_value:
  assumes "evm_signed_laws cx" "eval_word cx M (BinOp op l r) = Inr v"
  shows "eval_word cx M (binop cx op l r) = Inr v"
  using assms binop_value [of cx M l _ r] by (auto simp: eval_BinOp_Inr simp del: eval_word.simps)

theorem binop_keeps_value_witness:
  "eval_word evm_cx [0 \<mapsto> 9] (binop evm_cx Mul (Var 0) (Const 8)) = Inr 72"
  by (rule binop_keeps_value [OF evm_cx_laws]) simp

text \<open>
  C6: \<open>ternop\<close> keeps the value of \<open>addmod\<close> and \<open>mulmod\<close>, which compute without wrapping before the
  reduction, also where the code reduces by a mask.
\<close>

theorem ternop_keeps_value:
  assumes "eval_word cx M (TernOp op l r m) = Inr v"
  shows "eval_word cx M (ternop cx op l r m) = Inr v"
proof -
  from assms obtain a b k where "eval_word cx M l = Inr a" "eval_word cx M r = Inr b" "eval_word cx M m = Inr k"
    "v = eval_ternop op a b k"
    by (auto simp del: eval_ternop.simps split: sum.splits)
  then show ?thesis by (simp add: ternop_value del: eval_ternop.simps)
qed

theorem ternop_keeps_value_witness:
  "eval_word evm_cx [0 \<mapsto> 7] (ternop evm_cx AddMod (Var 0) (Const 3) (Const 8)) = Inr 2"
  by (rule ternop_keeps_value) simp

end
