(* ===== verification/Sym_Cmp.thy ===== *)
theory Sym_Cmp
  imports Sym_Select
begin

text \<open>
  The comparison constructor of \<open>expr/bool.rs\<close>: \<open>cmp\<close> with the arms of its \<open>match\<close>, the rewriting of an
  equality with a conditional word (\<open>ite_eq_arm\<close>), the expansion of nested conditionals with
  constant leaves (\<open>constant_ite_eq\<close>) and the guard on its size. The constructor keeps the value
  of the comparison, except that the equality of two hashes is taken for the equality of what is hashed.
\<close>

section \<open>Conditionals with constant leaves\<close>

definition MAX_CONSTANT_ITE_EQ_NODES :: nat where
  "MAX_CONSTANT_ITE_EQ_NODES = 128"

definition MAX_CONSTANT_ITE_EQ_UNFOLDED_NODES :: nat where
  "MAX_CONSTANT_ITE_EQ_UNFOLDED_NODES = 8 * 1024"

definition checked_add :: "nat \<Rightarrow> nat \<Rightarrow> nat option" where
  "checked_add a b = (if a + b \<le> USIZE_MAX then Some (a + b) else None)"

lemma size_list_rev: "size_list f (rev xs) = size_list f xs"
  by (induction xs) simp_all

text \<open>The loop that counts the nodes of a condition; the head of \<open>pending\<close> is the end of the vector.\<close>

function condition_nodes_loop :: "SymBoolExpr list \<Rightarrow> nat \<Rightarrow> nat option" where
  "condition_nodes_loop [] n = Some n"
| "condition_nodes_loop (c # pending) n =
     Option.bind (checked_add n 1) (\<lambda>n.
       if n > MAX_CONSTANT_ITE_EQ_UNFOLDED_NODES then None
       else condition_nodes_loop
         (case c of NotB v \<Rightarrow> v # pending | AndB vs \<Rightarrow> rev vs @ pending | _ \<Rightarrow> pending) n)"
  by pat_completeness auto
termination
  by (relation "measure (\<lambda>(cs, n). size_list size cs)")
    (auto split: SymBoolExpr.splits simp: size_list_rev)

type_synonym cost_cache = "SymExpr \<rightharpoonup> nat option"

fun constant_ite_eq_unfolded_nodes :: "SymExpr \<Rightarrow> cost_cache \<Rightarrow> nat \<Rightarrow> nat option \<times> cost_cache \<times> nat" where
  "constant_ite_eq_unfolded_nodes e cache remaining =
     (case cache e of
        Some cached \<Rightarrow> (cached, cache, remaining)
      | None \<Rightarrow>
          if remaining = 0 then (None, cache(e \<mapsto> None), 0)
          else (case e of
            Const v \<Rightarrow> (Some 1, cache(e \<mapsto> Some 1), remaining - 1)
          | Ite c t f \<Rightarrow>
              (case constant_ite_eq_unfolded_nodes t cache (remaining - 1) of
                 (None, cache, remaining) \<Rightarrow> (None, cache, remaining)
               | (Some then_nodes, cache, remaining) \<Rightarrow>
              (case constant_ite_eq_unfolded_nodes f cache remaining of
                 (None, cache, remaining) \<Rightarrow> (None, cache, remaining)
               | (Some else_nodes, cache, remaining) \<Rightarrow>
              (case condition_nodes_loop [c] 0 of
                 None \<Rightarrow> (None, cache, remaining)
               | Some condition_nodes \<Rightarrow>
                  let result =
                    Option.bind (checked_add then_nodes else_nodes) (\<lambda>nodes.
                    Option.bind (checked_add nodes (2 * condition_nodes)) (\<lambda>nodes.
                    Option.bind (checked_add nodes 7) (\<lambda>nodes.
                      if nodes \<le> MAX_CONSTANT_ITE_EQ_UNFOLDED_NODES then Some nodes else None)))
                  in (result, cache(e \<mapsto> result), remaining))))
          | _ \<Rightarrow> (None, cache(e \<mapsto> None), remaining - 1)))"

definition and_ite_branch :: "SymBoolExpr \<Rightarrow> SymBoolExpr \<Rightarrow> SymBoolExpr" where
  "and_ite_branch c b =
     (if as_const_b c = Some False \<or> as_const_b b = Some False then ConstB False
      else if as_const_b c = Some True then b
      else if as_const_b b = Some True then c
      else if c = b then c
      else AndB [c, b])"

type_synonym eq_cache = "SymExpr \<rightharpoonup> SymBoolExpr option"

fun constant_ite_eq :: "SymExpr \<Rightarrow> u256 \<Rightarrow> eq_cache \<Rightarrow> nat \<Rightarrow> SymBoolExpr option \<times> eq_cache \<times> nat" where
  "constant_ite_eq e expected cache remaining =
     (case cache e of
        Some cached \<Rightarrow> (cached, cache, remaining)
      | None \<Rightarrow>
          if remaining = 0 then (None, cache(e \<mapsto> None), 0)
          else (case e of
            Const v \<Rightarrow> (Some (ConstB (v = expected)), cache(e \<mapsto> Some (ConstB (v = expected))), remaining - 1)
          | Ite c t f \<Rightarrow>
              (case constant_ite_eq t expected cache (remaining - 1) of (then_matches, cache, remaining) \<Rightarrow>
              (case constant_ite_eq f expected cache remaining of (else_matches, cache, remaining) \<Rightarrow>
                let result =
                  (case (then_matches, else_matches) of
                     (Some tm, Some em) \<Rightarrow> Some (bool_or [and_ite_branch c tm, and_ite_branch (not_bool c) em])
                   | _ \<Rightarrow> None)
                in (result, cache(e \<mapsto> result), remaining)))
          | _ \<Rightarrow> (None, cache(e \<mapsto> None), remaining - 1)))"

section \<open>The arms of the comparison\<close>

text \<open>Two conditionals on one condition with constant arms are compared arm by arm.\<close>

definition aligned_ites :: "SymCx \<Rightarrow> SymCmpOp \<Rightarrow> SymExpr \<Rightarrow> SymExpr \<Rightarrow> SymBoolExpr option" where
  "aligned_ites cx op l r =
     (case (l, r) of
        (Ite lc (Const lt) (Const le), Ite rc (Const rt) (Const re)) \<Rightarrow>
          if lc = rc then
            Some (case (eval_cmp cx op lt rt, eval_cmp cx op le re) of
              (True, True) \<Rightarrow> ConstB True
            | (False, False) \<Rightarrow> ConstB False
            | (True, False) \<Rightarrow> lc
            | (False, True) \<Rightarrow> not_bool lc)
          else None
      | _ \<Rightarrow> None)"

definition bool_word_eq_const :: "SymExpr \<Rightarrow> u256 \<Rightarrow> SymBoolExpr option" where
  "bool_word_eq_const w v =
     (case w of
        Ite c (Const t) (Const e) \<Rightarrow>
          if t = 1 \<and> e = 0 then
            Some (if v = 0 then not_bool c else if v = 1 then c else ConstB False)
          else if t = 0 \<and> e = 1 then
            Some (if v = 0 then c else if v = 1 then not_bool c else ConstB False)
          else None
      | _ \<Rightarrow> None)"

definition eq_ordered :: "SymCx \<Rightarrow> SymExpr \<Rightarrow> SymExpr \<Rightarrow> SymBoolExpr" where
  "eq_ordered cx l r = (case ordered_commutative_operands cx l r of (a, b) \<Rightarrow> CmpB Eq a b)"

text \<open>The arms of \<open>==\<close> with a constant on one side; \<open>w\<close> is the other operand.\<close>

definition eq_with_const :: "SymCx \<Rightarrow> SymExpr \<Rightarrow> SymExpr \<Rightarrow> SymExpr \<Rightarrow> u256 \<Rightarrow> SymBoolExpr" where
  "eq_with_const cx l r w v =
     (case bool_word_eq_const w v of
        Some c \<Rightarrow> c
      | None \<Rightarrow> (case known_word w of Some k \<Rightarrow> ConstB (k = v) | None \<Rightarrow> eq_ordered cx l r))"

definition cmp_ult :: "SymCx \<Rightarrow> SymExpr \<Rightarrow> SymExpr \<Rightarrow> SymBoolExpr" where
  "cmp_ult cx l r =
     (if l = r then ConstB False
      else case (as_const l, as_const r) of
        (Some a, Some b) \<Rightarrow> ConstB (eval_cmp cx Ult a b)
      | (a, b) \<Rightarrow>
          if b = Some 0 then ConstB False
          else if a = Some U256_MAX then ConstB False
          else if low_masked_source_any r = Some l then ConstB False
          else CmpB Ult l r)"

definition cmp_ugt :: "SymCx \<Rightarrow> SymExpr \<Rightarrow> SymExpr \<Rightarrow> SymBoolExpr" where
  "cmp_ugt cx l r =
     (if l = r then ConstB False
      else case (as_const l, as_const r) of
        (Some a, Some b) \<Rightarrow> ConstB (eval_cmp cx Ugt a b)
      | (a, b) \<Rightarrow>
          if a = Some 0 then ConstB False
          else if b = Some U256_MAX then ConstB False
          else if low_masked_source_any l = Some r then ConstB False
          else CmpB Ugt l r)"

definition cmp_ule :: "SymCx \<Rightarrow> SymExpr \<Rightarrow> SymExpr \<Rightarrow> SymBoolExpr" where
  "cmp_ule cx l r =
     (if l = r then ConstB True
      else case (as_const l, as_const r) of
        (Some a, Some b) \<Rightarrow> ConstB (eval_cmp cx Ule a b)
      | (a, b) \<Rightarrow>
          if a = Some 0 then ConstB True
          else if b = Some U256_MAX then ConstB True
          else if low_masked_source_any l = Some r then ConstB True
          else CmpB Ule l r)"

definition cmp_uge :: "SymCx \<Rightarrow> SymExpr \<Rightarrow> SymExpr \<Rightarrow> SymBoolExpr" where
  "cmp_uge cx l r =
     (if l = r then ConstB True
      else case (as_const l, as_const r) of
        (Some a, Some b) \<Rightarrow> ConstB (eval_cmp cx Uge a b)
      | (a, b) \<Rightarrow>
          if b = Some 0 then ConstB True
          else if a = Some U256_MAX then ConstB True
          else if low_masked_source_any r = Some l then ConstB True
          else CmpB Uge l r)"

definition cmp_signed :: "SymCx \<Rightarrow> SymCmpOp \<Rightarrow> SymExpr \<Rightarrow> SymExpr \<Rightarrow> SymBoolExpr" where
  "cmp_signed cx op l r =
     (if l = r then ConstB False
      else case (as_const l, as_const r) of
        (Some a, Some b) \<Rightarrow> ConstB (eval_cmp cx op a b)
      | _ \<Rightarrow> CmpB op l r)"

section \<open>The comparison\<close>

lemma size_zip: "(a, b) \<in> set (zip as bs) \<Longrightarrow> size a + size b \<le> size_list size as + size_list size bs"
  by (meson add_mono set_zip_leftD set_zip_rightD size_list_estimation' order_refl)

function cmp :: "SymCx \<Rightarrow> SymCmpOp \<Rightarrow> SymExpr \<Rightarrow> SymExpr \<Rightarrow> SymBoolExpr"
and ite_eq_arm :: "SymCx \<Rightarrow> SymExpr \<Rightarrow> SymExpr \<Rightarrow> SymBoolExpr option" where
  "cmp cx op l r =
     (case aligned_ites cx op l r of
        Some c \<Rightarrow> c
      | None \<Rightarrow>
          (case op of
             Eq \<Rightarrow>
               (case ite_eq_arm cx l r of
                  Some c \<Rightarrow> c
                | None \<Rightarrow>
               (case ite_eq_arm cx r l of
                  Some c \<Rightarrow> c
                | None \<Rightarrow>
                    if l = r then ConstB True
                    else (case (l, r) of
                      (Const a, Const b) \<Rightarrow> ConstB (a = b)
                    | (_, Const b) \<Rightarrow> eq_with_const cx l r l b
                    | (Const a, _) \<Rightarrow> eq_with_const cx l r r a
                    | (Keccak x ll ls, Keccak y rl rs) \<Rightarrow>
                        if length ls = length rs
                        then bool_and (cmp cx Eq ll rl # map (\<lambda>(a, b). cmp cx Eq a b) (zip ls rs))
                        else eq_ordered cx l r
                    | (Hash x la ls, Hash y ra rs) \<Rightarrow>
                        if la = ra \<and> length ls = length rs
                        then bool_and (map (\<lambda>(a, b). cmp cx Eq a b) (zip ls rs))
                        else eq_ordered cx l r
                    | _ \<Rightarrow> eq_ordered cx l r)))
           | Ult \<Rightarrow> cmp_ult cx l r
           | Ugt \<Rightarrow> cmp_ugt cx l r
           | Ule \<Rightarrow> cmp_ule cx l r
           | Uge \<Rightarrow> cmp_uge cx l r
           | Slt \<Rightarrow> cmp_signed cx Slt l r
           | Sgt \<Rightarrow> cmp_signed cx Sgt l r))"
| "ite_eq_arm cx conditional expected =
     (case conditional of
        Ite c t e \<Rightarrow>
          if t = expected then Some (bool_or [c, cmp cx Eq e expected])
          else if e = expected then Some (bool_or [not_bool c, cmp cx Eq t expected])
          else (case as_const expected of
            None \<Rightarrow> None
          | Some v \<Rightarrow>
              if fst (constant_ite_eq_unfolded_nodes conditional Map.empty MAX_CONSTANT_ITE_EQ_NODES) = None
              then Some (eq_ordered cx conditional expected)
              else fst (constant_ite_eq conditional v Map.empty MAX_CONSTANT_ITE_EQ_NODES))
      | _ \<Rightarrow> None)"
  by pat_completeness auto
termination
  by (relation "measures [\<lambda>a. case a of Inl (cx, op, l, r) \<Rightarrow> size l + size r | Inr (cx, c, e) \<Rightarrow> size c + size e,
      \<lambda>a. case a of Inl _ \<Rightarrow> 1 | Inr _ \<Rightarrow> 0]")
    (auto dest!: size_zip)

section \<open>The comparison keeps its value\<close>

text \<open>What a Boolean expression has to be worth to stand for \<open>e == v\<close>.\<close>

definition stands_for_eq :: "SymCx \<Rightarrow> model \<Rightarrow> u256 \<Rightarrow> SymExpr \<Rightarrow> SymBoolExpr \<Rightarrow> bool" where
  "stands_for_eq cx M v e c \<longleftrightarrow> (\<forall>a. eval_word cx M e = Inr a \<longrightarrow> eval_bool cx M c = Inr (a = v))"

definition eq_cache_ok :: "SymCx \<Rightarrow> model \<Rightarrow> u256 \<Rightarrow> eq_cache \<Rightarrow> bool" where
  "eq_cache_ok cx M v cache \<longleftrightarrow> (\<forall>e c. cache e = Some (Some c) \<longrightarrow> stands_for_eq cx M v e c)"

lemma eq_cache_ok_upd:
  "eq_cache_ok cx M v cache \<Longrightarrow> (\<And>c. r = Some c \<Longrightarrow> stands_for_eq cx M v e c) \<Longrightarrow>
   eq_cache_ok cx M v (cache(e \<mapsto> r))"
  by (simp add: eq_cache_ok_def)

lemma and_ite_branch_sound:
  "eval_bool cx M c = Inr x \<Longrightarrow> (x \<Longrightarrow> eval_bool cx M b = Inr y) \<Longrightarrow>
   eval_bool cx M (and_ite_branch c b) = Inr (x \<and> y)"
  by (auto simp: and_ite_branch_def)

lemma stands_for_eq_Ite:
  assumes "stands_for_eq cx M v t tm" "stands_for_eq cx M v f fm"
  shows "stands_for_eq cx M v (Ite c t f) (bool_or [and_ite_branch c tm, and_ite_branch (not_bool c) fm])"
  unfolding stands_for_eq_def
proof (intro allI impI)
  fix a assume "eval_word cx M (Ite c t f) = Inr a"
  then obtain x where x: "eval_bool cx M c = Inr x" "x \<Longrightarrow> eval_word cx M t = Inr a" "\<not> x \<Longrightarrow> eval_word cx M f = Inr a"
    by (auto split: sum.splits if_splits)
  have "eval_bool cx M (and_ite_branch c tm) = Inr (x \<and> a = v)"
    using assms(1) x(2) by (intro and_ite_branch_sound [OF x(1)]) (simp add: stands_for_eq_def)
  moreover have "eval_bool cx M (and_ite_branch (not_bool c) fm) = Inr (\<not> x \<and> a = v)"
    using assms(2) x(1,3) by (intro and_ite_branch_sound) (simp_all add: stands_for_eq_def)
  ultimately show "eval_bool cx M (bool_or [and_ite_branch c tm, and_ite_branch (not_bool c) fm]) = Inr (a = v)"
    by (intro bool_or_sound) auto
qed

declare constant_ite_eq.simps [simp del] constant_ite_eq_unfolded_nodes.simps [simp del]

lemma constant_ite_eq_cached: "cache e = Some r \<Longrightarrow> constant_ite_eq e v cache n = (r, cache, n)"
  by (subst constant_ite_eq.simps) simp

lemma constant_ite_eq_spent: "cache e = None \<Longrightarrow> constant_ite_eq e v cache 0 = (None, cache(e \<mapsto> None), 0)"
  by (subst constant_ite_eq.simps) simp

lemma constant_ite_eq_Ite:
  assumes "cache (Ite c t f) = None" "n \<noteq> 0"
    "constant_ite_eq t v cache (n - 1) = (tm, c1, n1)" "constant_ite_eq f v c1 n1 = (fm, c2, n2)"
  defines "res \<equiv> (case (tm, fm) of
      (Some tm, Some fm) \<Rightarrow> Some (bool_or [and_ite_branch c tm, and_ite_branch (not_bool c) fm]) | _ \<Rightarrow> None)"
  shows "constant_ite_eq (Ite c t f) v cache n = (res, c2(Ite c t f \<mapsto> res), n2)"
  using assms by (subst constant_ite_eq.simps) (simp add: Let_def)

lemma constant_ite_eq_leaf:
  assumes "cache e = None" "n \<noteq> 0" "\<And>c t f. e \<noteq> Ite c t f"
    "res = (case e of Const w \<Rightarrow> Some (ConstB (w = v)) | _ \<Rightarrow> None)"
  shows "constant_ite_eq e v cache n = (res, cache(e \<mapsto> res), n - 1)"
  using assms by (subst constant_ite_eq.simps) (simp split: SymExpr.splits)

lemma constant_ite_eq_sound:
  "eq_cache_ok cx M v cache \<Longrightarrow> constant_ite_eq e v cache n = (r, cache', n') \<Longrightarrow>
   eq_cache_ok cx M v cache' \<and> (\<forall>c. r = Some c \<longrightarrow> stands_for_eq cx M v e c)"
proof (induction e v cache n arbitrary: r cache' n' rule: constant_ite_eq.induct)
  case (1 e v cache n)
  consider (cached) cached where "cache e = Some cached" | (spent) "cache e = None" "n = 0"
    | (ite) c t f where "cache e = None" "n \<noteq> 0" "e = Ite c t f"
    | (leaf) "cache e = None" "n \<noteq> 0" "\<And>c t f. e \<noteq> Ite c t f"
    by (cases "cache e"; cases "n = 0"; blast)
  then show ?case
  proof cases
    case cached
    with "1.prems" show ?thesis by (simp add: constant_ite_eq_cached eq_cache_ok_def)
  next
    case spent
    then have "r = None" "cache' = cache(e \<mapsto> None)" using "1.prems"(2) by (simp_all add: constant_ite_eq_spent)
    then show ?thesis using "1.prems"(1) by (simp add: eq_cache_ok_def)
  next
    case ite
    obtain tm c1 n1 where t: "constant_ite_eq t v cache (n - 1) = (tm, c1, n1)" by (metis prod_cases3)
    obtain fm c2 n2 where f: "constant_ite_eq f v c1 n1 = (fm, c2, n2)" by (metis prod_cases3)
    from "1.IH"(1) [OF ite "1.prems"(1) t]
    have IHt: "eq_cache_ok cx M v c1" "\<forall>c. tm = Some c \<longrightarrow> stands_for_eq cx M v t c" by auto
    from "1.IH"(2) [OF ite t [symmetric] refl IHt(1) f]
    have IHf: "eq_cache_ok cx M v c2" "\<forall>c. fm = Some c \<longrightarrow> stands_for_eq cx M v f c" by auto
    have r: "\<forall>x. r = Some x \<longrightarrow> stands_for_eq cx M v e x" and c': "cache' = c2(e \<mapsto> r)"
      using "1.prems"(2) constant_ite_eq_Ite [OF ite(1) [unfolded ite(3)] ite(2) t f] IHt(2) IHf(2)
      by (auto simp: ite(3) stands_for_eq_Ite split: option.splits)
    show ?thesis using eq_cache_ok_upd [OF IHf(1)] r c' by blast
  next
    case leaf
    note eq = constant_ite_eq_leaf [where cache = cache and e = e and n = n and v = v, OF leaf refl]
    have r: "\<forall>x. r = Some x \<longrightarrow> stands_for_eq cx M v e x" and c': "cache' = cache(e \<mapsto> r)"
      using "1.prems"(2) eq by (auto simp: stands_for_eq_def split: SymExpr.splits)
    show ?thesis using eq_cache_ok_upd [OF "1.prems"(1)] r c' by blast
  qed
qed

lemma constant_ite_eq_start:
  assumes "fst (constant_ite_eq e v Map.empty n) = Some c" "eval_word cx M e = Inr a"
  shows "eval_bool cx M c = Inr (a = v)"
proof -
  obtain cache' n' where "constant_ite_eq e v Map.empty n = (Some c, cache', n')"
    using assms(1) by (metis prod.collapse)
  moreover have "eq_cache_ok cx M v Map.empty" by (simp add: eq_cache_ok_def)
  ultimately show ?thesis using constant_ite_eq_sound assms(2) unfolding stands_for_eq_def by blast
qed

lemma eq_ordered_sound:
  "eval_word cx M l = Inr a \<Longrightarrow> eval_word cx M r = Inr b \<Longrightarrow> eval_bool cx M (eq_ordered cx l r) = Inr (a = b)"
  by (rule ordered_commutative_operands_cases [of cx l r]) (auto simp: eq_ordered_def)

lemma aligned_ites_sound:
  assumes "aligned_ites cx op l r = Some c" "eval_word cx M l = Inr a" "eval_word cx M r = Inr b"
  shows "eval_bool cx M c = Inr (eval_cmp cx op a b)"
proof -
  obtain d lt le rt re where lr: "l = Ite d (Const lt) (Const le)" "r = Ite d (Const rt) (Const re)"
    and c: "c = (case (eval_cmp cx op lt rt, eval_cmp cx op le re) of (True, True) \<Rightarrow> ConstB True
      | (False, False) \<Rightarrow> ConstB False | (True, False) \<Rightarrow> d | (False, True) \<Rightarrow> not_bool d)"
    using assms(1) by (auto simp: aligned_ites_def split: SymExpr.splits if_splits)
  obtain x where "eval_bool cx M d = Inr x" using assms(2) lr(1) by (auto split: sum.splits)
  with assms(2,3) lr c show ?thesis by (cases x) (auto split: bool.splits)
qed

lemma bool_word_eq_const_sound:
  assumes "bool_word_eq_const w v = Some c" "eval_word cx M w = Inr a"
  shows "eval_bool cx M c = Inr (a = v)"
proof -
  obtain d t e where w: "w = Ite d (Const t) (Const e)" using assms(1)
    by (auto simp: bool_word_eq_const_def split: SymExpr.splits)
  obtain x where "eval_bool cx M d = Inr x" using assms(2) w by (auto split: sum.splits)
  with assms w show ?thesis by (cases x) (auto simp: bool_word_eq_const_def split: if_splits)
qed

lemma eq_with_const_sound:
  assumes "eval_word cx M l = Inr a" "eval_word cx M r = Inr b" "eval_word cx M w = Inr x" "x = v \<longleftrightarrow> a = b"
  shows "eval_bool cx M (eq_with_const cx l r w v) = Inr (a = b)"
  using eq_ordered_sound [OF assms(1,2)] bool_word_eq_const_sound [OF _ assms(3)] known_word_sound [OF _ assms(3)] assms(4)
  by (auto simp: eq_with_const_def split: option.splits)

lemma low_masked_source_any_le:
  assumes "low_masked_source_any e = Some s" "eval_word cx M e = Inr a" "eval_word cx M s = Inr b"
  shows "a \<le> b"
proof -
  obtain k where "e = BinOp And s (Const k)"
    using assms(1) by (auto simp: low_masked_source_any_def bind_eq_Some_conv split: SymExpr.splits SymBinOp.splits if_splits)
  with assms(2,3) have "a = b AND k" by simp
  then show ?thesis by (simp add: word_and_le1 word_and_le2)
qed

lemma u256_le_max: "(a :: u256) \<le> U256_MAX"
  by simp

lemma unsigned_cmp_sound:
  assumes "eval_word cx M l = Inr a" "eval_word cx M r = Inr b"
  shows "eval_bool cx M (cmp_ult cx l r) = Inr (a < b)" "eval_bool cx M (cmp_ugt cx l r) = Inr (a > b)"
    "eval_bool cx M (cmp_ule cx l r) = Inr (a \<le> b)" "eval_bool cx M (cmp_uge cx l r) = Inr (a \<ge> b)"
  using assms low_masked_source_any_le [OF _ assms(2,1)] low_masked_source_any_le [OF _ assms]
  by (auto simp: cmp_ult_def cmp_ugt_def cmp_ule_def cmp_uge_def not_less split: option.splits)

lemma signed_cmp_sound:
  assumes "evm_signed_laws cx" "eval_word cx M l = Inr a" "eval_word cx M r = Inr b" "op = Slt \<or> op = Sgt"
  shows "eval_bool cx M (cmp_signed cx op l r) = Inr (eval_cmp cx op a b)"
  using assms by (auto simp: cmp_signed_def evm_signed_laws_def split: option.splits)

text \<open>A word that may turn out to be a hash: a hash node, or a conditional with such an arm.\<close>

fun hash_arm :: "SymExpr \<Rightarrow> bool" where
  "hash_arm (Keccak x len bytes) \<longleftrightarrow> True"
| "hash_arm (Hash x alg bytes) \<longleftrightarrow> True"
| "hash_arm (Ite c t e) \<longleftrightarrow> hash_arm t \<or> hash_arm e"
| "hash_arm _ \<longleftrightarrow> False"

lemma ite_arm_or:
  assumes "eval_word cx M (Ite c t e) = Inr a" "eval_word cx M x = Inr b"
    "t = x \<and> d = c \<and> y = e \<or> e = x \<and> d = not_bool c \<and> y = t"
    and eq: "\<And>v. eval_word cx M y = Inr v \<Longrightarrow> eval_bool cx M m = Inr (v = b)"
  shows "eval_bool cx M (bool_or [d, m]) = Inr (a = b)"
proof -
  obtain z where "eval_bool cx M c = Inr z" using assms(1) by (auto split: sum.splits)
  with assms show ?thesis by (intro bool_or_sound) (auto split: sum.splits if_splits)
qed

declare cmp.simps [simp del] ite_eq_arm.simps [simp del]

lemma cmp_aligned: "aligned_ites cx op l r = Some c \<Longrightarrow> cmp cx op l r = c"
  by (subst cmp.simps) simp

lemma cmp_not_Eq:
  assumes "aligned_ites cx op l r = None"
  shows "op = Ult \<Longrightarrow> cmp cx op l r = cmp_ult cx l r" "op = Ugt \<Longrightarrow> cmp cx op l r = cmp_ugt cx l r"
    "op = Ule \<Longrightarrow> cmp cx op l r = cmp_ule cx l r" "op = Uge \<Longrightarrow> cmp cx op l r = cmp_uge cx l r"
    "op = Slt \<or> op = Sgt \<Longrightarrow> cmp cx op l r = cmp_signed cx op l r"
  using assms by (subst cmp.simps; auto)+

lemma cmp_Eq_arm:
  assumes "aligned_ites cx Eq l r = None"
  shows "ite_eq_arm cx l r = Some c \<Longrightarrow> cmp cx Eq l r = c"
    "ite_eq_arm cx l r = None \<Longrightarrow> ite_eq_arm cx r l = Some c \<Longrightarrow> cmp cx Eq l r = c"
  using assms by (subst cmp.simps; simp)+

lemma cmp_Eq_plain:
  assumes "aligned_ites cx Eq l r = None" "ite_eq_arm cx l r = None" "ite_eq_arm cx r l = None"
    "\<not> (hash_arm l \<and> hash_arm r)"
  shows "cmp cx Eq l r =
    (if l = r then ConstB True
     else case (as_const l, as_const r) of
       (Some a, Some b) \<Rightarrow> ConstB (a = b)
     | (None, Some b) \<Rightarrow> eq_with_const cx l r l b
     | (Some a, None) \<Rightarrow> eq_with_const cx l r r a
     | (None, None) \<Rightarrow> eq_ordered cx l r)"
  using assms by (subst cmp.simps) (cases l; cases r; simp)

lemma ite_eq_arm_Some:
  assumes "ite_eq_arm cx w e = Some x"
  obtains (left) c f where "w = Ite c e f" "x = bool_or [c, cmp cx Eq f e]"
  | (right) c t where "w = Ite c t e" "x = bool_or [not_bool c, cmp cx Eq t e]"
  | (large) "x = eq_ordered cx w e"
  | (leaves) v n where "e = Const v" "fst (constant_ite_eq w v Map.empty n) = Some x"
  using assms by (subst (asm) ite_eq_arm.simps) (auto split: SymExpr.splits if_splits option.splits)

lemma cmp_sound:
  assumes "evm_signed_laws cx" "\<not> (hash_arm l \<and> hash_arm r)" "eval_word cx M l = Inr a" "eval_word cx M r = Inr b"
  shows "eval_bool cx M (cmp cx op l r) = Inr (eval_cmp cx op a b)"
  using assms(2-)
proof (induction "size l + size r" arbitrary: l r a b op rule: less_induct)
  case less
  have arm: "eval_bool cx M x = Inr (u = v)"
    if x: "ite_eq_arm cx w e = Some x" and sz: "size w + size e = size l + size r"
      and nh: "\<not> (hash_arm w \<and> hash_arm e)" and ev: "eval_word cx M w = Inr u" "eval_word cx M e = Inr v" for w e x u v
    using x
  proof (cases rule: ite_eq_arm_Some)
    case (left c f)
    have "eval_bool cx M (cmp cx Eq f e) = Inr (z = v)" if "eval_word cx M f = Inr z" for z
      using less.hyps [of f e z v Eq] left(1) sz nh ev(2) that by auto
    then show ?thesis using ite_arm_or [OF ev(1) [unfolded left(1)] ev(2)] left(2) by blast
  next
    case (right c t)
    have "eval_bool cx M (cmp cx Eq t e) = Inr (z = v)" if "eval_word cx M t = Inr z" for z
      using less.hyps [of t e z v Eq] right(1) sz nh ev(2) that by auto
    then show ?thesis using ite_arm_or [OF ev(1) [unfolded right(1)] ev(2)] right(2) by blast
  next
    case large
    then show ?thesis using eq_ordered_sound [OF ev] by simp
  next
    case (leaves k n)
    then show ?thesis using constant_ite_eq_start [OF leaves(2) ev(1)] ev(2) by simp
  qed
  show ?case
  proof (cases "aligned_ites cx op l r")
    case (Some c)
    then show ?thesis using aligned_ites_sound [OF Some less.prems(2,3)] by (simp add: cmp_aligned)
  next
    case None
    show ?thesis
    proof (cases op)
      case Eq
      note al = None [unfolded Eq]
      show ?thesis
      proof (cases "ite_eq_arm cx l r")
        case (Some x)
        then show ?thesis using arm [OF Some] less.prems Eq cmp_Eq_arm(1) [OF al Some] by simp
      next
        case lr: None
        show ?thesis
        proof (cases "ite_eq_arm cx r l")
          case (Some x)
          then show ?thesis using arm [OF Some, of b a] less.prems Eq cmp_Eq_arm(2) [OF al lr Some] by auto
        next
          case rl: None
          note eq = cmp_Eq_plain [OF al lr rl less.prems(1)]
          show ?thesis using Eq eq less.prems(2,3) eq_ordered_sound [OF less.prems(2,3)]
              eq_with_const_sound [OF less.prems(2,3,2), of b] eq_with_const_sound [OF less.prems(2,3,3), of a]
            by (auto simp: eq_commute [of b a] split: option.splits)
        qed
      qed
    qed (use unsigned_cmp_sound [OF less.prems(2,3)] signed_cmp_sound [OF assms(1) less.prems(2,3)] cmp_not_Eq [OF None] in simp_all)
  qed
qed

section \<open>Derived constructors\<close>

definition cmp_word_expr :: "SymCx \<Rightarrow> SymCmpOp \<Rightarrow> SymExpr \<Rightarrow> SymExpr \<Rightarrow> SymBoolExpr" where
  "cmp_word_expr cx op word e = cmp cx op word e"

definition cmp_word_const :: "SymCx \<Rightarrow> SymCmpOp \<Rightarrow> SymExpr \<Rightarrow> u256 \<Rightarrow> SymBoolExpr" where
  "cmp_word_const cx op word v =
     (case as_const word of
        Some w \<Rightarrow> ConstB (eval_cmp cx op w v)
      | None \<Rightarrow> cmp_word_expr cx op word (Const v))"

definition eq_word_const :: "SymCx \<Rightarrow> SymExpr \<Rightarrow> u256 \<Rightarrow> SymBoolExpr" where
  "eq_word_const cx word v =
     (case as_const word of Some w \<Rightarrow> ConstB (w = v) | None \<Rightarrow> cmp cx Eq word (Const v))"

lemma const_cmp_sound:
  assumes "evm_signed_laws cx" "eval_word cx M w = Inr a"
  shows "eval_bool cx M (cmp_word_const cx op w v) = Inr (eval_cmp cx op a v)"
    "eval_bool cx M (eq_word_const cx w v) = Inr (a = v)"
  using cmp_sound [OF assms(1) _ assms(2), of "Const v" v] assms(2)
  by (auto simp: cmp_word_const_def eq_word_const_def cmp_word_expr_def split: option.splits)

section \<open>The size of the expansion\<close>

text \<open>The occurrences of Boolean nodes in a Boolean expression, and the cost of the expansion.\<close>

fun bool_occurrences :: "SymBoolExpr \<Rightarrow> nat" where
  "bool_occurrences (NotB c) = Suc (bool_occurrences c)"
| "bool_occurrences (AndB cs) = Suc (sum_list (map bool_occurrences cs))"
| "bool_occurrences _ = 1"

fun ite_cost :: "SymExpr \<Rightarrow> nat" where
  "ite_cost (Ite c t f) = ite_cost t + ite_cost f + 2 * bool_occurrences c + 7"
| "ite_cost _ = 1"

lemma condition_nodes_loop_Some:
  "condition_nodes_loop cs n = Some k \<Longrightarrow> k = n + sum_list (map bool_occurrences cs)"
proof (induction cs n rule: condition_nodes_loop.induct)
  case (2 c pending n)
  then obtain m where m: "checked_add n 1 = Some m" "\<not> m > MAX_CONSTANT_ITE_EQ_UNFOLDED_NODES"
      "condition_nodes_loop (case c of NotB v \<Rightarrow> v # pending | AndB vs \<Rightarrow> rev vs @ pending | _ \<Rightarrow> pending) m = Some k"
    by (auto simp: bind_eq_Some_conv split: if_splits)
  have "m = n + 1" using m(1) by (simp add: checked_add_def split: if_splits)
  with "2.IH" [OF m] show ?case by (cases c) (simp_all add: rev_map flip: rev_map)
qed simp

lemma bool_occurrences_pos: "0 < bool_occurrences c"
  by (cases c) simp_all

lemma not_bool_occurrences: "bool_occurrences (not_bool c) \<le> Suc (bool_occurrences c)"
  by (cases c) (simp_all add: not_bool_def)

lemma and_ite_branch_nodes: "bool_occurrences (and_ite_branch c b) \<le> Suc (bool_occurrences c + bool_occurrences b)"
  by (simp add: and_ite_branch_def)

lemma and_terms_nodes: "and_terms vs = Some out \<Longrightarrow> sum_list (map bool_occurrences out) \<le> sum_list (map bool_occurrences vs)"
proof (induction vs arbitrary: out)
  case (Cons v vs)
  then show ?case by (cases v; cases "and_terms vs") (fastforce split: if_splits)+
qed simp

lemma bool_and_nodes: "bool_occurrences (bool_and vs) \<le> Suc (sum_list (map bool_occurrences vs))"
proof (cases "and_terms vs")
  case (Some out)
  from and_terms_nodes [OF Some] show ?thesis
    by (cases out rule: remdups_adj.cases) (simp_all add: bool_and_def Some)
qed (simp add: bool_and_def)

lemma bool_or_pair_nodes: "bool_occurrences (bool_or [x, y]) \<le> bool_occurrences x + bool_occurrences y + 4"
proof -
  have "bool_occurrences (not_bool (bool_and [not_bool x, not_bool y])) \<le> bool_occurrences x + bool_occurrences y + 4"
    using not_bool_occurrences [of "bool_and [not_bool x, not_bool y]"] bool_and_nodes [of "[not_bool x, not_bool y]"]
      not_bool_occurrences [of x] not_bool_occurrences [of y] by simp
  then show ?thesis by (cases x; cases y) (auto simp: bool_or_def split: bool.splits if_splits)
qed

lemma ite_or_nodes:
  assumes "bool_occurrences tm \<le> t" "bool_occurrences fm \<le> f"
  shows "bool_occurrences (bool_or [and_ite_branch c tm, and_ite_branch (not_bool c) fm]) \<le> t + f + 2 * bool_occurrences c + 7"
  using bool_or_pair_nodes [of "and_ite_branch c tm" "and_ite_branch (not_bool c) fm"] not_bool_occurrences [of c]
    and_ite_branch_nodes [of c tm] and_ite_branch_nodes [of "not_bool c" fm] assms by linarith

lemma unfolded_nodes_Some:
  assumes "constant_ite_eq_unfolded_nodes e cc n = (Some k, cc', n')"
  obtains (cached) "cc e = Some (Some k)" "cc' = cc" "n' = n"
  | (leaf) w where "cc e = None" "n \<noteq> 0" "e = Const w" "k = 1" "cc' = cc(e \<mapsto> Some 1)" "n' = n - 1"
  | (ite) c t f tk c1 n1 fk c2 ck where "cc e = None" "n \<noteq> 0" "e = Ite c t f"
      "constant_ite_eq_unfolded_nodes t cc (n - 1) = (Some tk, c1, n1)"
      "constant_ite_eq_unfolded_nodes f c1 n1 = (Some fk, c2, n')"
      "condition_nodes_loop [c] 0 = Some ck" "k = tk + fk + 2 * ck + 7"
      "k \<le> MAX_CONSTANT_ITE_EQ_UNFOLDED_NODES" "cc' = c2(e \<mapsto> Some k)"
proof -
  have "cc e = Some (Some k) \<and> cc' = cc \<and> n' = n" if "cc e = Some r" for r
    using assms that by (subst (asm) constant_ite_eq_unfolded_nodes.simps) simp
  moreover have "n \<noteq> 0" if "cc e = None"
    using assms that by (subst (asm) constant_ite_eq_unfolded_nodes.simps) (simp split: if_splits)
  moreover have "(\<exists>w. e = Const w \<and> k = 1 \<and> cc' = cc(e \<mapsto> Some 1) \<and> n' = n - 1) \<or>
      (\<exists>c t f tk c1 n1 fk c2 ck. e = Ite c t f \<and> constant_ite_eq_unfolded_nodes t cc (n - 1) = (Some tk, c1, n1) \<and>
        constant_ite_eq_unfolded_nodes f c1 n1 = (Some fk, c2, n') \<and>
        condition_nodes_loop [c] 0 = Some ck \<and> k = tk + fk + 2 * ck + 7 \<and>
        k \<le> MAX_CONSTANT_ITE_EQ_UNFOLDED_NODES \<and> cc' = c2(e \<mapsto> Some k))" if "cc e = None" "n \<noteq> 0"
    using assms that
    by (subst (asm) constant_ite_eq_unfolded_nodes.simps)
      (cases e; clarsimp simp: Let_def bind_eq_Some_conv checked_add_def
        simp del: condition_nodes_loop.simps split: prod.splits option.splits if_splits)
  ultimately show thesis using cached leaf ite by (cases "cc e") blast+
qed

definition caches_match :: "cost_cache \<Rightarrow> eq_cache \<Rightarrow> bool" where
  "caches_match cc ec \<longleftrightarrow> (\<forall>e. (cc e = None \<longleftrightarrow> ec e = None) \<and>
     (\<forall>k. cc e = Some (Some k) \<longrightarrow> k = ite_cost e \<and> k \<le> MAX_CONSTANT_ITE_EQ_UNFOLDED_NODES \<and>
        (\<exists>c. ec e = Some (Some c) \<and> bool_occurrences c \<le> k)))"

lemma caches_match_upd:
  "caches_match cc ec \<Longrightarrow> k = ite_cost e \<Longrightarrow> k \<le> MAX_CONSTANT_ITE_EQ_UNFOLDED_NODES \<Longrightarrow> bool_occurrences c \<le> k \<Longrightarrow>
   caches_match (cc(e \<mapsto> Some k)) (ec(e \<mapsto> Some c))"
  by (simp add: caches_match_def)

text \<open>The guard and the expansion visit the same nodes: what passes the guard is expanded within its budget.\<close>

lemma guard_lockstep:
  assumes "constant_ite_eq_unfolded_nodes e cc n = (Some k, cc', n')" "caches_match cc ec"
  shows "\<exists>c ec'. constant_ite_eq e v ec n = (Some c, ec', n') \<and> caches_match cc' ec' \<and>
    k = ite_cost e \<and> k \<le> MAX_CONSTANT_ITE_EQ_UNFOLDED_NODES \<and> bool_occurrences c \<le> k"
  using assms
proof (induction "size e" arbitrary: e cc n k cc' n' ec rule: less_induct)
  case less
  have none: "ec e = None" if "cc e = None" using less.prems(2) that by (simp add: caches_match_def)
  from less.prems(1) show ?case
  proof (cases rule: unfolded_nodes_Some)
    case cached
    with less.prems(2) obtain c where "ec e = Some (Some c)" "k = ite_cost e" "k \<le> MAX_CONSTANT_ITE_EQ_UNFOLDED_NODES"
      "bool_occurrences c \<le> k" unfolding caches_match_def by blast
    with cached less.prems(2) show ?thesis by (simp add: constant_ite_eq_cached)
  next
    case (leaf w)
    then have "constant_ite_eq e v ec n = (Some (ConstB (w = v)), ec(e \<mapsto> Some (ConstB (w = v))), n - 1)"
      using constant_ite_eq_leaf [where cache = ec and e = e and n = n and v = v, OF none _ _ refl] by simp
    moreover have "caches_match cc' (ec(e \<mapsto> Some (ConstB (w = v))))"
      using leaf caches_match_upd [OF less.prems(2), of 1 e "ConstB (w = v)"]
      by (simp add: MAX_CONSTANT_ITE_EQ_UNFOLDED_NODES_def)
    ultimately show ?thesis using leaf by (simp add: MAX_CONSTANT_ITE_EQ_UNFOLDED_NODES_def)
  next
    case (ite c t f tk c1 n1 fk c2 ck)
    obtain tm e1 where t: "constant_ite_eq t v ec (n - 1) = (Some tm, e1, n1)" "caches_match c1 e1"
        "tk = ite_cost t" "bool_occurrences tm \<le> tk"
      using less.hyps [OF _ ite(4) less.prems(2)] ite(3) by auto
    obtain fm e2 where f: "constant_ite_eq f v e1 n1 = (Some fm, e2, n')" "caches_match c2 e2"
        "fk = ite_cost f" "bool_occurrences fm \<le> fk"
      using less.hyps [OF _ ite(5) t(2)] ite(3) by auto
    let ?r = "bool_or [and_ite_branch c tm, and_ite_branch (not_bool c) fm]"
    have eq: "constant_ite_eq e v ec n = (Some ?r, e2(e \<mapsto> Some ?r), n')"
      using constant_ite_eq_Ite [OF none [OF ite(1), unfolded ite(3)] ite(2) t(1) f(1)] by (simp add: ite(3))
    have ck: "ck = bool_occurrences c" using condition_nodes_loop_Some [OF ite(6)] by simp
    have k: "k = ite_cost e" using ite(3,7) t(3) f(3) ck by simp
    have r: "bool_occurrences ?r \<le> k" using ite_or_nodes [OF t(4) f(4), of c] ite(7) ck by simp
    have "caches_match cc' (e2(e \<mapsto> Some ?r))" unfolding ite(9) by (rule caches_match_upd [OF f(2) k ite(8) r])
    with eq k r ite(8) show ?thesis by blast
  qed
qed

section \<open>The equality of two Keccak words\<close>

text \<open>
  What a Keccak node hashes under a model, when its operands are bytes and those past the length
  are zero: the executor reads its operands so.
\<close>

definition hashes :: "SymCx \<Rightarrow> model \<Rightarrow> SymExpr \<Rightarrow> SymExpr list \<Rightarrow> u8 list \<Rightarrow> bool" where
  "hashes cx M len es bs \<longleftrightarrow>
     eval_word cx M len = Inr (of_nat (length bs)) \<and> length bs \<le> length es \<and> length es < 2 ^ 64 \<and>
     map (eval_word cx M) es = map (\<lambda>b. Inr (ucast b)) bs @ replicate (length es - length bs) (Inr 0)"

lemma low_byte_ucast: "ucast (ucast b AND (0xff :: u256)) = (b :: u8)"
proof -
  have "ucast b AND (0xff :: u256) = take_bit 8 (ucast b)" by (simp add: take_bit_eq_mask mask_numeral)
  then show ?thesis by (simp add: bit_eq_iff bit_simps)
qed

lemma inj_byte_word: "inj (ucast :: u8 \<Rightarrow> u256)"
  by (rule injI) (metis low_byte_ucast)

lemma eval_take_bytes:
  "map (eval_word cx M) es = map (\<lambda>b. Inr (ucast b)) bs @ rest \<Longrightarrow> eval_take cx M (length bs) es = Inr bs"
proof (induction bs arbitrary: es)
  case Nil
  then show ?case by (cases es) simp_all
next
  case (Cons b bs)
  then obtain e es' where "es = e # es'" by (cases es) auto
  with Cons show ?case by (simp add: low_byte_ucast)
qed

lemma hashes_eval: "hashes cx M len es bs \<Longrightarrow> eval_word cx M (Keccak x len es) = Inr (keccak256 cx bs)"
  using eval_take_bytes [of cx M es bs]
  by (simp add: hashes_def usize_try_from_def unat_of_nat take_bit_nat_eq_self)

definition padded :: "nat \<Rightarrow> u8 list \<Rightarrow> u256 list" where
  "padded n bs = map ucast bs @ replicate (n - length bs) 0"

lemma padded_eq:
  assumes "length bs = length cs"
  shows "padded n bs = padded n cs \<longleftrightarrow> bs = cs"
  using assms by (auto simp: padded_def inj_map_eq_map [OF inj_byte_word])

lemma hashes_words: "hashes cx M len es bs \<Longrightarrow> map (eval_word cx M) es = map Inr (padded (length es) bs)"
  by (simp add: hashes_def padded_def)

lemma eval_all_cmp:
  assumes "length ls = length rs" "evm_signed_laws cx" "list_all (\<lambda>e. \<not> hash_arm e) ls"
    "map (eval_word cx M) ls = map Inr us" "map (eval_word cx M) rs = map Inr vs"
  shows "eval_all cx M (map (\<lambda>(a, b). cmp cx Eq a b) (zip ls rs)) = Inr (us = vs)"
  using assms
proof (induction ls rs arbitrary: us vs rule: list_induct2)
  case (Cons l ls r rs)
  obtain u us' v vs' where uv: "us = u # us'" "vs = v # vs'" using Cons.prems(3,4) by (cases us; cases vs) auto
  have "eval_bool cx M (cmp cx Eq l r) = Inr (u = v)" using cmp_sound [of cx l r M u v Eq] Cons.prems uv by simp
  with Cons uv show ?case by simp
qed simp

lemma of_nat_u256_inj:
  assumes "a < 2 ^ 64" "b < 2 ^ 64"
  shows "(of_nat a :: u256) = of_nat b \<longleftrightarrow> a = b"
proof
  assume "(of_nat a :: u256) = of_nat b"
  then have "unat (of_nat a :: u256) = unat (of_nat b :: u256)" by simp
  then show "a = b" using assms by (simp add: unat_of_nat)
qed simp

lemma keccak_eq_decides:
  assumes laws: "evm_signed_laws cx" and l: "hashes cx M ll ls bs" and r: "hashes cx M rl rs cs"
    and len: "length ls = length rs" and nh: "list_all (\<lambda>e. \<not> hash_arm e) (ll # ls)"
  shows "eval_bool cx M (cmp cx Eq (Keccak x ll ls) (Keccak y rl rs)) = Inr (bs = cs)"
proof -
  let ?n = "length ls"
  have bounds: "length bs < 2 ^ 64" "length cs < 2 ^ 64" using l r by (auto simp: hashes_def)
  have "eval_bool cx M (cmp cx Eq ll rl) = Inr ((of_nat (length bs) :: u256) = of_nat (length cs))"
    using cmp_sound [OF laws, of ll rl M] l r nh by (simp add: hashes_def)
  then have lens: "eval_bool cx M (cmp cx Eq ll rl) = Inr (length bs = length cs)"
    by (simp add: of_nat_u256_inj [OF bounds])
  have words: "eval_all cx M (map (\<lambda>(a, b). cmp cx Eq a b) (zip ls rs)) = Inr (padded ?n bs = padded ?n cs)"
    using eval_all_cmp [OF len laws _ hashes_words [OF l] hashes_words [OF r]] nh len by simp
  have all: "eval_all cx M (cmp cx Eq ll rl # map (\<lambda>(a, b). cmp cx Eq a b) (zip ls rs)) = Inr (bs = cs)"
    using lens words by (auto simp: padded_eq)
  show ?thesis
  proof (cases "Keccak x ll ls = Keccak y rl rs")
    case True
    then have "length bs = length cs" using l r of_nat_u256_inj [OF bounds] by (auto simp: hashes_def)
    moreover have "padded ?n bs = padded ?n cs"
      using hashes_words [OF l] hashes_words [OF r] True by (auto dest: map_injective simp: inj_def)
    ultimately have "bs = cs" by (simp add: padded_eq)
    then show ?thesis using True by (subst cmp.simps) (simp add: ite_eq_arm.simps aligned_ites_def)
  next
    case False
    then have "cmp cx Eq (Keccak x ll ls) (Keccak y rl rs) =
        bool_and (cmp cx Eq ll rl # map (\<lambda>(a, b). cmp cx Eq a b) (zip ls rs))"
      using len by (subst cmp.simps) (auto simp: ite_eq_arm.simps aligned_ites_def)
    then show ?thesis using bool_and_sound [OF all] by simp
  qed
qed

section \<open>Properties\<close>

text \<open>
  C13: the comparison constructor keeps the value of the comparison. For every operator, operands
  and model that give the operands the values \<open>a\<close> and \<open>b\<close>, the Boolean expression that \<open>cmp\<close> builds has
  the value of the comparison of \<open>a\<close> and \<open>b\<close>, unless both operands may be hashes.
\<close>

theorem comparison_keeps_value:
  assumes "evm_signed_laws cx" "\<not> (hash_arm l \<and> hash_arm r)" "eval_word cx M l = Inr a" "eval_word cx M r = Inr b"
  shows "eval_bool cx M (cmp cx op l r) = Inr (eval_cmp cx op a b)"
  by (rule cmp_sound [OF assms])

theorem comparison_keeps_value_witness:
  "eval_bool evm_cx [1 \<mapsto> 7]
     (cmp evm_cx Eq (Ite (CmpB Ult (Var 1) (Const 9)) (Const 3) (Ite (ConstB True) (Const 4) (Const 3))) (Const 3)) = Inr True"
  using comparison_keeps_value [OF evm_cx_laws, of "Ite (CmpB Ult (Var 1) (Const 9)) (Const 3) (Ite (ConstB True) (Const 4) (Const 3))"
      "Const 3" "[1 \<mapsto> 7]" 3 3 Eq] by simp

text \<open>
  C20: the equality of two Keccak words over operands of equal number is the equality of what they
  hash. When the operands are bytes, with zeros past the length, the condition is true exactly
  if the hashed byte strings are the same; if it is true the two hashes are the same, and if the
  two strings do not collide it decides the equality of the hashes.
\<close>

theorem keccak_equality_compares_preimages:
  assumes "evm_signed_laws cx" "hashes cx M ll ls bs" "hashes cx M rl rs cs" "length ls = length rs"
    "list_all (\<lambda>e. \<not> hash_arm e) (ll # ls)"
  shows "eval_bool cx M (cmp cx Eq (Keccak x ll ls) (Keccak y rl rs)) = Inr (bs = cs) \<and>
    eval_word cx M (Keccak x ll ls) = Inr (keccak256 cx bs) \<and> eval_word cx M (Keccak y rl rs) = Inr (keccak256 cx cs)"
  using keccak_eq_decides [OF assms] hashes_eval assms(2,3) by blast

theorem keccak_equality_compares_preimages_witness:
  "eval_bool evm_cx [1 \<mapsto> 7, 2 \<mapsto> 1]
     (cmp evm_cx Eq (Keccak 5 (Var 2) [Var 1, Var 3]) (Keccak 6 (Const 1) [Const 7, Const 0])) = Inr True"
  using keccak_equality_compares_preimages [OF evm_cx_laws, of "[1 \<mapsto> 7, 2 \<mapsto> 1]" "Var 2" "[Var 1, Var 3]" "[7]"
      "Const 1" "[Const 7, Const 0]" "[7]" 5 6] by (simp add: hashes_def)

text \<open>
  C19: the guard on the expansion of nested conditionals does what its comment says. When it lets a
  conditional through, the expansion does not run out of its own budget, the number the guard
  computed bounds the occurrences of Boolean nodes in the result, and it is at most 8192.
\<close>

theorem ite_expansion_fits:
  assumes "fst (constant_ite_eq_unfolded_nodes w Map.empty MAX_CONSTANT_ITE_EQ_NODES) = Some k"
  shows "\<exists>c. fst (constant_ite_eq w v Map.empty MAX_CONSTANT_ITE_EQ_NODES) = Some c \<and> bool_occurrences c \<le> k \<and> k \<le> 8192"
proof -
  obtain cc' n' where g: "constant_ite_eq_unfolded_nodes w Map.empty MAX_CONSTANT_ITE_EQ_NODES = (Some k, cc', n')"
    using assms by (metis prod.collapse)
  have "caches_match Map.empty Map.empty" by (simp add: caches_match_def)
  from guard_lockstep [OF g this, of v] show ?thesis by (auto simp: MAX_CONSTANT_ITE_EQ_UNFOLDED_NODES_def)
qed

theorem ite_expansion_fits_witness:
  "\<exists>c. fst (constant_ite_eq (Ite (ConstB True) (Const 1) (Const 2)) 2 Map.empty MAX_CONSTANT_ITE_EQ_NODES) = Some c \<and> bool_occurrences c \<le> 11"
  using ite_expansion_fits [of "Ite (ConstB True) (Const 1) (Const 2)" 11 2]
  by (auto simp: constant_ite_eq_unfolded_nodes.simps MAX_CONSTANT_ITE_EQ_NODES_def checked_add_def
      MAX_CONSTANT_ITE_EQ_UNFOLDED_NODES_def Let_def)

end
