(* ===== verification/Sym_Facts.thy ===== *)
theory Sym_Facts
  imports Sym_Cmp
begin

text \<open>
  What a path condition says of a word (crates/evm/symbolic/src/runtime/expr): the constant it forces
  (\<open>forces_expr_const_with_context\<close>), the bound it gives (\<open>upper_bound_usize\<close>), the order it implies
  (\<open>implies_unsigned_less_or_equal\<close>), the constant difference of two words (\<open>constant_difference\<close>) and the
  conversion of words to conditions. Each is shown to hold under every model of the path condition.
\<close>

section \<open>Words as conditions\<close>

definition into_zero_bool :: "SymCx \<Rightarrow> SymExpr \<Rightarrow> SymBoolExpr" where
  "into_zero_bool cx e =
     (case e of
        Const v \<Rightarrow> ConstB (v = 0)
      | Ite c t f \<Rightarrow>
          (case bool_word_condition_from_parts c t f of
             Some c' \<Rightarrow> not_bool c'
           | None \<Rightarrow> cmp cx Eq e (Const 0))
      | _ \<Rightarrow> cmp cx Eq e (Const 0))"

definition nonzero_bool :: "SymCx \<Rightarrow> SymExpr \<Rightarrow> SymBoolExpr" where
  "nonzero_bool cx e = not_bool (into_zero_bool cx e)"

definition as_const_or :: "SymExpr \<Rightarrow> string \<Rightarrow> SymbolicError + u256" where
  "as_const_or e reason = (case as_const e of Some v \<Rightarrow> Inr v | None \<Rightarrow> Inl (Unsupported reason))"

definition as_usize_or :: "SymExpr \<Rightarrow> string \<Rightarrow> SymbolicError + nat" where
  "as_usize_or e reason =
     (case as_const_or e reason of
        Inl err \<Rightarrow> Inl err
      | Inr v \<Rightarrow> (case usize_try_from v of Some n \<Rightarrow> Inr n | None \<Rightarrow> Inl (Unsupported reason)))"

section \<open>Forced constants\<close>

definition masked_expr_matches :: "SymCx \<Rightarrow> SymExpr \<Rightarrow> SymExpr \<Rightarrow> u256 option" where
  "masked_expr_matches cx candidate target =
     (case candidate of
        BinOp And l r \<Rightarrow>
          if l = target then eval_closed cx r
          else if r = target then eval_closed cx l
          else None
      | _ \<Rightarrow> None)"

fun forces_masked :: "SymCx \<Rightarrow> SymExpr \<Rightarrow> u256 \<Rightarrow> SymBoolExpr \<Rightarrow> bool"
and context_forces_masked_expr :: "SymCx \<Rightarrow> SymExpr \<Rightarrow> u256 \<Rightarrow> SymBoolExpr list \<Rightarrow> bool" where
  "forces_masked cx target m (CmpB op l r) \<longleftrightarrow> op = Eq \<and>
     (l = target \<and> masked_expr_matches cx r target = Some m \<or>
      r = target \<and> masked_expr_matches cx l target = Some m)"
| "forces_masked cx target m (AndB cs) \<longleftrightarrow> context_forces_masked_expr cx target m cs"
| "forces_masked cx target m _ \<longleftrightarrow> False"
| "context_forces_masked_expr cx target m [] \<longleftrightarrow> False"
| "context_forces_masked_expr cx target m (c # cs) \<longleftrightarrow>
     forces_masked cx target m c \<or> context_forces_masked_expr cx target m cs"

definition equality_forces_const_inner ::
    "SymCx \<Rightarrow> SymExpr \<Rightarrow> u256 \<Rightarrow> SymExpr \<Rightarrow> SymBoolExpr list \<Rightarrow> u256 option" where
  "equality_forces_const_inner cx e v target ctx =
     Option.bind (masked_expr_matches cx e target) (\<lambda>m.
       if v AND NOT m \<noteq> 0 \<or> \<not> context_forces_masked_expr cx target m ctx then None else Some v)"

definition equality_forces_const ::
    "SymCx \<Rightarrow> SymExpr \<Rightarrow> u256 \<Rightarrow> SymExpr \<Rightarrow> SymBoolExpr list \<Rightarrow> u256 option" where
  "equality_forces_const cx e v target ctx =
     (if e = target then Some v else equality_forces_const_inner cx e v target ctx)"

definition is_nonzero :: "u256 option \<Rightarrow> bool" where
  "is_nonzero v \<longleftrightarrow> (\<exists>x. v = Some x \<and> x \<noteq> 0)"

lemma is_nonzero_code [simp, code]: "is_nonzero (Some x) \<longleftrightarrow> x \<noteq> 0" "is_nonzero None \<longleftrightarrow> False"
  by (simp_all add: is_nonzero_def)

fun nonzero_forces_const :: "SymCx \<Rightarrow> SymExpr \<Rightarrow> SymBoolExpr list \<Rightarrow> SymExpr \<Rightarrow> u256 option"
and forces_expr_const_with_context :: "SymCx \<Rightarrow> SymExpr \<Rightarrow> SymBoolExpr list \<Rightarrow> SymBoolExpr \<Rightarrow> u256 option"
and first_forced_const :: "SymCx \<Rightarrow> SymExpr \<Rightarrow> SymBoolExpr list \<Rightarrow> SymBoolExpr list \<Rightarrow> u256 option" where
  "nonzero_forces_const cx target ctx (Ite c t e) =
     (if is_nonzero (eval_closed cx t) \<and> eval_closed cx e = Some 0
      then forces_expr_const_with_context cx target ctx c else None)"
| "nonzero_forces_const cx target ctx (BinOp op l r) =
     (case op of
        Or \<Rightarrow>
          if eval_closed cx l = Some 0 then nonzero_forces_const cx target ctx r
          else if eval_closed cx r = Some 0 then nonzero_forces_const cx target ctx l
          else None
      | And \<Rightarrow>
          if is_nonzero (eval_closed cx l) then nonzero_forces_const cx target ctx r
          else if is_nonzero (eval_closed cx r) then nonzero_forces_const cx target ctx l
          else None
      | Shl \<Rightarrow> if eval_closed cx r = Some 0 then nonzero_forces_const cx target ctx l else None
      | Shr \<Rightarrow> if eval_closed cx r = Some 0 then nonzero_forces_const cx target ctx l else None
      | _ \<Rightarrow> None)"
| "nonzero_forces_const cx target ctx _ = None"
| "forces_expr_const_with_context cx target ctx (CmpB op l r) =
     (if op = Eq then (case r of Const v \<Rightarrow> equality_forces_const cx l v target ctx | _ \<Rightarrow> None) else None)"
| "forces_expr_const_with_context cx target ctx (NotB c) =
     (case c of
        CmpB op l r \<Rightarrow>
          if op = Eq \<and> r = Const 0 then nonzero_forces_const cx target ctx l else None
      | NotB d \<Rightarrow> forces_expr_const_with_context cx target ctx d
      | _ \<Rightarrow> None)"
| "forces_expr_const_with_context cx target ctx (AndB cs) = first_forced_const cx target ctx cs"
| "forces_expr_const_with_context cx target ctx (ConstB b) = None"
| "first_forced_const cx target ctx [] = None"
| "first_forced_const cx target ctx (c # cs) =
     (case forces_expr_const_with_context cx target ctx c of
        Some v \<Rightarrow> Some v
      | None \<Rightarrow> first_forced_const cx target ctx cs)"

section \<open>Implied order\<close>

fun implies_unsigned_less_or_equal :: "SymBoolExpr \<Rightarrow> bool \<Rightarrow> SymExpr \<Rightarrow> SymExpr \<Rightarrow> nat \<Rightarrow> bool \<times> nat"
and any_implies_unsigned_less_or_equal :: "SymBoolExpr list \<Rightarrow> SymExpr \<Rightarrow> SymExpr \<Rightarrow> nat \<Rightarrow> bool \<times> nat" where
  "implies_unsigned_less_or_equal c expected l r remaining =
     (if l = r then (True, remaining)
      else if remaining = 0 then (False, remaining)
      else let remaining = remaining - 1 in
        (case c of
           NotB d \<Rightarrow> implies_unsigned_less_or_equal d (\<not> expected) l r remaining
         | AndB cs \<Rightarrow>
             if expected then any_implies_unsigned_less_or_equal cs l r remaining else (False, remaining)
         | CmpB op fl fr \<Rightarrow>
             ((case (op, expected) of
                 (Ult, True) \<Rightarrow> fl = l \<and> fr = r
               | (Ule, True) \<Rightarrow> fl = l \<and> fr = r
               | (Uge, True) \<Rightarrow> fr = l \<and> fl = r
               | (Ugt, True) \<Rightarrow> fr = l \<and> fl = r
               | (Ult, False) \<Rightarrow> fr = l \<and> fl = r
               | (Ule, False) \<Rightarrow> fr = l \<and> fl = r
               | (Uge, False) \<Rightarrow> fl = l \<and> fr = r
               | (Ugt, False) \<Rightarrow> fl = l \<and> fr = r
               | (Eq, True) \<Rightarrow> fl = l \<and> fr = r \<or> fr = l \<and> fl = r
               | _ \<Rightarrow> False), remaining)
         | ConstB b \<Rightarrow> (False, remaining)))"
| "any_implies_unsigned_less_or_equal [] l r remaining = (False, remaining)"
| "any_implies_unsigned_less_or_equal (c # cs) l r remaining =
     (case implies_unsigned_less_or_equal c True l r remaining of
        (True, remaining) \<Rightarrow> (True, remaining)
      | (False, remaining) \<Rightarrow> any_implies_unsigned_less_or_equal cs l r remaining)"

section \<open>Upper bounds\<close>

definition min_bound :: "nat option \<Rightarrow> nat option \<Rightarrow> nat option" where
  "min_bound bound candidate =
     (case candidate of
        None \<Rightarrow> bound
      | Some c \<Rightarrow> Some (case bound of None \<Rightarrow> c | Some b \<Rightarrow> min b c))"

definition below_const :: "SymExpr \<Rightarrow> nat option" where
  "below_const e =
     Option.bind (as_const e) (\<lambda>bound. if bound \<noteq> 0 then usize_try_from (bound - 1) else None)"

fun upper_bound_usize :: "SymExpr \<Rightarrow> SymBoolExpr \<Rightarrow> nat option" where
  "upper_bound_usize e (ConstB b) = None"
| "upper_bound_usize e (NotB c) = None"
| "upper_bound_usize e (AndB cs) = foldl min_bound None (map (upper_bound_usize e) cs)"
| "upper_bound_usize e (CmpB op l r) =
     (if op = Eq then
        (if l = e then Option.bind (as_const r) usize_try_from
         else if r = e then Option.bind (as_const l) usize_try_from
         else None)
      else if l = e then
        (case op of
           Ult \<Rightarrow> below_const r
         | Ule \<Rightarrow> Option.bind (as_const r) usize_try_from
         | _ \<Rightarrow> None)
      else if r = e then
        (case op of
           Ugt \<Rightarrow> below_const l
         | Uge \<Rightarrow> Option.bind (as_const l) usize_try_from
         | _ \<Rightarrow> None)
      else None)"

section \<open>Constant differences\<close>

definition MAX_CONSTANT_DIFFERENCE_VISITS :: nat where
  "MAX_CONSTANT_DIFFERENCE_VISITS = 256"

type_synonym differences = "(SymExpr \<times> SymExpr) \<rightharpoonup> u256 option"

fun const_arm :: "SymExpr \<Rightarrow> (bool \<times> SymExpr \<times> u256) option" where
  "const_arm (BinOp op v (Const k)) =
     (if op = Add then Some (True, v, k) else if op = Sub then Some (False, v, k) else None)"
| "const_arm _ = None"

lemma const_arm_Some: "const_arm e = Some (add, v, k) \<Longrightarrow> e = BinOp (if add then Add else Sub) v (Const k)"
  by (cases e rule: const_arm.cases) (auto split: if_splits)

lemma const_arm_size: "const_arm e = Some (add, v, k) \<Longrightarrow> size v < size e"
  by (drule const_arm_Some) simp

text \<open>\<open>differences.insert(key, difference)\<close> on the way out.\<close>

definition remember_difference ::
    "SymExpr \<Rightarrow> SymExpr \<Rightarrow> u256 option \<Rightarrow> differences \<Rightarrow> nat \<Rightarrow> u256 option \<times> differences \<times> nat" where
  "remember_difference l r d D n = (d, D((l, r) \<mapsto> d), n)"

function constant_difference_cached ::
    "SymExpr \<Rightarrow> SymExpr \<Rightarrow> differences \<Rightarrow> nat \<Rightarrow> u256 option \<times> differences \<times> nat" where
  "constant_difference_cached l r D remaining =
     (if l = r then (Some 0, D, remaining)
      else case D (l, r) of
        Some d \<Rightarrow> (d, D, remaining)
      | None \<Rightarrow>
          if remaining = 0 then (None, D, remaining)
          else
            (case (l, r) of
               (Const a, Const b) \<Rightarrow> remember_difference l r (Some (a - b)) D (remaining - 1)
             | (Ite lc lt le, Ite rc rt re) \<Rightarrow>
                 if lc = rc then
                   (case constant_difference_cached lt rt D (remaining - 1) of
                      (None, D, n) \<Rightarrow> (None, D, n)
                    | (Some td, D, n) \<Rightarrow>
                   (case constant_difference_cached le re D n of
                      (None, D, n) \<Rightarrow> (None, D, n)
                    | (Some ed, D, n) \<Rightarrow> remember_difference l r (if td = ed then Some td else None) D n))
                 else remember_difference l r None D (remaining - 1)
             | _ \<Rightarrow>
                 (case const_arm l of
                    Some (add, v, k) \<Rightarrow>
                      (case constant_difference_cached v r D (remaining - 1) of (d, D, n) \<Rightarrow>
                        remember_difference l r (map_option (\<lambda>d. if add then d + k else d - k) d) D n)
                  | None \<Rightarrow>
                 (case const_arm r of
                    Some (add, v, k) \<Rightarrow>
                      (case constant_difference_cached l v D (remaining - 1) of (d, D, n) \<Rightarrow>
                        remember_difference l r (map_option (\<lambda>d. if add then d - k else d + k) d) D n)
                  | None \<Rightarrow> remember_difference l r None D (remaining - 1)))))"
  by pat_completeness auto
termination
  by (relation "measure (\<lambda>(l, r, D, n). size l + size r)") (auto dest: const_arm_size)

definition constant_difference :: "SymExpr \<Rightarrow> SymExpr \<Rightarrow> u256 option" where
  "constant_difference l r = fst (constant_difference_cached l r Map.empty MAX_CONSTANT_DIFFERENCE_VISITS)"

section \<open>Search for a conditional\<close>

text \<open>
  \<open>contains_ite_cached\<close> with the set of visited nodes, which it inserts into before it descends;
  the root is not inserted.
\<close>

fun contains_ite_cached :: "SymExpr \<Rightarrow> SymExpr set \<Rightarrow> bool \<Rightarrow> bool \<times> SymExpr set"
and any_contains_ite :: "SymExpr list \<Rightarrow> SymExpr set \<Rightarrow> bool \<times> SymExpr set" where
  "contains_ite_cached e visited memoize =
     (case e of
        Const v \<Rightarrow> (False, visited)
      | Var x \<Rightarrow> (False, visited)
      | GasLeft x \<Rightarrow> (False, visited)
      | Ite c t f \<Rightarrow> (True, visited)
      | _ \<Rightarrow>
          if memoize \<and> e \<in> visited then (False, visited)
          else let visited = (if memoize then insert e visited else visited) in
            (case e of
               Keccak x len bytes \<Rightarrow>
                 (case contains_ite_cached len visited True of
                    (True, visited) \<Rightarrow> (True, visited)
                  | (False, visited) \<Rightarrow> any_contains_ite bytes visited)
             | Hash x alg bytes \<Rightarrow> any_contains_ite bytes visited
             | NotW v \<Rightarrow> contains_ite_cached v visited True
             | BinOp op l r \<Rightarrow>
                 (case contains_ite_cached l visited True of
                    (True, visited) \<Rightarrow> (True, visited)
                  | (False, visited) \<Rightarrow> contains_ite_cached r visited True)
             | TernOp op l r m \<Rightarrow>
                 (case contains_ite_cached l visited True of
                    (True, visited) \<Rightarrow> (True, visited)
                  | (False, visited) \<Rightarrow>
                 (case contains_ite_cached r visited True of
                    (True, visited) \<Rightarrow> (True, visited)
                  | (False, visited) \<Rightarrow> contains_ite_cached m visited True))
             | _ \<Rightarrow> (False, visited)))"
| "any_contains_ite [] visited = (False, visited)"
| "any_contains_ite (e # es) visited =
     (case contains_ite_cached e visited True of
        (True, visited) \<Rightarrow> (True, visited)
      | (False, visited) \<Rightarrow> any_contains_ite es visited)"

definition contains_ite :: "SymExpr \<Rightarrow> bool" where
  "contains_ite e = fst (contains_ite_cached e {} False)"

section \<open>What is forced holds\<close>

definition holds_all :: "SymCx \<Rightarrow> model \<Rightarrow> SymBoolExpr list \<Rightarrow> bool" where
  "holds_all cx M cs \<longleftrightarrow> list_all (\<lambda>c. eval_bool cx M c = Inr True) cs"

lemma holds_all_simps [simp]:
  "holds_all cx M []" "holds_all cx M (c # cs) \<longleftrightarrow> eval_bool cx M c = Inr True \<and> holds_all cx M cs"
  by (simp_all add: holds_all_def)

lemma eval_all_True: "eval_all cx M cs = Inr True \<longleftrightarrow> holds_all cx M cs"
  by (induction cs) (auto split: sum.splits if_splits)

lemma masked_expr_matches_Some:
  assumes "masked_expr_matches cx e target = Some m" "eval_word cx M target = Inr x"
  shows "eval_word cx M e = Inr (x AND m)"
  using assms eval_closed_sound [of cx _ m M]
  by (auto simp: masked_expr_matches_def and.commute split: SymExpr.splits SymBinOp.splits if_splits)

lemma context_forces_masked:
  "eval_word cx M target = Inr x \<Longrightarrow> forces_masked cx target m c \<Longrightarrow> eval_bool cx M c = Inr True \<Longrightarrow> x AND m = x"
  "eval_word cx M target = Inr x \<Longrightarrow> context_forces_masked_expr cx target m cs \<Longrightarrow> holds_all cx M cs \<Longrightarrow> x AND m = x"
proof (induction cx target m c and cx target m cs rule: forces_masked_context_forces_masked_expr.induct)
  case (1 cx target m op l r)
  then show ?case
    using masked_expr_matches_Some [of cx r target m M x] masked_expr_matches_Some [of cx l target m M x] by auto
qed (auto simp: eval_all_True)

lemma equality_forces_const_sound:
  assumes "equality_forces_const cx e v target ctx = Some w" "holds_all cx M ctx"
    "eval_word cx M e = Inr v" "eval_word cx M target = Inr x"
  shows "x = w"
proof (cases "e = target")
  case False
  with assms(1) obtain m where m: "masked_expr_matches cx e target = Some m" "context_forces_masked_expr cx target m ctx"
      "w = v" by (auto simp: equality_forces_const_def equality_forces_const_inner_def bind_eq_Some_conv split: if_splits)
  have "x AND m = x" by (rule context_forces_masked(2) [OF assms(4) m(2) assms(2)])
  with masked_expr_matches_Some [OF m(1) assms(4)] assms(3) m(3) show ?thesis by simp
qed (use assms in \<open>simp add: equality_forces_const_def\<close>)

lemma is_nonzero_closed: "is_nonzero (eval_closed cx e) \<Longrightarrow> \<exists>v. v \<noteq> 0 \<and> eval_word cx M e = Inr v"
  by (auto simp: is_nonzero_def eval_closed_sound)

lemma forced_const_sound:
  "nonzero_forces_const cx target ctx e = Some w \<Longrightarrow> holds_all cx M ctx \<Longrightarrow>
    eval_word cx M target = Inr x \<Longrightarrow> eval_word cx M e = Inr v \<Longrightarrow> v \<noteq> 0 \<Longrightarrow> x = w"
  "forces_expr_const_with_context cx target ctx c = Some w \<Longrightarrow> holds_all cx M ctx \<Longrightarrow>
    eval_word cx M target = Inr x \<Longrightarrow> eval_bool cx M c = Inr True \<Longrightarrow> x = w"
  "first_forced_const cx target ctx cs = Some w \<Longrightarrow> holds_all cx M ctx \<Longrightarrow>
    eval_word cx M target = Inr x \<Longrightarrow> holds_all cx M cs \<Longrightarrow> x = w"
proof (induction cx target ctx e and cx target ctx c and cx target ctx cs arbitrary: v
    rule: nonzero_forces_const_forces_expr_const_with_context_first_forced_const.induct)
  case (1 cx target ctx c t e)
  then have c: "is_nonzero (eval_closed cx t)" "eval_closed cx e = Some 0"
    "forces_expr_const_with_context cx target ctx c = Some w" by (auto split: if_splits)
  have "eval_bool cx M c = Inr True"
    using "1.prems"(4,5) eval_closed_sound [OF c(2), of M] by (auto split: sum.splits if_splits)
  with "1.IH" c "1.prems" show ?case by blast
next
  case (2 cx target ctx op l r)
  obtain a b where ab: "eval_word cx M l = Inr a" "eval_word cx M r = Inr b" "v = eval_binop cx op a b"
    using "2.prems"(4) by (auto split: sum.splits)
  have closed: "eval_closed cx l = Some k \<Longrightarrow> a = k" "eval_closed cx r = Some k \<Longrightarrow> b = k" for k
    using ab eval_closed_sound [of cx _ k M] by auto
  consider (or_l) "op = Or" "eval_closed cx l = Some 0" "nonzero_forces_const cx target ctx r = Some w"
    | (or_r) "op = Or" "eval_closed cx l \<noteq> Some 0" "eval_closed cx r = Some 0" "nonzero_forces_const cx target ctx l = Some w"
    | (and_l) "op = And" "is_nonzero (eval_closed cx l)" "nonzero_forces_const cx target ctx r = Some w"
    | (and_r) "op = And" "\<not> is_nonzero (eval_closed cx l)" "is_nonzero (eval_closed cx r)" "nonzero_forces_const cx target ctx l = Some w"
    | (shl) "op = Shl" "eval_closed cx r = Some 0" "nonzero_forces_const cx target ctx l = Some w"
    | (shr) "op = Shr" "eval_closed cx r = Some 0" "nonzero_forces_const cx target ctx l = Some w"
    using "2.prems"(1) by (cases op) (auto split: if_splits)
  then show ?case
  proof cases
    case or_l
    then show ?thesis using "2.IH"(3) [OF or_l(1,2) or_l(3) "2.prems"(2,3) ab(2)] "2.prems"(5) ab closed by simp
  next
    case or_r
    then show ?thesis using "2.IH"(4) [OF or_r(1,2,3) or_r(4) "2.prems"(2,3) ab(1)] "2.prems"(5) ab closed by simp
  next
    case and_l
    then show ?thesis using "2.IH"(1) [OF and_l(1,2) and_l(3) "2.prems"(2,3) ab(2)] "2.prems"(5) ab by (cases "b = 0") auto
  next
    case and_r
    then show ?thesis using "2.IH"(2) [OF and_r(1,2,3) and_r(4) "2.prems"(2,3) ab(1)] "2.prems"(5) ab by (cases "a = 0") auto
  next
    case shl
    then show ?thesis using "2.IH"(5) [OF shl(1,2) shl(3) "2.prems"(2,3) ab(1)] "2.prems"(5) ab closed by simp
  next
    case shr
    then show ?thesis using "2.IH"(6) [OF shr(1,2) shr(3) "2.prems"(2,3) ab(1)] "2.prems"(5) ab closed by simp
  qed
next
  case (4 cx target ctx op l r)
  then obtain k where k: "op = Eq" "r = Const k" "equality_forces_const cx l k target ctx = Some w"
    by (auto split: if_splits SymExpr.splits)
  then have "eval_word cx M l = Inr k" using "4.prems"(4) by (auto split: sum.splits)
  from equality_forces_const_sound [OF k(3) "4.prems"(2) this "4.prems"(3)] show ?case .
next
  case (5 cx target ctx c)
  show ?case
  proof (cases c)
    case (NotB d)
    then have "eval_bool cx M d = Inr True" using "5.prems"(4) by (auto split: sum.splits)
    then show ?thesis using "5.IH"(1) [OF NotB] "5.prems" NotB by simp
  next
    case (CmpB op l r)
    with "5.prems"(1) have op: "op = Eq \<and> r = Const 0" "nonzero_forces_const cx target ctx l = Some w"
      by (simp_all split: if_splits)
    then obtain v where "eval_word cx M l = Inr v" "v \<noteq> 0" using "5.prems"(4) CmpB by (auto split: sum.splits)
    then show ?thesis using "5.IH"(2) [OF CmpB op(1) op(2) "5.prems"(2,3)] by blast
  qed (use "5.prems"(1) in simp_all)
next
  case (9 cx target ctx c cs)
  then show ?case by (cases "forces_expr_const_with_context cx target ctx c") auto
qed (simp_all add: eval_all_True)

section \<open>What is implied holds\<close>

text \<open>Two words that both have a value, the first at most the second, unless they are the same word.\<close>

definition word_le :: "SymCx \<Rightarrow> model \<Rightarrow> SymExpr \<Rightarrow> SymExpr \<Rightarrow> bool" where
  "word_le cx M l r \<longleftrightarrow> l = r \<or> (\<exists>a b. eval_word cx M l = Inr a \<and> eval_word cx M r = Inr b \<and> a \<le> b)"

lemma word_leD:
  "word_le cx M l r \<Longrightarrow> eval_word cx M l = Inr a \<Longrightarrow> \<exists>b. eval_word cx M r = Inr b \<and> a \<le> b"
  "word_le cx M l r \<Longrightarrow> eval_word cx M r = Inr b \<Longrightarrow> \<exists>a. eval_word cx M l = Inr a \<and> a \<le> b"
  by (auto simp: word_le_def)

lemma cmp_value:
  "eval_bool cx M (CmpB op l r) = Inr x \<Longrightarrow>
   \<exists>a b. eval_word cx M l = Inr a \<and> eval_word cx M r = Inr b \<and> x = eval_cmp cx op a b"
  by (auto split: sum.splits)

declare implies_unsigned_less_or_equal.simps [simp del]

lemma implies_step:
  assumes "l \<noteq> r" "n \<noteq> 0"
  shows "implies_unsigned_less_or_equal (ConstB b) e l r n = (False, n - 1)"
    "implies_unsigned_less_or_equal (NotB d) e l r n = implies_unsigned_less_or_equal d (\<not> e) l r (n - 1)"
    "implies_unsigned_less_or_equal (AndB cs) e l r n =
       (if e then any_implies_unsigned_less_or_equal cs l r (n - 1) else (False, n - 1))"
    "implies_unsigned_less_or_equal (CmpB op fl fr) e l r n =
       (if (op = Ult \<or> op = Ule) \<and> e \<or> (op = Uge \<or> op = Ugt) \<and> \<not> e then fl = l \<and> fr = r
        else if (op = Ult \<or> op = Ule) \<and> \<not> e \<or> (op = Uge \<or> op = Ugt) \<and> e then fr = l \<and> fl = r
        else op = Eq \<and> e \<and> (fl = l \<and> fr = r \<or> fr = l \<and> fl = r), n - 1)"
  using assms by (subst implies_unsigned_less_or_equal.simps; auto simp: Let_def split: SymCmpOp.splits bool.splits)+

lemma implied_order_sound:
  "implies_unsigned_less_or_equal c expected l r n = (True, n') \<Longrightarrow> eval_bool cx M c = Inr expected \<Longrightarrow> word_le cx M l r"
  "any_implies_unsigned_less_or_equal cs l r n = (True, n') \<Longrightarrow> holds_all cx M cs \<Longrightarrow> word_le cx M l r"
proof (induction c expected l r n and cs l r n arbitrary: n' and n'
    rule: implies_unsigned_less_or_equal_any_implies_unsigned_less_or_equal.induct)
  case (1 c expected l r n)
  show ?case
  proof (cases "l = r")
    case ne: False
    with "1.prems"(1) have n: "n \<noteq> 0" by (auto simp: implies_unsigned_less_or_equal.simps [of c] split: if_splits)
    note step = implies_step [OF ne n]
    show ?thesis
    proof (cases c)
      case (NotB d)
      have "eval_bool cx M d = Inr (\<not> expected)" using "1.prems"(2) NotB by (auto split: sum.splits)
      then show ?thesis using "1.IH"(1) [OF ne n refl NotB] "1.prems"(1) step(2) NotB by simp
    next
      case (AndB cs)
      with "1.prems"(1) step(3) have e: "expected" "any_implies_unsigned_less_or_equal cs l r (n - 1) = (True, n')"
        by (auto split: if_splits)
      then show ?thesis using "1.IH"(2) [OF ne n refl AndB e(1)] "1.prems"(2) AndB by (simp add: eval_all_True)
    next
      case (CmpB op fl fr)
      with "1.prems"(2) obtain a b where "eval_word cx M fl = Inr a" "eval_word cx M fr = Inr b" "expected = eval_cmp cx op a b"
        using cmp_value by blast
      then show ?thesis using "1.prems"(1) CmpB step(4)
        by (cases op) (auto simp: word_le_def not_less not_le split: if_splits)
    qed (use "1.prems"(1) step(1) in simp)
  qed (simp add: word_le_def)
next
  case (3 c cs l r n)
  then show ?case by (auto split: prod.splits bool.splits)
qed simp

section \<open>Bounds hold\<close>

definition bounds_value :: "SymCx \<Rightarrow> model \<Rightarrow> SymExpr \<Rightarrow> nat option \<Rightarrow> bool" where
  "bounds_value cx M e bound \<longleftrightarrow>
     (\<forall>b v. bound = Some b \<longrightarrow> eval_word cx M e = Inr v \<longrightarrow> unat v \<le> b)"

lemma bounds_valueI: "(\<And>b v. bound = Some b \<Longrightarrow> eval_word cx M e = Inr v \<Longrightarrow> unat v \<le> b) \<Longrightarrow> bounds_value cx M e bound"
  by (simp add: bounds_value_def)

lemma bounds_valueD: "bounds_value cx M e (Some b) \<Longrightarrow> eval_word cx M e = Inr v \<Longrightarrow> unat v \<le> b"
  by (simp add: bounds_value_def)

lemma bounds_value_None [simp]: "bounds_value cx M e None"
  by (simp add: bounds_value_def)

lemma bounds_min_bound: "bounds_value cx M e a \<Longrightarrow> bounds_value cx M e b \<Longrightarrow> bounds_value cx M e (min_bound a b)"
  by (auto simp: bounds_value_def min_bound_def split: option.splits)

lemma bounds_foldl:
  "bounds_value cx M e a \<Longrightarrow> (\<And>b. b \<in> set bs \<Longrightarrow> bounds_value cx M e b) \<Longrightarrow> bounds_value cx M e (foldl min_bound a bs)"
  by (induction bs arbitrary: a) (simp_all add: bounds_min_bound)

lemma usize_try_from_Some: "usize_try_from v = Some n \<longleftrightarrow> n = unat v \<and> unat v \<le> USIZE_MAX"
  by (auto simp: usize_try_from_def)

lemma below_const_Some: "below_const e = Some n \<Longrightarrow> \<exists>k. e = Const k \<and> k \<noteq> 0 \<and> n = unat k - 1"
  by (auto simp: below_const_def bind_eq_Some_conv usize_try_from_Some unat_minus_one split: if_splits)

lemma upper_bound_usize_sound:
  "eval_bool cx M c = Inr True \<Longrightarrow> bounds_value cx M e (upper_bound_usize e c)"
proof (induction e c rule: upper_bound_usize.induct)
  case (3 e cs)
  then have "holds_all cx M cs" by (simp add: eval_all_True)
  then show ?case using "3.IH" by (auto simp: holds_all_def list_all_iff intro!: bounds_foldl)
next
  case (4 e op l r)
  obtain a b where ab: "eval_word cx M l = Inr a" "eval_word cx M r = Inr b" "eval_cmp cx op a b"
    using cmp_value [OF "4.prems"] by auto
  show ?case
  proof (rule bounds_valueI)
    fix n v assume n: "upper_bound_usize e (CmpB op l r) = Some n" and v: "eval_word cx M e = Inr v"
    show "unat v \<le> n"
      using n v ab below_const_Some [of l n] below_const_Some [of r n]
      by (cases op) (auto simp: bind_eq_Some_conv usize_try_from_Some word_le_nat_alt word_less_nat_alt split: if_splits)
  qed
qed simp_all

section \<open>Differences hold\<close>

definition differs_by :: "SymCx \<Rightarrow> model \<Rightarrow> SymExpr \<Rightarrow> SymExpr \<Rightarrow> u256 option \<Rightarrow> bool" where
  "differs_by cx M l r d \<longleftrightarrow>
     (\<forall>k a b. d = Some k \<longrightarrow> eval_word cx M l = Inr a \<longrightarrow> eval_word cx M r = Inr b \<longrightarrow> a - b = k)"

definition differences_ok :: "SymCx \<Rightarrow> model \<Rightarrow> differences \<Rightarrow> bool" where
  "differences_ok cx M D \<longleftrightarrow> (\<forall>l r d. D (l, r) = Some d \<longrightarrow> differs_by cx M l r d)"

lemma differences_ok_upd: "differences_ok cx M D \<Longrightarrow> differs_by cx M l r d \<Longrightarrow> differences_ok cx M (D((l, r) \<mapsto> d))"
  by (simp add: differences_ok_def)

lemma differs_by_None [simp]: "differs_by cx M l r None"
  by (simp add: differs_by_def)

lemma differs_by_left:
  assumes "const_arm l = Some (add, v, k)" "differs_by cx M v r d"
  shows "differs_by cx M l r (map_option (\<lambda>d. if add then d + k else d - k) d)"
  using assms const_arm_Some [OF assms(1)] by (auto simp: differs_by_def split: sum.splits)

lemma differs_by_right:
  assumes "const_arm r = Some (add, v, k)" "differs_by cx M l v d"
  shows "differs_by cx M l r (map_option (\<lambda>d. if add then d - k else d + k) d)"
  using assms const_arm_Some [OF assms(1)] by (auto simp: differs_by_def split: sum.splits)

lemma differs_by_Ite:
  assumes "differs_by cx M lt rt (Some d)" "differs_by cx M le re (Some d)"
  shows "differs_by cx M (Ite c lt le) (Ite c rt re) (Some d)"
  using assms by (auto simp: differs_by_def split: sum.splits if_splits)

definition difference_result :: "SymCx \<Rightarrow> model \<Rightarrow> SymExpr \<Rightarrow> SymExpr \<Rightarrow> u256 option \<times> differences \<times> nat \<Rightarrow> bool" where
  "difference_result cx M l r res \<longleftrightarrow> (case res of (d, D, n) \<Rightarrow> differs_by cx M l r d \<and> differences_ok cx M D)"

lemma difference_result_remember:
  "differs_by cx M l r d \<Longrightarrow> differences_ok cx M D \<Longrightarrow> difference_result cx M l r (remember_difference l r d D n)"
  by (simp add: difference_result_def remember_difference_def differences_ok_upd del: fun_upd_apply)

declare constant_difference_cached.simps [simp del]

lemma constant_difference_ites:
  assumes "Ite c lt le \<noteq> Ite c rt re" "D (Ite c lt le, Ite c rt re) = None" "n \<noteq> 0"
  shows "constant_difference_cached (Ite c lt le) (Ite c rt re) D n =
    (case constant_difference_cached lt rt D (n - 1) of
       (None, D, n) \<Rightarrow> (None, D, n)
     | (Some td, D, n) \<Rightarrow>
    (case constant_difference_cached le re D n of
       (None, D, n) \<Rightarrow> (None, D, n)
     | (Some ed, D, n) \<Rightarrow>
         remember_difference (Ite c lt le) (Ite c rt re) (if td = ed then Some td else None) D n))"
  using assms by (subst constant_difference_cached.simps) auto

lemma constant_difference_arms:
  assumes "l \<noteq> r" "D (l, r) = None" "n \<noteq> 0" "\<nexists>a b. l = Const a \<and> r = Const b"
    "\<nexists>c lt le rt re. l = Ite c lt le \<and> r = Ite c rt re"
  shows "constant_difference_cached l r D n =
    (case const_arm l of
       Some (add, v, k) \<Rightarrow>
         (case constant_difference_cached v r D (n - 1) of (d, D, n) \<Rightarrow>
           remember_difference l r (map_option (\<lambda>d. if add then d + k else d - k) d) D n)
     | None \<Rightarrow>
    (case const_arm r of
       Some (add, v, k) \<Rightarrow>
         (case constant_difference_cached l v D (n - 1) of (d, D, n) \<Rightarrow>
           remember_difference l r (map_option (\<lambda>d. if add then d - k else d + k) d) D n)
     | None \<Rightarrow> remember_difference l r None D (n - 1)))"
  using assms by (subst constant_difference_cached.simps) (auto split: SymExpr.splits)

lemma constant_difference_cached_sound:
  "differences_ok cx M D \<Longrightarrow> difference_result cx M l r (constant_difference_cached l r D n)"
proof (induction "size l + size r" arbitrary: l r D n rule: less_induct)
  case less
  note IH = less.hyps and ok = less.prems
  consider (same) "l = r" | (cached) d where "l \<noteq> r" "D (l, r) = Some d" | (spent) "l \<noteq> r" "D (l, r) = None" "n = 0"
    | (both) a b where "l \<noteq> r" "D (l, r) = None" "n \<noteq> 0" "l = Const a" "r = Const b"
    | (ites) c lt le rt re where "l \<noteq> r" "D (l, r) = None" "n \<noteq> 0" "l = Ite c lt le" "r = Ite c rt re"
    | (arms) "l \<noteq> r" "D (l, r) = None" "n \<noteq> 0" "\<nexists>a b. l = Const a \<and> r = Const b"
        "\<nexists>c lt le rt re. l = Ite c lt le \<and> r = Ite c rt re"
    by (cases "D (l, r)"; cases "n = 0"; cases "l = r") (auto, blast)
  then show ?case
  proof cases
    case same
    with ok show ?thesis by (subst constant_difference_cached.simps) (simp add: difference_result_def differs_by_def)
  next
    case cached
    with ok show ?thesis
      by (subst constant_difference_cached.simps) (simp add: difference_result_def differences_ok_def)
  next
    case spent
    with ok show ?thesis by (subst constant_difference_cached.simps) (simp add: difference_result_def)
  next
    case both
    with ok show ?thesis
      by (subst constant_difference_cached.simps) (auto simp: differs_by_def intro!: difference_result_remember)
  next
    case ites
    note eq = constant_difference_ites [where D = D, OF ites(1,2) [unfolded ites(4,5)] ites(3)]
    obtain td D1 n1 where t: "constant_difference_cached lt rt D (n - 1) = (td, D1, n1)" by (metis prod_cases3)
    have T: "differs_by cx M lt rt td" "differences_ok cx M D1"
      using IH [of lt rt D "n - 1"] ok t ites(4,5) by (auto simp: difference_result_def)
    obtain ed D2 n2 where e: "constant_difference_cached le re D1 n1 = (ed, D2, n2)" by (metis prod_cases3)
    have E: "differs_by cx M le re ed" "differences_ok cx M D2"
      using IH [of le re D1 n1] T(2) e ites(4,5) by (auto simp: difference_result_def)
    show ?thesis
      using eq t e T E ites(4,5) differs_by_Ite [of cx M lt rt _ le re c]
      by (cases td; cases ed) (auto simp: difference_result_def [of _ _ _ _ "(None, _)"] intro!: difference_result_remember)
  next
    case arms
    note eq = constant_difference_arms [where D = D, OF arms]
    have left: ?thesis if a: "const_arm l = Some (add, v, k)" for add v k
    proof -
      obtain d D1 n1 where v: "constant_difference_cached v r D (n - 1) = (d, D1, n1)" by (metis prod_cases3)
      have "differs_by cx M v r d" "differences_ok cx M D1"
        using IH [of v r D "n - 1"] ok v const_arm_size [OF a] by (auto simp: difference_result_def)
      with eq a v show ?thesis using differs_by_left [OF a] difference_result_remember by simp
    qed
    have right: ?thesis if a: "const_arm l = None" "const_arm r = Some (add, v, k)" for add v k
    proof -
      obtain d D1 n1 where v: "constant_difference_cached l v D (n - 1) = (d, D1, n1)" by (metis prod_cases3)
      have "differs_by cx M l v d" "differences_ok cx M D1"
        using IH [of l v D "n - 1"] ok v const_arm_size [OF a(2)] by (auto simp: difference_result_def)
      with eq a v show ?thesis using differs_by_right [OF a(2)] difference_result_remember by simp
    qed
    show ?thesis
      using left right eq ok difference_result_remember [of cx M l r None D]
      by (cases "const_arm l"; cases "const_arm r") auto
  qed
qed

lemma constant_difference_sound:
  assumes "constant_difference l r = Some d" "eval_word cx M l = Inr a" "eval_word cx M r = Inr b"
  shows "a - b = d"
proof -
  obtain D n where D: "constant_difference_cached l r Map.empty MAX_CONSTANT_DIFFERENCE_VISITS = (Some d, D, n)"
    using assms(1) unfolding constant_difference_def by (metis prod.collapse)
  have "differences_ok cx M Map.empty" by (simp add: differences_ok_def)
  from constant_difference_cached_sound [OF this, of l r MAX_CONSTANT_DIFFERENCE_VISITS] D assms(2,3) show ?thesis
    by (simp add: difference_result_def differs_by_def)
qed

section \<open>Words as conditions keep their value\<close>

lemma zero_bool_sound:
  assumes "evm_signed_laws cx" "eval_word cx M e = Inr v"
  shows "eval_bool cx M (into_zero_bool cx e) = Inr (v = 0)" "eval_bool cx M (nonzero_bool cx e) = Inr (v \<noteq> 0)"
proof -
  have eq: "eval_bool cx M (cmp cx Eq e (Const 0)) = Inr (v = 0)"
    using cmp_sound [OF assms(1) _ assms(2), of "Const 0" 0 Eq] by simp
  show z: "eval_bool cx M (into_zero_bool cx e) = Inr (v = 0)"
  proof (cases "\<exists>c. e = Ite c (Const 1) (Const 0)")
    case True
    then obtain c where e: "e = Ite c (Const 1) (Const 0)" by blast
    then obtain b where "eval_bool cx M c = Inr b" using assms(2) by (auto split: sum.splits)
    with e assms(2) show ?thesis
      by (cases b) (simp_all add: into_zero_bool_def bool_word_condition_from_parts_def)
  next
    case False
    with eq assms(2) show ?thesis
      by (cases e) (auto simp: into_zero_bool_def bool_word_condition_from_parts_def split: if_splits)
  qed
  then show "eval_bool cx M (nonzero_bool cx e) = Inr (v \<noteq> 0)" by (simp add: nonzero_bool_def)
qed

section \<open>The search finds every conditional\<close>

fun has_ite :: "SymExpr \<Rightarrow> bool" where
  "has_ite (Ite c t e) \<longleftrightarrow> True"
| "has_ite (Keccak x len bytes) \<longleftrightarrow> has_ite len \<or> list_ex has_ite bytes"
| "has_ite (Hash x alg bytes) \<longleftrightarrow> list_ex has_ite bytes"
| "has_ite (NotW e) \<longleftrightarrow> has_ite e"
| "has_ite (BinOp op l r) \<longleftrightarrow> has_ite l \<or> has_ite r"
| "has_ite (TernOp op l r m) \<longleftrightarrow> has_ite l \<or> has_ite r \<or> has_ite m"
| "has_ite _ \<longleftrightarrow> False"

text \<open>
  While the search is inside the nodes \<open>P\<close>, every other visited node has been found to be without
  a conditional. Nodes of \<open>P\<close> are larger than the node that is searched, so they are not met again.
\<close>

definition clean :: "SymExpr set \<Rightarrow> SymExpr set \<Rightarrow> bool" where
  "clean P V \<longleftrightarrow> (\<forall>e \<in> V - P. \<not> has_ite e)"

definition searches :: "SymExpr set \<Rightarrow> bool \<Rightarrow> bool \<times> SymExpr set \<Rightarrow> bool" where
  "searches P found res \<longleftrightarrow> fst res = found \<and> (\<not> found \<longrightarrow> clean P (snd res))"

lemma searches_seq:
  assumes "searches P f res" "\<And>V. \<not> f \<Longrightarrow> clean P V \<Longrightarrow> searches P g (k V)"
  shows "searches P (f \<or> g) (case res of (True, V) \<Rightarrow> (True, V) | (False, V) \<Rightarrow> k V)"
  using assms by (cases res) (auto simp: searches_def split: bool.splits)

lemma searches_any:
  assumes "\<And>e V. e \<in> set es \<Longrightarrow> clean P V \<Longrightarrow> searches P (has_ite e) (contains_ite_cached e V True)" "clean P V"
  shows "searches P (list_ex has_ite es) (any_contains_ite es V)"
  using assms
proof (induction es arbitrary: V)
  case Nil
  then show ?case by (simp add: searches_def)
next
  case (Cons e es)
  then show ?case by (simp add: searches_seq)
qed

lemma searches_leave:
  assumes "searches (insert e P) (has_ite e) res"
  shows "searches P (has_ite e) res"
  using assms by (auto simp: searches_def clean_def)

declare contains_ite_cached.simps [simp del]

lemma contains_ite_leaf:
  "contains_ite_cached (Const v) V m = (False, V)" "contains_ite_cached (Var x) V m = (False, V)"
  "contains_ite_cached (GasLeft x) V m = (False, V)" "contains_ite_cached (Ite c t f) V m = (True, V)"
  by (subst contains_ite_cached.simps; simp)+

definition enter :: "SymExpr \<Rightarrow> bool \<Rightarrow> SymExpr set \<Rightarrow> SymExpr set" where
  "enter e m V = (if m then insert e V else V)"

lemma contains_ite_seen:
  "e \<in> V \<Longrightarrow> \<forall>c t f. e \<noteq> Ite c t f \<Longrightarrow> contains_ite_cached e V True = (False, V)"
  by (subst contains_ite_cached.simps) (simp split: SymExpr.splits)

lemma contains_ite_node:
  assumes "\<not> (m \<and> e \<in> V)"
  shows "e = Keccak x len bytes \<Longrightarrow> contains_ite_cached e V m =
      (case contains_ite_cached len (enter e m V) True of (True, W) \<Rightarrow> (True, W) | (False, W) \<Rightarrow> any_contains_ite bytes W)"
    "e = Hash x alg bytes \<Longrightarrow> contains_ite_cached e V m = any_contains_ite bytes (enter e m V)"
    "e = NotW d \<Longrightarrow> contains_ite_cached e V m = contains_ite_cached d (enter e m V) True"
    "e = BinOp op l r \<Longrightarrow> contains_ite_cached e V m =
      (case contains_ite_cached l (enter e m V) True of (True, W) \<Rightarrow> (True, W) | (False, W) \<Rightarrow> contains_ite_cached r W True)"
    "e = TernOp o3 l r k \<Longrightarrow> contains_ite_cached e V m =
      (case contains_ite_cached l (enter e m V) True of (True, W) \<Rightarrow> (True, W) | (False, W) \<Rightarrow>
        (case contains_ite_cached r W True of (True, W) \<Rightarrow> (True, W) | (False, W) \<Rightarrow> contains_ite_cached k W True))"
  using assms by (subst contains_ite_cached.simps; simp add: enter_def Let_def)+

lemma contains_ite_cached_searches:
  assumes "clean P V" "\<And>p. p \<in> P \<Longrightarrow> size e < size p"
  shows "searches P (has_ite e) (contains_ite_cached e V memoize)"
  using assms
proof (induction "size e" arbitrary: e P V memoize rule: less_induct)
  case less
  have V1: "clean (insert e P) (enter e memoize V)" using less.prems(1) by (auto simp: clean_def enter_def)
  have sub: "searches (insert e P) (has_ite d) (contains_ite_cached d W True)"
    if "size d < size e" "clean (insert e P) W" for d W
    by (rule less.hyps [OF that]) (use that(1) less.prems(2) in \<open>auto dest: less_trans\<close>)
  have list: "searches (insert e P) (list_ex has_ite es) (any_contains_ite es W)"
    if "\<And>d. d \<in> set es \<Longrightarrow> size d < size e" "clean (insert e P) W" for es W
    by (rule searches_any [OF _ that(2)], rule sub [OF that(1)])
  have elem: "size d \<le> size_list size es" if "d \<in> set es" for d and es :: "SymExpr list"
    using size_list_estimation' [OF that, of "size d" size] by simp
  show ?case
  proof (cases "memoize \<and> e \<in> V \<and> (\<forall>c t f. e \<noteq> Ite c t f)")
    case True
    then have "contains_ite_cached e V memoize = (False, V)" using contains_ite_seen [of e V] by simp
    moreover have "e \<notin> P" using less.prems(2) by blast
    with True less.prems(1) have "\<not> has_ite e" by (simp add: clean_def)
    ultimately show ?thesis using less.prems(1) by (simp add: searches_def)
  next
    case False
    show ?thesis
    proof (cases "\<exists>c t f. e = Ite c t f")
      case True
      then show ?thesis by (auto simp: contains_ite_leaf searches_def)
    next
      case ni: False
      with False have "\<not> (memoize \<and> e \<in> V)" by blast
      note node = contains_ite_node [OF this]
      show ?thesis
      proof (cases e)
        case (Keccak x len bytes)
        have "searches (insert e P) (has_ite len \<or> list_ex has_ite bytes) (contains_ite_cached e V memoize)"
          unfolding node(1) [OF Keccak]
          by (rule searches_seq, rule sub [OF _ V1], simp add: Keccak, rule list)
            (use elem [of _ bytes] in \<open>auto simp: Keccak less_Suc_eq_le intro: trans_le_add1\<close>)
        then show ?thesis by - (rule searches_leave, simp add: Keccak)
      next
        case (Hash x alg bytes)
        have "searches (insert e P) (list_ex has_ite bytes) (contains_ite_cached e V memoize)"
          unfolding node(2) [OF Hash]
          by (rule list [OF _ V1]) (use elem [of _ bytes] in \<open>auto simp: Hash less_Suc_eq_le\<close>)
        then show ?thesis by - (rule searches_leave, simp add: Hash)
      next
        case (NotW d)
        have "searches (insert e P) (has_ite d) (contains_ite_cached e V memoize)"
          unfolding node(3) [OF NotW] by (rule sub [OF _ V1]) (simp add: NotW)
        then show ?thesis by - (rule searches_leave, simp add: NotW)
      next
        case (BinOp op l r)
        have "searches (insert e P) (has_ite l \<or> has_ite r) (contains_ite_cached e V memoize)"
          unfolding node(4) [OF BinOp]
          by (rule searches_seq, rule sub [OF _ V1], simp add: BinOp, rule sub, simp add: BinOp)
        then show ?thesis by - (rule searches_leave, simp add: BinOp)
      next
        case (TernOp op l r m)
        have "searches (insert e P) (has_ite l \<or> has_ite r \<or> has_ite m) (contains_ite_cached e V memoize)"
          unfolding node(5) [OF TernOp]
          by (rule searches_seq, rule sub [OF _ V1], simp add: TernOp, rule searches_seq, rule sub, simp add: TernOp,
              assumption, rule sub, simp add: TernOp)
        then show ?thesis by - (rule searches_leave, simp add: TernOp)
      qed (use ni less.prems(1) in \<open>simp_all add: contains_ite_leaf searches_def\<close>)
    qed
  qed
qed

section \<open>Properties\<close>

text \<open>
  C16: the constant that a path condition is said to force is the value of the word. If a condition of
  the path forces a constant on a word, given the path as context, then the word has that value
  under every model in which the path holds.
\<close>

theorem forced_constant_holds:
  assumes "forces_expr_const_with_context cx target path c = Some w" "c \<in> set path" "holds_all cx M path"
    "eval_word cx M target = Inr x"
  shows "x = w"
proof -
  have "eval_bool cx M c = Inr True" using assms(2,3) by (simp add: holds_all_def list_all_iff)
  then show ?thesis using forced_const_sound(2) [OF assms(1,3,4)] by simp
qed

definition masked_path :: "SymBoolExpr list" where
  "masked_path = [CmpB Eq (BinOp And (Var 0) (Const 0xff)) (Const 9), CmpB Eq (Var 0) (BinOp And (Var 0) (Const 0xff))]"

theorem forced_constant_holds_witness:
  "forces_expr_const_with_context evm_cx (Var 0) masked_path (hd masked_path) = Some 9 \<and>
    (\<exists>x. eval_word evm_cx [0 \<mapsto> 9] (Var 0) = Inr x \<and> x = 9)"
proof -
  have w: "forces_expr_const_with_context evm_cx (Var 0) masked_path (hd masked_path) = Some 9"
    by (simp add: masked_path_def equality_forces_const_def equality_forces_const_inner_def masked_expr_matches_def)
  have v: "hd masked_path \<in> set masked_path" "holds_all evm_cx [0 \<mapsto> 9] masked_path" "eval_word evm_cx [0 \<mapsto> 9] (Var 0) = Inr 9"
    by (simp_all add: masked_path_def)
  show ?thesis using w v(3) forced_constant_holds [OF w v] by blast
qed

text \<open>
  C17: an order that a condition is said to imply holds. When \<open>implies_unsigned_less_or_equal\<close> answers yes
  for a condition and its expected truth value, then under every model that gives the condition this
  value the first word is at most the second, as unsigned words.
\<close>

theorem implied_order_holds:
  assumes "fst (implies_unsigned_less_or_equal c expected l r budget)" "eval_bool cx M c = Inr expected"
    "eval_word cx M l = Inr a" "eval_word cx M r = Inr b"
  shows "a \<le> b"
proof -
  obtain n where "implies_unsigned_less_or_equal c expected l r budget = (True, n)"
    using assms(1) by (metis prod.collapse)
  from implied_order_sound(1) [OF this assms(2)] assms(3,4) show ?thesis by (auto simp: word_le_def)
qed

theorem implied_order_holds_witness:
  "fst (implies_unsigned_less_or_equal (NotB (AndB [CmpB Ult (Var 1) (Var 0)])) False (Var 1) (Var 0) 5) \<and>
    (\<exists>a b. eval_word evm_cx [0 \<mapsto> 7, 1 \<mapsto> 3] (Var 1) = Inr a \<and> eval_word evm_cx [0 \<mapsto> 7, 1 \<mapsto> 3] (Var 0) = Inr b \<and> a \<le> b)"
proof -
  let ?c = "NotB (AndB [CmpB Ult (Var 1) (Var 0)])" and ?M = "[0 \<mapsto> 7, 1 \<mapsto> 3] :: symbol \<rightharpoonup> u256"
  have i: "fst (implies_unsigned_less_or_equal ?c False (Var 1) (Var 0) 5)" by (simp add: implies_unsigned_less_or_equal.simps)
  have v: "eval_bool evm_cx ?M ?c = Inr False" "eval_word evm_cx ?M (Var 1) = Inr 3" "eval_word evm_cx ?M (Var 0) = Inr 7"
    by simp_all
  show ?thesis using i v(2,3) implied_order_holds [OF i v] by blast
qed

text \<open>
  C18: the constant difference of two words is their difference modulo the word size, under every model.
\<close>

theorem constant_difference_holds:
  assumes "constant_difference l r = Some d" "eval_word cx M l = Inr a" "eval_word cx M r = Inr b"
  shows "a = b + d"
  using constant_difference_sound [OF assms] by (simp add: algebra_simps)

theorem constant_difference_holds_witness:
  "constant_difference (BinOp Add (Var 0) (Const 5)) (BinOp Add (Var 0) (Const 2)) = Some 3 \<and>
    (\<exists>a b. eval_word evm_cx [0 \<mapsto> 2] (BinOp Add (Var 0) (Const 5)) = Inr a \<and>
       eval_word evm_cx [0 \<mapsto> 2] (BinOp Add (Var 0) (Const 2)) = Inr b \<and> a = b + 3)"
proof -
  let ?l = "BinOp Add (Var 0) (Const 5)" and ?r = "BinOp Add (Var 0) (Const 2)"
  have d: "constant_difference ?l ?r = Some 3"
    by (simp add: constant_difference_def constant_difference_cached.simps MAX_CONSTANT_DIFFERENCE_VISITS_def
      remember_difference_def)
  have v: "eval_word evm_cx [0 \<mapsto> 2] ?l = Inr 7" "eval_word evm_cx [0 \<mapsto> 2] ?r = Inr 4" by simp_all
  show ?thesis using d v constant_difference_holds [OF d v] by blast
qed

text \<open>
  C21: the search for a conditional, which visits each shared node once, finds one exactly if there is
  one in the tree.
\<close>

theorem contains_ite_is_has_ite: "contains_ite e = has_ite e"
  using contains_ite_cached_searches [of "{}" "{}" e False] by (simp add: contains_ite_def searches_def clean_def)

text \<open>
  C22: the conditions built from a word say whether it is zero, and whether it is not, under every
  model that gives the word a value.
\<close>

theorem zero_conditions_decide:
  assumes "evm_signed_laws cx" "eval_word cx M e = Inr v"
  shows "eval_bool cx M (into_zero_bool cx e) = Inr (v = 0) \<and> eval_bool cx M (nonzero_bool cx e) = Inr (v \<noteq> 0)"
  using zero_bool_sound [OF assms] by simp

theorem zero_conditions_decide_witness:
  "eval_bool evm_cx [0 \<mapsto> 9] (nonzero_bool evm_cx (Ite (CmpB Ult (Var 0) (Const 3)) (Const 1) (Const 0))) = Inr False"
  using zero_conditions_decide [OF evm_cx_laws, of "[0 \<mapsto> 9]" "Ite (CmpB Ult (Var 0) (Const 3)) (Const 1) (Const 0)" 0] by simp

end
