(* ===== verification/Memo_State.thy ===== *)
theory Memo_State
  imports "HOL-Library.State_Monad"
begin

text \<open>
  Invariants of computations in the state monad, and the interface of a memo table. Several analyses
  of the source thread one or more hash maps and a visit budget through a recursion; \<open>keeps\<close> says that
  such a computation keeps an invariant of its state and that its result has a property, and the locale
  \<open>memo_table\<close> gives the two rules for a table whose entries are correct results.
\<close>

section \<open>Computations that keep an invariant\<close>

definition keeps :: "('s \<Rightarrow> bool) \<Rightarrow> ('s, 'a) state \<Rightarrow> ('a \<Rightarrow> bool) \<Rightarrow> bool" where
  "keeps I m P \<longleftrightarrow> (\<forall>s. I s \<longrightarrow> P (fst (run_state m s)) \<and> I (snd (run_state m s)))"

named_theorems keeps_intros "rules for computations that keep an invariant"

lemma keepsI: "(\<And>s. I s \<Longrightarrow> P (fst (run_state m s)) \<and> I (snd (run_state m s))) \<Longrightarrow> keeps I m P"
  by (simp add: keeps_def)

lemma keepsD:
  assumes "keeps I m P" "I s"
  shows "P (fst (run_state m s))" "I (snd (run_state m s))"
  using assms by (simp_all add: keeps_def)

lemma keeps_return [keeps_intros]: "P a \<Longrightarrow> keeps I (State_Monad.return a) P"
  by (simp add: keeps_def)

lemma keeps_bind [keeps_intros]:
  assumes "keeps I m Q" "\<And>a. Q a \<Longrightarrow> keeps I (f a) P"
  shows "keeps I (State_Monad.bind m f) P"
  using assms by (auto simp: keeps_def split: prod.splits)

lemma keeps_get [keeps_intros]: "(\<And>s. I s \<Longrightarrow> P s) \<Longrightarrow> keeps I State_Monad.get P"
  by (simp add: keeps_def)

lemma keeps_get_bind:
  assumes "\<And>s. I s \<Longrightarrow> keeps I (f s) P"
  shows "keeps I (State_Monad.bind State_Monad.get f) P"
  using assms by (simp add: keeps_def)

lemma keeps_update [keeps_intros]:
  "(\<And>s. I s \<Longrightarrow> I (f s)) \<Longrightarrow> keeps I (State_Monad.update f) (\<lambda>_. True)"
  by (simp add: keeps_def State_Monad.update_def)

lemma keeps_weaken: "keeps I m Q \<Longrightarrow> (\<And>a. Q a \<Longrightarrow> P a) \<Longrightarrow> keeps I m P"
  by (simp add: keeps_def)

lemma keeps_if [keeps_intros]:
  "(b \<Longrightarrow> keeps I m P) \<Longrightarrow> (\<not> b \<Longrightarrow> keeps I n P) \<Longrightarrow> keeps I (if b then m else n) P"
  by simp

section \<open>The interface of a memo table\<close>

locale memo_table =
  fixes lookup :: "'s \<Rightarrow> 'k \<Rightarrow> 'v option" and store :: "'k \<Rightarrow> 'v \<Rightarrow> 's \<Rightarrow> 's"
    and valid :: "'k \<Rightarrow> 'v \<Rightarrow> bool" and I :: "'s \<Rightarrow> bool"
  assumes entries_valid: "I s \<Longrightarrow> lookup s k = Some v \<Longrightarrow> valid k v"
    and store_inv: "I s \<Longrightarrow> valid k v \<Longrightarrow> I (store k v s)"
begin

lemma keeps_store:
  assumes "keeps I m (valid k)"
  shows "keeps I (State_Monad.bind m (\<lambda>v. State_Monad.bind (State_Monad.update (store k v)) (\<lambda>_. State_Monad.return v)))
    (valid k)"
  using assms store_inv
  by (intro keeps_bind [where Q = "valid k"] keeps_bind [where Q = "\<lambda>_. True"] keeps_update keeps_return)

lemma keeps_cached:
  assumes "\<And>s. I s \<Longrightarrow> lookup s k = None \<Longrightarrow> keeps I m (valid k)"
  shows "keeps I (State_Monad.bind State_Monad.get (\<lambda>s.
    case lookup s k of Some v \<Rightarrow> State_Monad.return v | None \<Rightarrow> m)) (valid k)"
  using assms entries_valid by (intro keeps_get_bind) (auto intro: keeps_return split: option.splits)

end

end
