(* ===== verification/Sym_Bounds.thy ===== *)
theory Sym_Bounds
  imports Sym_Facts Memo_State
begin

text \<open>
  The bound analysis of the path state (crates/evm/symbolic/src/runtime/state.rs): upper and lower bounds of a
  word as a host integer, from the path constraints and from the structure of the word, and
  the value to which the constraints pin a word. The analysis threads three memo tables and a visit
  budget; every answer holds under every model of the path constraints.
\<close>

section \<open>The state of the analysis\<close>

definition MAX_BOUND_ANALYSIS_VISITS :: nat where
  "MAX_BOUND_ANALYSIS_VISITS = 256"

record BoundAnalysis =
  upper_bounds :: "SymExpr \<rightharpoonup> nat option"
  lower_bounds :: "SymExpr \<rightharpoonup> nat"
  ordering :: "(SymExpr \<times> SymExpr) \<rightharpoonup> bool"
  remaining :: nat

definition analysis_start :: BoundAnalysis where
  "analysis_start = \<lparr>upper_bounds = Map.empty, lower_bounds = Map.empty, ordering = Map.empty,
     remaining = MAX_BOUND_ANALYSIS_VISITS\<rparr>"

type_synonym 'a analysis = "(BoundAnalysis, 'a) state"

text \<open>\<open>remaining.checked_sub(1)\<close>: whether there was a visit left.\<close>

definition spend :: "bool analysis" where
  "spend = State (\<lambda>s. if remaining s = 0 then (False, s) else (True, s\<lparr>remaining := remaining s - 1\<rparr>))"

definition implies_m :: "SymBoolExpr \<Rightarrow> bool \<Rightarrow> SymExpr \<Rightarrow> SymExpr \<Rightarrow> bool analysis" where
  "implies_m c expected l r =
     State (\<lambda>s. case implies_unsigned_less_or_equal c expected l r (remaining s) of (b, n) \<Rightarrow> (b, s\<lparr>remaining := n\<rparr>))"

definition store_upper :: "SymExpr \<Rightarrow> nat option \<Rightarrow> BoundAnalysis \<Rightarrow> BoundAnalysis" where
  "store_upper e b s = s\<lparr>upper_bounds := (upper_bounds s)(e \<mapsto> b)\<rparr>"

definition store_lower :: "SymExpr \<Rightarrow> nat \<Rightarrow> BoundAnalysis \<Rightarrow> BoundAnalysis" where
  "store_lower e b s = s\<lparr>lower_bounds := (lower_bounds s)(e \<mapsto> b)\<rparr>"

definition store_order :: "SymExpr \<times> SymExpr \<Rightarrow> bool \<Rightarrow> BoundAnalysis \<Rightarrow> BoundAnalysis" where
  "store_order k b s = s\<lparr>ordering := (ordering s)(k \<mapsto> b)\<rparr>"

section \<open>Order of two words\<close>

function expressions_are_unsigned_ordered :: "SymExpr \<Rightarrow> SymExpr \<Rightarrow> bool analysis" where
  "expressions_are_unsigned_ordered l r =
     (if l = r then State_Monad.return True
      else do {
        s \<leftarrow> State_Monad.get;
        case ordering s (l, r) of
          Some ordered \<Rightarrow> State_Monad.return ordered
        | None \<Rightarrow> do {
            ok \<leftarrow> spend;
            if \<not> ok then State_Monad.return False
            else do {
              ordered \<leftarrow>
                (case (as_const l, as_const r) of
                   (Some a, Some b) \<Rightarrow> State_Monad.return (a \<le> b)
                 | _ \<Rightarrow>
                     (case l of
                        Ite c t e \<Rightarrow> do {
                          t1 \<leftarrow> implies_m c True t r;
                          t2 \<leftarrow> (if t1 then State_Monad.return True else expressions_are_unsigned_ordered t r);
                          e1 \<leftarrow> implies_m c False e r;
                          e2 \<leftarrow> (if e1 then State_Monad.return True else expressions_are_unsigned_ordered e r);
                          State_Monad.return (t2 \<and> e2)
                        }
                      | _ \<Rightarrow>
                     (case r of
                        Ite c t e \<Rightarrow> do {
                          t1 \<leftarrow> implies_m c True l t;
                          t2 \<leftarrow> (if t1 then State_Monad.return True else expressions_are_unsigned_ordered l t);
                          e1 \<leftarrow> implies_m c False l e;
                          e2 \<leftarrow> (if e1 then State_Monad.return True else expressions_are_unsigned_ordered l e);
                          State_Monad.return (t2 \<and> e2)
                        }
                      | _ \<Rightarrow> State_Monad.return False)));
              State_Monad.update (store_order (l, r) ordered);
              State_Monad.return ordered
            }
          }
      })"
  by pat_completeness auto
termination
  by (relation "measure (\<lambda>(l, r). size l + size r)") auto

section \<open>Upper bounds\<close>

definition constraint_upper_bound_usize :: "SymBoolExpr list \<Rightarrow> SymExpr \<Rightarrow> nat option" where
  "constraint_upper_bound_usize constraints e = foldl min_bound None (map (upper_bound_usize e) constraints)"

definition checked_mul :: "nat \<Rightarrow> nat \<Rightarrow> nat option" where
  "checked_mul a b = (if a * b \<le> USIZE_MAX then Some (a * b) else None)"

text \<open>The last step of the analysis of one word: the constraints and the structure together.\<close>

definition combine_bounds :: "nat option \<Rightarrow> nat option \<Rightarrow> nat option" where
  "combine_bounds a b =
     (case (a, b) of
        (Some x, Some y) \<Rightarrow> Some (min x y)
      | (Some x, None) \<Rightarrow> Some x
      | (None, Some y) \<Rightarrow> Some y
      | (None, None) \<Rightarrow> None)"

text \<open>The bound of \<open>x << shift\<close> from the bound of \<open>x\<close>; \<open>1usize.checked_shl\<close> fails from 64 on.\<close>

definition shl_bound :: "nat option \<Rightarrow> nat \<Rightarrow> nat option" where
  "shl_bound bound shift =
     Option.bind bound (\<lambda>b.
       if b = 0 then Some 0 else if shift < 64 then checked_mul b (2 ^ shift) else None)"

definition udiv_bound :: "nat option \<Rightarrow> SymExpr \<Rightarrow> nat option" where
  "udiv_bound bound r =
     Option.bind bound (\<lambda>b. Option.bind (as_const r) (\<lambda>d.
       if d = 0 then Some 0 else map_option (\<lambda>d. b div d) (usize_try_from d)))"

definition shr_bound :: "nat option \<Rightarrow> SymExpr \<Rightarrow> nat option" where
  "shr_bound bound r =
     Option.bind bound (\<lambda>b. Option.bind (as_const r) (\<lambda>k. map_option (\<lambda>shift.
       if shift \<ge> 64 then 0 else b div 2 ^ shift) (usize_try_from k)))"

text \<open>The bound of a remainder by a constant; for \<open>addmod\<close> and \<open>mulmod\<close> it is the same.\<close>

definition modulus_bound :: "u256 \<Rightarrow> nat option" where
  "modulus_bound m = (if m = 0 then Some 0 else usize_try_from (m - 1))"

definition and_mask :: "SymExpr \<Rightarrow> SymExpr \<Rightarrow> nat option" where
  "and_mask l r =
     (case Option.bind (as_const r) usize_try_from of
        Some m \<Rightarrow> Some m
      | None \<Rightarrow> Option.bind (as_const l) usize_try_from)"

fun expr_upper_bound_usize_cached :: "SymBoolExpr list \<Rightarrow> SymExpr \<Rightarrow> nat option analysis" where
  "expr_upper_bound_usize_cached cs e = do {
     s \<leftarrow> State_Monad.get;
     case upper_bounds s e of
       Some bound \<Rightarrow> State_Monad.return bound
     | None \<Rightarrow>
         (case as_const e of
            Some v \<Rightarrow> State_Monad.return (usize_try_from v)
          | None \<Rightarrow> do {
              bound \<leftarrow> do {
                ok \<leftarrow> spend;
                structural \<leftarrow>
                  (if \<not> ok then State_Monad.return None
                   else case e of
                     Const v \<Rightarrow> State_Monad.return (usize_try_from v)
                   | TernOp op l r m \<Rightarrow>
                       (case as_const m of
                          Some k \<Rightarrow> State_Monad.return (modulus_bound k)
                        | None \<Rightarrow> do {
                            b \<leftarrow> expr_upper_bound_usize_cached cs m;
                            State_Monad.return (Option.bind b (\<lambda>b. if b = 0 then None else Some (b - 1)))
                          })
                   | Ite c l r \<Rightarrow> do {
                       a \<leftarrow> expr_upper_bound_usize_cached cs l;
                       b \<leftarrow> expr_upper_bound_usize_cached cs r;
                       (case (a, b) of
                          (Some x, Some y) \<Rightarrow> State_Monad.return (Some (max x y))
                        | (None, Some y) \<Rightarrow> do {
                            ok \<leftarrow> implies_m c True l r;
                            State_Monad.return (if ok then Some y else None)
                          }
                        | (Some x, None) \<Rightarrow> do {
                            ok \<leftarrow> implies_m c False r l;
                            State_Monad.return (if ok then Some x else None)
                          }
                        | (None, None) \<Rightarrow> State_Monad.return None)
                     }
                   | BinOp op l r \<Rightarrow>
                       (case op of
                          Add \<Rightarrow> do {
                            a \<leftarrow> expr_upper_bound_usize_cached cs l;
                            (case a of
                               None \<Rightarrow> State_Monad.return None
                             | Some x \<Rightarrow> do {
                                 b \<leftarrow> expr_upper_bound_usize_cached cs r;
                                 State_Monad.return (Option.bind b (checked_add x))
                               })
                          }
                        | Mul \<Rightarrow> do {
                            a \<leftarrow> expr_upper_bound_usize_cached cs l;
                            (case a of
                               None \<Rightarrow> State_Monad.return None
                             | Some x \<Rightarrow> do {
                                 b \<leftarrow> expr_upper_bound_usize_cached cs r;
                                 State_Monad.return (Option.bind b (checked_mul x))
                               })
                          }
                        | UDiv \<Rightarrow> do {
                            a \<leftarrow> expr_upper_bound_usize_cached cs l;
                            State_Monad.return (udiv_bound a r)
                          }
                        | URem \<Rightarrow>
                            (case as_const r of
                               Some d \<Rightarrow> State_Monad.return (modulus_bound d)
                             | None \<Rightarrow> expr_upper_bound_usize_cached cs l)
                        | And \<Rightarrow>
                            (case and_mask l r of
                               None \<Rightarrow> State_Monad.return None
                             | Some m \<Rightarrow> do {
                                 a \<leftarrow> expr_upper_bound_usize_cached cs l;
                                 b \<leftarrow> (case a of
                                    Some x \<Rightarrow> State_Monad.return (Some x)
                                  | None \<Rightarrow> expr_upper_bound_usize_cached cs r);
                                 State_Monad.return (Some (case b of None \<Rightarrow> m | Some x \<Rightarrow> min x m))
                               })
                        | Shr \<Rightarrow> do {
                            a \<leftarrow> expr_upper_bound_usize_cached cs l;
                            State_Monad.return (shr_bound a r)
                          }
                        | Sub \<Rightarrow>
                            (case Option.bind (constant_difference l r) usize_try_from of
                               Some d \<Rightarrow> State_Monad.return (Some d)
                             | None \<Rightarrow> do {
                                 a \<leftarrow> expr_upper_bound_usize_cached cs l;
                                 (case a of
                                    None \<Rightarrow> State_Monad.return None
                                  | Some x \<Rightarrow> do {
                                      ok \<leftarrow> expressions_are_unsigned_ordered r l;
                                      State_Monad.return (if ok then Some x else None)
                                    })
                               })
                        | Shl \<Rightarrow>
                            (case as_const r of
                               None \<Rightarrow> State_Monad.return None
                             | Some k \<Rightarrow>
                                 if k \<ge> 256 then State_Monad.return (Some 0)
                                 else do {
                                   a \<leftarrow> expr_upper_bound_usize_cached cs l;
                                   State_Monad.return (shl_bound a (unat k))
                                 })
                        | _ \<Rightarrow> State_Monad.return None)
                   | _ \<Rightarrow> State_Monad.return None);
                State_Monad.return (combine_bounds (constraint_upper_bound_usize cs e) structural)
              };
              State_Monad.update (store_upper e bound);
              State_Monad.return bound
            })
   }"

section \<open>Lower bounds\<close>

fun expr_lower_bound_usize :: "SymBoolExpr list \<Rightarrow> SymExpr \<Rightarrow> nat analysis" where
  "expr_lower_bound_usize cs e = do {
     s \<leftarrow> State_Monad.get;
     case lower_bounds s e of
       Some bound \<Rightarrow> State_Monad.return bound
     | None \<Rightarrow>
         (case Option.bind (as_const e) usize_try_from of
            Some v \<Rightarrow> State_Monad.return v
          | None \<Rightarrow> do {
              ok \<leftarrow> spend;
              if \<not> ok then State_Monad.return 0
              else do {
                bound \<leftarrow>
                  (case e of
                     Const v \<Rightarrow> State_Monad.return (case usize_try_from v of Some n \<Rightarrow> n | None \<Rightarrow> 0)
                   | Ite c l r \<Rightarrow> do {
                       a \<leftarrow> expr_lower_bound_usize cs l;
                       b \<leftarrow> expr_lower_bound_usize cs r;
                       State_Monad.return (min a b)
                     }
                   | BinOp op l r \<Rightarrow>
                       (case op of
                          Add \<Rightarrow> do {
                            u \<leftarrow> expr_upper_bound_usize_cached cs l;
                            sum \<leftarrow> (case u of
                               None \<Rightarrow> State_Monad.return None
                             | Some x \<Rightarrow> do {
                                 w \<leftarrow> expr_upper_bound_usize_cached cs r;
                                 State_Monad.return (Option.bind w (checked_add x))
                               });
                            if sum \<noteq> None
                            then do {
                              a \<leftarrow> expr_lower_bound_usize cs l;
                              b \<leftarrow> expr_lower_bound_usize cs r;
                              State_Monad.return (case checked_add a b of Some n \<Rightarrow> n | None \<Rightarrow> 0)
                            }
                            else State_Monad.return 0
                          }
                        | Sub \<Rightarrow>
                            State_Monad.return (case Option.bind (constant_difference l r) usize_try_from of
                              Some d \<Rightarrow> d | None \<Rightarrow> 0)
                        | Or \<Rightarrow> do {
                            a \<leftarrow> expr_lower_bound_usize cs l;
                            b \<leftarrow> expr_lower_bound_usize cs r;
                            State_Monad.return (max a b)
                          }
                        | _ \<Rightarrow> State_Monad.return 0)
                   | _ \<Rightarrow> State_Monad.return 0);
                State_Monad.update (store_lower e bound);
                State_Monad.return bound
              }
            })
   }"

section \<open>Queries of the path state\<close>

definition path_upper_bound_usize :: "SymBoolExpr list \<Rightarrow> SymExpr \<Rightarrow> nat option" where
  "path_upper_bound_usize constraints e =
     fst (run_state (expr_upper_bound_usize_cached constraints e) analysis_start)"

definition lower_bound_usize :: "SymBoolExpr list \<Rightarrow> SymExpr \<Rightarrow> nat" where
  "lower_bound_usize constraints e =
     fst (run_state (expr_lower_bound_usize constraints e) analysis_start)"

text \<open>\<open>find_map\<close> over the constraints.\<close>

fun find_forced :: "SymCx \<Rightarrow> SymBoolExpr list \<Rightarrow> SymExpr \<Rightarrow> SymBoolExpr list \<Rightarrow> u256 option" where
  "find_forced cx constraints e [] = None"
| "find_forced cx constraints e (c # cs) =
     (case forces_expr_const_with_context cx e constraints c of
        Some v \<Rightarrow> Some v
      | None \<Rightarrow> find_forced cx constraints e cs)"

fun forced_model :: "SymCx \<Rightarrow> SymBoolExpr list \<Rightarrow> symbol list \<Rightarrow> model \<Rightarrow> model option" where
  "forced_model cx constraints [] M = Some M"
| "forced_model cx constraints (x # xs) M =
     (case find_forced cx constraints (Var x) constraints of
        None \<Rightarrow> None
      | Some v \<Rightarrow> forced_model cx constraints xs (M(x \<mapsto> v)))"

definition constrained_expr_value :: "SymCx \<Rightarrow> SymBoolExpr list \<Rightarrow> SymExpr \<Rightarrow> u256 option" where
  "constrained_expr_value cx constraints e =
     (case eval_closed cx e of
        Some v \<Rightarrow> Some v
      | None \<Rightarrow>
          (case known_word e of
             Some v \<Rightarrow> Some v
           | None \<Rightarrow>
               (case forced_model cx constraints (collect_eval_vars e []) Map.empty of
                  None \<Rightarrow> None
                | Some M \<Rightarrow> (case eval_model cx M e of Inl err \<Rightarrow> None | Inr v \<Rightarrow> Some v))))"

definition constrained_word :: "SymCx \<Rightarrow> SymBoolExpr list \<Rightarrow> SymExpr \<Rightarrow> u256 option" where
  "constrained_word cx constraints e =
     (case as_const e of
        Some v \<Rightarrow> Some v
      | None \<Rightarrow>
          (case find_forced cx constraints e constraints of
             Some v \<Rightarrow> Some v
           | None \<Rightarrow> constrained_expr_value cx constraints e))"

definition constrained_usize_checked :: "SymCx \<Rightarrow> SymBoolExpr list \<Rightarrow> SymExpr \<Rightarrow> (u256 + nat) option" where
  "constrained_usize_checked cx constraints e =
     map_option (\<lambda>v. case usize_try_from v of Some n \<Rightarrow> Inr n | None \<Rightarrow> Inl v) (constrained_word cx constraints e)"

definition constrained_usize :: "SymCx \<Rightarrow> SymBoolExpr list \<Rightarrow> SymExpr \<Rightarrow> nat option" where
  "constrained_usize cx constraints e =
     Option.bind (constrained_usize_checked cx constraints e) (\<lambda>r. case r of Inr n \<Rightarrow> Some n | Inl v \<Rightarrow> None)"

definition expect_constrained_usize :: "SymCx \<Rightarrow> SymBoolExpr list \<Rightarrow> SymExpr \<Rightarrow> string \<Rightarrow> SymbolicError + nat" where
  "expect_constrained_usize cx constraints e reason =
     (case constrained_usize cx constraints e of Some n \<Rightarrow> Inr n | None \<Rightarrow> Inl (Unsupported reason))"

definition expect_constrained_word :: "SymCx \<Rightarrow> SymBoolExpr list \<Rightarrow> SymExpr \<Rightarrow> string \<Rightarrow> SymbolicError + u256" where
  "expect_constrained_word cx constraints e reason =
     (case constrained_word cx constraints e of Some v \<Rightarrow> Inr v | None \<Rightarrow> Inl (Unsupported reason))"

section \<open>The analysis keeps its tables true\<close>

declare expr_upper_bound_usize_cached.simps [simp del]
declare expr_lower_bound_usize.simps [simp del]
declare expressions_are_unsigned_ordered.simps [simp del]

definition orders_values :: "SymCx \<Rightarrow> model \<Rightarrow> SymExpr \<Rightarrow> SymExpr \<Rightarrow> bool" where
  "orders_values cx M l r \<longleftrightarrow> (\<forall>a b. eval_word cx M l = Inr a \<longrightarrow> eval_word cx M r = Inr b \<longrightarrow> a \<le> b)"

definition ordered_values :: "SymCx \<Rightarrow> model \<Rightarrow> SymExpr \<times> SymExpr \<Rightarrow> bool \<Rightarrow> bool" where
  "ordered_values cx M k ordered \<longleftrightarrow> (ordered \<longrightarrow> orders_values cx M (fst k) (snd k))"

definition below_value :: "SymCx \<Rightarrow> model \<Rightarrow> SymExpr \<Rightarrow> nat \<Rightarrow> bool" where
  "below_value cx M e b \<longleftrightarrow> (\<forall>v. eval_word cx M e = Inr v \<longrightarrow> b \<le> unat v)"

definition is_usize :: "nat option \<Rightarrow> bool" where
  "is_usize bound \<longleftrightarrow> (\<forall>b. bound = Some b \<longrightarrow> b \<le> USIZE_MAX)"

definition usize_bound :: "SymCx \<Rightarrow> model \<Rightarrow> SymExpr \<Rightarrow> nat option \<Rightarrow> bool" where
  "usize_bound cx M e b \<longleftrightarrow> bounds_value cx M e b \<and> is_usize b"

definition analysis_ok :: "SymCx \<Rightarrow> model \<Rightarrow> BoundAnalysis \<Rightarrow> bool" where
  "analysis_ok cx M s \<longleftrightarrow>
     (\<forall>e b. upper_bounds s e = Some b \<longrightarrow> usize_bound cx M e b) \<and>
     (\<forall>e b. lower_bounds s e = Some b \<longrightarrow> below_value cx M e b) \<and>
     (\<forall>k b. ordering s k = Some b \<longrightarrow> ordered_values cx M k b)"

lemma analysis_start_ok: "analysis_ok cx M analysis_start"
  by (simp add: analysis_ok_def analysis_start_def)

interpretation uppers: memo_table upper_bounds store_upper "usize_bound cx M" "analysis_ok cx M" for cx M
  by unfold_locales (auto simp: analysis_ok_def store_upper_def)

interpretation lowers: memo_table lower_bounds store_lower "below_value cx M" "analysis_ok cx M" for cx M
  by unfold_locales (auto simp: analysis_ok_def store_lower_def)

interpretation orders: memo_table ordering store_order "ordered_values cx M" "analysis_ok cx M" for cx M
  by unfold_locales (auto simp: analysis_ok_def store_order_def)

lemma keeps_spend: "keeps (analysis_ok cx M) spend (\<lambda>_. True)"
  by (simp add: keeps_def spend_def analysis_ok_def)

lemma keeps_implies_m:
  "keeps (analysis_ok cx M) (implies_m c expected l r) (\<lambda>b. b \<longrightarrow> eval_bool cx M c = Inr expected \<longrightarrow> word_le cx M l r)"
  by (auto simp: keeps_def implies_m_def analysis_ok_def dest: implied_order_sound(1) split: prod.splits)

section \<open>Bounds of the operators\<close>

named_theorems bound_intros "the bound that the analysis computes for an operator bounds its value"

lemma eval_BinOp_eq_Inr:
  "eval_word cx M (BinOp op l r) = Inr v \<longleftrightarrow>
    (\<exists>a b. eval_word cx M l = Inr a \<and> eval_word cx M r = Inr b \<and> v = eval_binop cx op a b)"
  by (auto split: sum.splits)

lemma bounds_binopI:
  assumes "\<And>a b n. eval_word cx M l = Inr a \<Longrightarrow> eval_word cx M r = Inr b \<Longrightarrow> bound = Some n \<Longrightarrow> unat (eval_binop cx op a b) \<le> n"
  shows "bounds_value cx M (BinOp op l r) bound"
  using assms by (intro bounds_valueI) (auto simp: eval_BinOp_eq_Inr simp del: eval_word.simps)

lemma as_const_eval: "as_const e = Some k \<Longrightarrow> eval_word cx M e = Inr v \<Longrightarrow> v = k"
  by (cases e) auto

lemma unat_plus_le: "unat (a + b :: u256) \<le> unat a + unat b"
  by (simp add: unat_word_ariths)

lemma unat_times_le: "unat (a * b :: u256) \<le> unat a * unat b"
  by (simp add: unat_word_ariths)

lemma unat_and_le: "unat (a AND b :: u256) \<le> unat a" "unat (a AND b :: u256) \<le> unat b"
  by (simp_all add: word_and_le1 word_and_le2 flip: word_le_nat_alt)

lemma bounds_const [bound_intros]: "as_const e = Some v \<Longrightarrow> bounds_value cx M e (usize_try_from v)"
  by (rule bounds_valueI) (auto simp: usize_try_from_Some dest: as_const_eval)

lemma bounds_add [bound_intros]:
  "bounds_value cx M l (Some x) \<Longrightarrow> bounds_value cx M r b \<Longrightarrow> bounds_value cx M (BinOp Add l r) (Option.bind b (checked_add x))"
  by (rule bounds_binopI)
    (auto simp: bind_eq_Some_conv checked_add_def split: if_splits
      intro!: order_trans [OF unat_plus_le] add_mono dest: bounds_valueD)

lemma bounds_mul [bound_intros]:
  "bounds_value cx M l (Some x) \<Longrightarrow> bounds_value cx M r b \<Longrightarrow> bounds_value cx M (BinOp Mul l r) (Option.bind b (checked_mul x))"
  by (rule bounds_binopI)
    (auto simp: bind_eq_Some_conv checked_mul_def split: if_splits
      intro!: order_trans [OF unat_times_le] mult_le_mono dest: bounds_valueD)

lemma bounds_udiv [bound_intros]:
  assumes "bounds_value cx M l a"
  shows "bounds_value cx M (BinOp UDiv l r) (udiv_bound a r)"
proof (rule bounds_binopI)
  fix x y n assume ev: "eval_word cx M l = Inr x" "eval_word cx M r = Inr y" and n: "udiv_bound a r = Some n"
  from n obtain b d where b: "a = Some b" "as_const r = Some d" by (auto simp: udiv_bound_def bind_eq_Some_conv)
  then have "y = d" "unat x \<le> b" using ev assms by (auto dest: as_const_eval bounds_valueD)
  with n b show "unat (eval_binop cx UDiv x y) \<le> n"
    by (auto simp: udiv_bound_def usize_try_from_Some unat_div intro: div_le_mono split: if_splits)
qed

lemma bounds_shr [bound_intros]:
  assumes "bounds_value cx M l a" "is_usize a"
  shows "bounds_value cx M (BinOp Shr l r) (shr_bound a r)"
proof (rule bounds_binopI)
  fix x y n assume ev: "eval_word cx M l = Inr x" "eval_word cx M r = Inr y" and n: "shr_bound a r = Some n"
  from n obtain b d where b: "a = Some b" "as_const r = Some d" by (auto simp: shr_bound_def bind_eq_Some_conv)
  then have y: "y = d" and x: "unat x \<le> b" using ev assms by (auto dest: as_const_eval bounds_valueD)
  have u: "unat (drop_bit (unat d) x) \<le> b div 2 ^ unat d" using x by (simp only: unat_drop_bit_u256 div_le_mono)
  show "unat (eval_binop cx Shr x y) \<le> n"
  proof (cases "a = Some b \<and> unat d \<ge> 64")
    case True
    with n b have "n = 0" by (auto simp: shr_bound_def usize_try_from_Some)
    moreover have "b < 2 ^ 64" "(2 :: nat) ^ 64 \<le> 2 ^ unat d"
      using True assms(2) power_increasing [of 64 "unat d" "2 :: nat"] by (auto simp: is_usize_def)
    then have "b div 2 ^ unat d = 0" by (meson div_less order_less_le_trans)
    ultimately show ?thesis using u y by simp
  next
    case False
    with n b y u show ?thesis by (auto simp: shr_bound_def usize_try_from_Some)
  qed
qed

lemma unat_mod_bound: "m \<noteq> 0 \<Longrightarrow> k mod unat m \<le> unat (m - 1 :: u256)"
  by (simp add: unat_minus_one unat_gt_0 less_Suc_eq_le [symmetric] mod_less_divisor)

lemma bounds_urem_const [bound_intros]:
  "as_const r = Some d \<Longrightarrow> bounds_value cx M (BinOp URem l r) (modulus_bound d)"
  by (rule bounds_binopI)
    (auto simp: modulus_bound_def usize_try_from_Some unat_mod unat_mod_bound dest!: as_const_eval split: if_splits)

lemma bounds_urem [bound_intros]:
  "bounds_value cx M l a \<Longrightarrow> bounds_value cx M (BinOp URem l r) a"
  by (rule bounds_binopI) (auto simp: unat_mod intro: order_trans [OF mod_less_eq_dividend] dest: bounds_valueD)

lemma unat_ternop:
  "m \<noteq> 0 \<Longrightarrow> unat (eval_ternop op a b m) = (case op of AddMod \<Rightarrow> unat a + unat b | MulMod \<Rightarrow> unat a * unat b) mod unat m"
proof -
  assume m: "m \<noteq> 0"
  have "unat (of_nat (k mod unat m) :: u256) = k mod unat m" for k
  proof -
    have "k mod unat m < unat m" "unat m < 2 ^ 256" using m unsigned_less [of m] by (simp_all add: unat_gt_0)
    then show ?thesis by (simp add: unsigned_of_nat take_bit_nat_eq_self)
  qed
  with m show ?thesis by (cases op) auto
qed

lemma eval_ternop_zero: "eval_ternop op a b 0 = 0"
  by simp

lemma bounds_ternop_const [bound_intros]:
  "as_const m = Some k \<Longrightarrow> bounds_value cx M (TernOp op l r m) (modulus_bound k)"
  by (rule bounds_valueI)
    (auto simp: modulus_bound_def usize_try_from_Some unat_ternop unat_mod_bound eval_ternop_zero simp del: eval_ternop.simps
      dest!: as_const_eval split: if_splits sum.splits)

lemma bounds_ternop [bound_intros]:
  assumes "bounds_value cx M m a"
  shows "bounds_value cx M (TernOp op l r m) (Option.bind a (\<lambda>b. if b = 0 then None else Some (b - 1)))"
proof (rule bounds_valueI)
  fix n v assume n: "Option.bind a (\<lambda>b. if b = 0 then None else Some (b - 1)) = Some n"
    and "eval_word cx M (TernOp op l r m) = Inr v"
  then obtain x y z where v: "v = eval_ternop op x y z" and z: "eval_word cx M m = Inr z"
    by (auto simp del: eval_ternop.simps split: sum.splits)
  from n obtain b where b: "a = Some b" "b \<noteq> 0" "n = b - 1" by (auto simp: bind_eq_Some_conv split: if_splits)
  show "unat v \<le> n"
  proof (cases "z = 0")
    case False
    then have "unat v < unat z" unfolding v by (simp add: unat_ternop unat_gt_0 del: eval_ternop.simps)
    with b bounds_valueD [OF _ z] assms show ?thesis by fastforce
  qed (simp add: v)
qed

lemma bounds_shl [bound_intros]:
  assumes "as_const r = Some k" "k < 256" "bounds_value cx M l a"
  shows "bounds_value cx M (BinOp Shl l r) (shl_bound a (unat k))"
proof (rule bounds_binopI)
  fix x y n assume ev: "eval_word cx M l = Inr x" "eval_word cx M r = Inr y" and n: "shl_bound a (unat k) = Some n"
  from n obtain b where b: "a = Some b" by (auto simp: shl_bound_def bind_eq_Some_conv)
  have y: "y = k" and x: "unat x \<le> b" using ev assms b by (auto dest: as_const_eval bounds_valueD)
  have "unat (push_bit (unat k) x) \<le> unat x * 2 ^ unat k"
    unfolding unsigned_push_bit_eq by (simp add: push_bit_eq_mult take_bit_nat_less_eq_self)
  also have "\<dots> \<le> b * 2 ^ unat k" using x by simp
  finally show "unat (eval_binop cx Shl x y) \<le> n"
    using n b y assms(2) by (auto simp: shl_bound_def checked_mul_def split: if_splits)
qed

lemma bounds_shl_out [bound_intros]:
  "as_const r = Some k \<Longrightarrow> k \<ge> 256 \<Longrightarrow> bounds_value cx M (BinOp Shl l r) (Some 0)"
  by (rule bounds_binopI) (auto dest!: as_const_eval)

lemma bounds_and [bound_intros]:
  assumes "and_mask l r = Some m" "(b \<noteq> None \<longrightarrow> bounds_value cx M l b \<or> bounds_value cx M r b)"
  shows "bounds_value cx M (BinOp And l r) (Some (case b of None \<Rightarrow> m | Some x \<Rightarrow> min x m))"
proof (rule bounds_binopI)
  fix x y n assume ev: "eval_word cx M l = Inr x" "eval_word cx M r = Inr y"
    and n: "Some (case b of None \<Rightarrow> m | Some x \<Rightarrow> min x m) = Some n"
  have "m = unat x \<or> m = unat y"
    using assms(1) ev by (auto simp: and_mask_def bind_eq_Some_conv usize_try_from_Some dest!: as_const_eval split: option.splits)
  then have m: "unat (x AND y) \<le> m" using unat_and_le [of x y] by auto
  have "unat (x AND y) \<le> c" if "b = Some c" for c
    using that assms(2) ev unat_and_le [of x y] by (auto dest!: bounds_valueD intro: order_trans)
  with m n show "unat (eval_binop cx And x y) \<le> n" by (auto split: option.splits)
qed

lemma bounds_difference [bound_intros]:
  "Option.bind (constant_difference l r) usize_try_from = Some d \<Longrightarrow> bounds_value cx M (BinOp Sub l r) (Some d)"
  by (rule bounds_binopI) (auto simp: bind_eq_Some_conv usize_try_from_Some dest: constant_difference_sound)

lemma bounds_sub [bound_intros]:
  "bounds_value cx M l (Some x) \<Longrightarrow> ordered_values cx M (r, l) ok \<Longrightarrow> bounds_value cx M (BinOp Sub l r) (if ok then Some x else None)"
  by (rule bounds_binopI)
    (auto simp: ordered_values_def orders_values_def unat_sub intro: order_trans [OF diff_le_self] dest: bounds_valueD split: if_splits)

lemma bounds_ite [bound_intros]:
  "bounds_value cx M l (Some x) \<Longrightarrow> bounds_value cx M r (Some y) \<Longrightarrow> bounds_value cx M (Ite c l r) (Some (max x y))"
  "bounds_value cx M r (Some y) \<Longrightarrow> ok \<longrightarrow> eval_bool cx M c = Inr True \<longrightarrow> word_le cx M l r \<Longrightarrow>
    bounds_value cx M (Ite c l r) (if ok then Some y else None)"
  "bounds_value cx M l (Some x) \<Longrightarrow> ok \<longrightarrow> eval_bool cx M c = Inr False \<longrightarrow> word_le cx M r l \<Longrightarrow>
    bounds_value cx M (Ite c l r) (if ok then Some x else None)"
  by (rule bounds_valueI;
      fastforce dest: bounds_valueD word_leD(1) simp: word_le_nat_alt split: sum.splits if_splits)+

named_theorems usize_intros "bounds that fit the host integer"

lemma is_usize_simps [simp]: "is_usize None" "is_usize (Some n) \<longleftrightarrow> n \<le> USIZE_MAX"
  by (auto simp: is_usize_def)

lemma is_usize_try_from [usize_intros]: "is_usize (usize_try_from v)"
  by (simp add: usize_try_from_Some is_usize_def)

lemma is_usize_bind [usize_intros]: "(\<And>x. is_usize (f x)) \<Longrightarrow> is_usize (Option.bind a f)"
  by (cases a) auto

lemma is_usize_min_bound [usize_intros]: "is_usize a \<Longrightarrow> is_usize b \<Longrightarrow> is_usize (min_bound a b)"
  by (auto simp: min_bound_def split: option.splits)

lemma is_usize_foldl: "is_usize a \<Longrightarrow> (\<And>b. b \<in> set bs \<Longrightarrow> is_usize b) \<Longrightarrow> is_usize (foldl min_bound a bs)"
  by (induction bs arbitrary: a) (simp_all add: usize_intros)

lemma is_usize_below_const [usize_intros]: "is_usize (below_const e)"
  by (auto simp: below_const_def intro!: usize_intros)

lemma is_usize_upper_bound [usize_intros]: "is_usize (upper_bound_usize e c)"
  by (induction e c rule: upper_bound_usize.induct)
    (auto intro!: usize_intros is_usize_foldl split: SymCmpOp.splits)

lemma is_usize_constraints [usize_intros]: "is_usize (constraint_upper_bound_usize cs e)"
  by (auto simp: constraint_upper_bound_usize_def intro!: is_usize_foldl usize_intros)

lemma is_usize_checked [usize_intros]: "is_usize (checked_add a b)" "is_usize (checked_mul a b)"
  by (simp_all add: checked_add_def checked_mul_def)

lemma is_usize_operators [usize_intros]:
  "is_usize (modulus_bound d)" "is_usize a \<Longrightarrow> is_usize (udiv_bound a r)" "is_usize a \<Longrightarrow> is_usize (shr_bound a r)"
  "is_usize (shl_bound a n)"
proof -
  show "is_usize a \<Longrightarrow> is_usize (udiv_bound a r)"
    by (cases a; cases "as_const r") (auto simp: udiv_bound_def is_usize_def intro: order_trans [OF div_le_dividend])
  show "is_usize a \<Longrightarrow> is_usize (shr_bound a r)"
    by (cases a; cases "as_const r") (auto simp: shr_bound_def is_usize_def intro: order_trans [OF div_le_dividend])
qed (auto simp: modulus_bound_def shl_bound_def intro!: usize_intros)

lemma is_usize_and_mask: "and_mask l r = Some m \<Longrightarrow> m \<le> USIZE_MAX"
  by (auto simp: and_mask_def bind_eq_Some_conv usize_try_from_Some split: option.splits)

lemma is_usize_combine: "is_usize a \<Longrightarrow> is_usize b \<Longrightarrow> is_usize (combine_bounds a b)"
  by (auto simp: combine_bounds_def split: option.splits)

lemma bounds_combine:
  "bounds_value cx M e a \<Longrightarrow> bounds_value cx M e b \<Longrightarrow> bounds_value cx M e (combine_bounds a b)"
  by (auto simp: combine_bounds_def bounds_value_def split: option.splits)

lemma bounds_constraints: "holds_all cx M cs \<Longrightarrow> bounds_value cx M e (constraint_upper_bound_usize cs e)"
  by (auto simp: constraint_upper_bound_usize_def holds_all_def list_all_iff intro!: bounds_foldl upper_bound_usize_sound)

section \<open>Soundness of the analysis\<close>

lemma ordered_ite:
  assumes "keeps (analysis_ok cx M) m (\<lambda>b. b \<longrightarrow> eval_bool cx M c = Inr True \<longrightarrow> A)"
    "keeps (analysis_ok cx M) m' (\<lambda>b. b \<longrightarrow> A)"
    "keeps (analysis_ok cx M) n (\<lambda>b. b \<longrightarrow> eval_bool cx M c = Inr False \<longrightarrow> B)"
    "keeps (analysis_ok cx M) n' (\<lambda>b. b \<longrightarrow> B)"
    "\<And>ok. ok \<longrightarrow> (eval_bool cx M c = Inr True \<longrightarrow> A) \<and> (eval_bool cx M c = Inr False \<longrightarrow> B) \<Longrightarrow> P ok"
  shows "keeps (analysis_ok cx M) (do {
      t1 \<leftarrow> m;
      t2 \<leftarrow> (if t1 then State_Monad.return True else m');
      e1 \<leftarrow> n;
      e2 \<leftarrow> (if e1 then State_Monad.return True else n');
      State_Monad.return (t2 \<and> e2)
    }) P"
  apply (rule keeps_bind [OF assms(1)])
  apply (rule keeps_bind [where Q = "\<lambda>b. b \<longrightarrow> eval_bool cx M c = Inr True \<longrightarrow> A"])
   apply (rule keeps_if)
    apply (rule keeps_return, simp)
   apply (rule keeps_weaken [OF assms(2)], simp)
  apply (rule keeps_bind [OF assms(3)])
  apply (rule keeps_bind [where Q = "\<lambda>b. b \<longrightarrow> eval_bool cx M c = Inr False \<longrightarrow> B"])
   apply (rule keeps_if)
    apply (rule keeps_return, simp)
   apply (rule keeps_weaken [OF assms(4)], simp)
  apply (rule keeps_return, rule assms(5), simp)
  done

lemma word_le_orders: "word_le cx M l r \<Longrightarrow> orders_values cx M l r"
  by (auto simp: word_le_def orders_values_def)

lemma orders_ite:
  "(eval_bool cx M c = Inr True \<longrightarrow> orders_values cx M t r) \<and> (eval_bool cx M c = Inr False \<longrightarrow> orders_values cx M e r) \<Longrightarrow>
    orders_values cx M (Ite c t e) r"
  "(eval_bool cx M c = Inr True \<longrightarrow> orders_values cx M l t) \<and> (eval_bool cx M c = Inr False \<longrightarrow> orders_values cx M l e) \<Longrightarrow>
    orders_values cx M l (Ite c t e)"
  by (auto simp: orders_values_def split: sum.splits if_splits)

lemma keeps_implied_order:
  "keeps (analysis_ok cx M) (implies_m c expected l r) (\<lambda>b. b \<longrightarrow> eval_bool cx M c = Inr expected \<longrightarrow> orders_values cx M l r)"
  by (rule keeps_weaken [OF keeps_implies_m]) (auto dest: word_le_orders)

text \<open>The two arms of a conditional on either side.\<close>

lemma ordered_left_ite:
  assumes "\<And>x. x \<in> {t, e} \<Longrightarrow>
    keeps (analysis_ok cx M) (expressions_are_unsigned_ordered x r) (ordered_values cx M (x, r))"
  shows "keeps (analysis_ok cx M) (do {
         t1 \<leftarrow> implies_m c True t r;
         t2 \<leftarrow> (if t1 then State_Monad.return True else expressions_are_unsigned_ordered t r);
         e1 \<leftarrow> implies_m c False e r;
         e2 \<leftarrow> (if e1 then State_Monad.return True else expressions_are_unsigned_ordered e r);
         State_Monad.return (t2 \<and> e2)
       }) (ordered_values cx M (Ite c t e, r))"
  using assms
  by (intro ordered_ite [where c = c and A = "orders_values cx M t r" and B = "orders_values cx M e r"] keeps_implied_order)
    (simp_all add: ordered_values_def [abs_def] orders_ite(1))

lemma ordered_right_ite:
  assumes "\<And>x. x \<in> {t, e} \<Longrightarrow>
    keeps (analysis_ok cx M) (expressions_are_unsigned_ordered l x) (ordered_values cx M (l, x))"
  shows "keeps (analysis_ok cx M) (do {
         t1 \<leftarrow> implies_m c True l t;
         t2 \<leftarrow> (if t1 then State_Monad.return True else expressions_are_unsigned_ordered l t);
         e1 \<leftarrow> implies_m c False l e;
         e2 \<leftarrow> (if e1 then State_Monad.return True else expressions_are_unsigned_ordered l e);
         State_Monad.return (t2 \<and> e2)
       }) (ordered_values cx M (l, Ite c t e))"
  using assms
  by (intro ordered_ite [where c = c and A = "orders_values cx M l t" and B = "orders_values cx M l e"] keeps_implied_order)
    (simp_all add: ordered_values_def [abs_def] orders_ite(2))

lemma keeps_not_ordered: "keeps (analysis_ok cx M) (State_Monad.return False) (ordered_values cx M k)"
  by (simp add: keeps_return ordered_values_def)

lemma expressions_ordered_sound:
  "keeps (analysis_ok cx M) (expressions_are_unsigned_ordered l r) (ordered_values cx M (l, r))"
proof (induction "size l + size r" arbitrary: l r rule: less_induct)
  case less
  show ?case
  proof (cases "l = r")
    case True
    then show ?thesis
      by (subst expressions_are_unsigned_ordered.simps) (simp add: keeps_return ordered_values_def orders_values_def)
  next
    case False
    have two: "keeps (analysis_ok cx M) (State_Monad.return (a \<le> b)) (ordered_values cx M (Const a, Const b))" for a b
      by (simp add: keeps_return ordered_values_def orders_values_def)
    show ?thesis
      apply (subst expressions_are_unsigned_ordered.simps)
      apply (simp only: False if_False)
      apply (rule orders.keeps_cached)
      apply (rule keeps_bind [OF keeps_spend])
      apply (rule keeps_if, rule keeps_not_ordered)
      apply (rule orders.keeps_store)
      apply (cases l; cases r)
      apply (simp_all add: two keeps_not_ordered cong: if_cong)
      apply ((rule ordered_left_ite ordered_right_ite, force intro: less)+)
      done
  qed
qed

lemma usize_boundI: "bounds_value cx M e b \<Longrightarrow> is_usize b \<Longrightarrow> usize_bound cx M e b"
  by (simp add: usize_bound_def)

lemma usize_boundD: "usize_bound cx M e b \<Longrightarrow> bounds_value cx M e b" "usize_bound cx M e b \<Longrightarrow> is_usize b"
  by (simp_all add: usize_bound_def)

lemma usize_bound_None [simp]: "usize_bound cx M e None"
  by (simp add: usize_bound_def)

lemma keeps_no_bound: "keeps (analysis_ok cx M) (State_Monad.return None) (usize_bound cx M e)"
  by (simp add: keeps_return)

lemma keeps_bound_both:
  assumes "keeps (analysis_ok cx M) m (usize_bound cx M l)" "keeps (analysis_ok cx M) n (usize_bound cx M r)"
    "\<And>x b. usize_bound cx M l (Some x) \<Longrightarrow> usize_bound cx M r b \<Longrightarrow> usize_bound cx M e (Option.bind b (f x))"
  shows "keeps (analysis_ok cx M) (do {
      a \<leftarrow> m;
      (case a of
         None \<Rightarrow> State_Monad.return None
       | Some x \<Rightarrow> do { b \<leftarrow> n; State_Monad.return (Option.bind b (f x)) })
    }) (usize_bound cx M e)"
  by (rule keeps_bind [OF assms(1)])
    (auto intro!: keeps_no_bound keeps_bind [OF assms(2)] keeps_return assms(3) split: option.split)

lemma keeps_bound_map:
  assumes "keeps (analysis_ok cx M) m (usize_bound cx M l)"
    "\<And>a. usize_bound cx M l a \<Longrightarrow> usize_bound cx M e (f a)"
  shows "keeps (analysis_ok cx M) (do { a \<leftarrow> m; State_Monad.return (f a) }) (usize_bound cx M e)"
  by (rule keeps_bind [OF assms(1)]) (intro keeps_return assms(2))

lemma keeps_bound_and:
  assumes "keeps (analysis_ok cx M) m (usize_bound cx M l)" "keeps (analysis_ok cx M) n (usize_bound cx M r)"
    "and_mask l r = Some k"
  shows "keeps (analysis_ok cx M) (do {
      a \<leftarrow> m;
      b \<leftarrow> (case a of Some x \<Rightarrow> State_Monad.return (Some x) | None \<Rightarrow> n);
      State_Monad.return (Some (case b of None \<Rightarrow> k | Some x \<Rightarrow> min x k))
    }) (usize_bound cx M (BinOp And l r))"
  apply (rule keeps_bind [OF assms(1)])
  apply (rule keeps_bind [where Q = "\<lambda>b. usize_bound cx M l b \<or> usize_bound cx M r b"])
   apply (auto intro!: keeps_return keeps_weaken [OF assms(2)] split: option.split) [1]
  apply (rule keeps_return, rule usize_boundI)
   apply (rule bounds_and [OF assms(3)], blast dest: usize_boundD)
  using is_usize_and_mask [OF assms(3)] apply (auto split: option.split)
  done

lemma keeps_bound_sub:
  assumes "keeps (analysis_ok cx M) m (usize_bound cx M l)"
  shows "keeps (analysis_ok cx M) (do {
      a \<leftarrow> m;
      (case a of
         None \<Rightarrow> State_Monad.return None
       | Some x \<Rightarrow> do {
           ok \<leftarrow> expressions_are_unsigned_ordered r l;
           State_Monad.return (if ok then Some x else None)
         })
    }) (usize_bound cx M (BinOp Sub l r))"
  apply (rule keeps_bind [OF assms])
  apply (auto intro!: keeps_no_bound keeps_bind [OF expressions_ordered_sound] keeps_return usize_boundI bounds_sub
      dest: usize_boundD split: option.split)
  done

lemma usize_ite:
  "usize_bound cx M l (Some x) \<Longrightarrow> usize_bound cx M r (Some y) \<Longrightarrow> usize_bound cx M (Ite c l r) (Some (max x y))"
  "usize_bound cx M r (Some y) \<Longrightarrow> ok \<longrightarrow> eval_bool cx M c = Inr True \<longrightarrow> word_le cx M l r \<Longrightarrow>
    usize_bound cx M (Ite c l r) (if ok then Some y else None)"
  "usize_bound cx M l (Some x) \<Longrightarrow> ok \<longrightarrow> eval_bool cx M c = Inr False \<longrightarrow> word_le cx M r l \<Longrightarrow>
    usize_bound cx M (Ite c l r) (if ok then Some x else None)"
  using bounds_ite by (simp_all add: usize_bound_def)

lemma keeps_bound_ite:
  assumes "keeps (analysis_ok cx M) m (usize_bound cx M l)" "keeps (analysis_ok cx M) n (usize_bound cx M r)"
  shows "keeps (analysis_ok cx M) (do {
      a \<leftarrow> m;
      b \<leftarrow> n;
      (case (a, b) of
         (Some x, Some y) \<Rightarrow> State_Monad.return (Some (max x y))
       | (None, Some y) \<Rightarrow> do {
           ok \<leftarrow> implies_m c True l r;
           State_Monad.return (if ok then Some y else None)
         }
       | (Some x, None) \<Rightarrow> do {
           ok \<leftarrow> implies_m c False r l;
           State_Monad.return (if ok then Some x else None)
         }
       | (None, None) \<Rightarrow> State_Monad.return None)
    }) (usize_bound cx M (Ite c l r))"
  apply (rule keeps_bind [OF assms(1)], rule keeps_bind [OF assms(2)])
  subgoal for a b
    by (cases a; cases b; simp only: option.case prod.case)
      (rule keeps_no_bound | rule keeps_return, erule (1) usize_ite
        | rule keeps_bind [OF keeps_implies_m], rule keeps_return, erule (1) usize_ite)+
  done

lemma usize_operators:
  "usize_bound cx M l (Some x) \<Longrightarrow> usize_bound cx M r b \<Longrightarrow> usize_bound cx M (BinOp Add l r) (Option.bind b (checked_add x))"
  "usize_bound cx M l (Some x) \<Longrightarrow> usize_bound cx M r b \<Longrightarrow> usize_bound cx M (BinOp Mul l r) (Option.bind b (checked_mul x))"
  "usize_bound cx M l a \<Longrightarrow> usize_bound cx M (BinOp UDiv l r) (udiv_bound a r)"
  "usize_bound cx M l a \<Longrightarrow> usize_bound cx M (BinOp Shr l r) (shr_bound a r)"
  "as_const r = Some k \<Longrightarrow> k < 256 \<Longrightarrow> usize_bound cx M l a \<Longrightarrow> usize_bound cx M (BinOp Shl l r) (shl_bound a (unat k))"
  "as_const r = Some k \<Longrightarrow> k \<ge> 256 \<Longrightarrow> usize_bound cx M (BinOp Shl l r) (Some 0)"
  "usize_bound cx M l a \<Longrightarrow> usize_bound cx M (BinOp URem l r) a"
  "as_const r = Some k \<Longrightarrow> usize_bound cx M (BinOp URem l r) (modulus_bound k)"
  by (simp_all add: usize_bound_def bound_intros usize_intros)

lemma usize_difference:
  assumes "Option.bind (constant_difference l r) usize_try_from = Some d"
  shows "usize_bound cx M (BinOp Sub l r) (Some d)"
  using bounds_difference [OF assms] assms by (auto simp: usize_bound_def bind_eq_Some_conv usize_try_from_Some)

lemma usize_ternop:
  "usize_bound cx M m a \<Longrightarrow> usize_bound cx M (TernOp op l r m) (Option.bind a (\<lambda>b. if b = 0 then None else Some (b - 1)))"
  "as_const m = Some k \<Longrightarrow> usize_bound cx M (TernOp op l r m) (modulus_bound k)"
  using bounds_ternop [of cx M m a op l r]
  by (cases a; auto simp: usize_bound_def intro: bounds_ternop_const usize_intros)+

lemma expr_upper_bound_sound:
  assumes "holds_all cx M cs"
  shows "keeps (analysis_ok cx M) (expr_upper_bound_usize_cached cs e) (usize_bound cx M e)"
proof (induction "size e" arbitrary: e rule: less_induct)
  case less
  show ?case
    apply (subst expr_upper_bound_usize_cached.simps)
    apply (rule uppers.keeps_cached)
    apply (cases "as_const e"; simp only: option.case)
     apply (rule uppers.keeps_store)
     apply (rule keeps_bind [OF keeps_spend])
     apply (rule keeps_bind [where Q = "usize_bound cx M e"])
      apply (rule keeps_if, rule keeps_no_bound)
      defer
      apply (rule keeps_return)
      apply (intro usize_boundI bounds_combine is_usize_combine bounds_constraints [OF assms] usize_intros)
       apply (simp_all add: usize_bound_def) [2]
     apply (rule keeps_return, simp add: usize_boundI bounds_const is_usize_try_from)
    subgoal for s ok
    proof (cases e)
      case (BinOp op l r)
      then have IH: "keeps (analysis_ok cx M) (expr_upper_bound_usize_cached cs l) (usize_bound cx M l)"
        "keeps (analysis_ok cx M) (expr_upper_bound_usize_cached cs r) (usize_bound cx M r)"
        using less [of l] less [of r] by simp_all
      show ?thesis unfolding BinOp SymExpr.case
        apply (cases op; simp only: SymBinOp.case)
        apply (rule keeps_bound_both [OF IH], erule (1) usize_operators)
        subgoal by (cases "Option.bind (constant_difference l r) usize_try_from")
          (simp_all add: keeps_bound_sub IH keeps_return usize_difference)
        apply (rule keeps_bound_both [OF IH], erule (1) usize_operators)
        apply (rule keeps_bound_map [OF IH(1)], erule usize_operators)
        subgoal by (cases "as_const r") (simp_all add: keeps_return usize_operators keeps_weaken [OF IH(1)])
        apply (rule keeps_no_bound)
        apply (rule keeps_no_bound)
        subgoal by (cases "and_mask l r") (simp_all add: keeps_no_bound keeps_bound_and IH)
        apply (rule keeps_no_bound)
        apply (rule keeps_no_bound)
        subgoal by (cases "as_const r") (auto simp: not_le intro!: keeps_no_bound keeps_return usize_operators keeps_bound_map [OF IH(1)])
        apply (rule keeps_bound_map [OF IH(1)], erule usize_operators)
        apply (rule keeps_no_bound)
        done
    next
      case (TernOp op l r m)
      then show ?thesis using less [of m]
        by (auto intro!: keeps_bound_map keeps_return usize_ternop split: option.split)
    next
      case (Ite c l r)
      show ?thesis unfolding Ite SymExpr.case by (rule keeps_bound_ite) (simp_all add: less Ite)
    qed (simp_all add: keeps_no_bound)
    done
qed

section \<open>Soundness of the lower bounds\<close>

lemma below_valueI: "(\<And>v. eval_word cx M e = Inr v \<Longrightarrow> b \<le> unat v) \<Longrightarrow> below_value cx M e b"
  by (simp add: below_value_def)

lemma below_zero [simp]: "below_value cx M e 0"
  by (simp add: below_value_def)

lemma keeps_below_zero: "keeps (analysis_ok cx M) (State_Monad.return 0) (below_value cx M e)"
  by (simp add: keeps_return)

lemma below_const_value: "Option.bind (as_const e) usize_try_from = Some n \<Longrightarrow> below_value cx M e n"
  by (rule below_valueI) (auto simp: bind_eq_Some_conv usize_try_from_Some dest: as_const_eval)

lemma below_ite: "below_value cx M l a \<Longrightarrow> below_value cx M r b \<Longrightarrow> below_value cx M (Ite c l r) (min a b)"
  by (rule below_valueI) (auto simp: below_value_def split: sum.splits if_splits intro: min.coboundedI1 min.coboundedI2)

lemma unat_or_ge: "unat a \<le> unat (a OR b :: u256)" "unat b \<le> unat (a OR b :: u256)"
  by (simp_all add: le_word_or1 le_word_or2 flip: word_le_nat_alt)

lemma below_or: "below_value cx M l a \<Longrightarrow> below_value cx M r b \<Longrightarrow> below_value cx M (BinOp Or l r) (max a b)"
  by (rule below_valueI)
    (auto simp: below_value_def eval_BinOp_eq_Inr simp del: eval_word.simps intro: order_trans [OF _ unat_or_ge(1)] order_trans [OF _ unat_or_ge(2)])

lemma below_difference:
  "below_value cx M (BinOp Sub l r) (case Option.bind (constant_difference l r) usize_try_from of Some d \<Rightarrow> d | None \<Rightarrow> 0)"
  by (rule below_valueI)
    (auto simp: eval_BinOp_eq_Inr bind_eq_Some_conv usize_try_from_Some simp del: eval_word.simps
      dest: constant_difference_sound split: option.splits)

lemma below_add:
  assumes "usize_bound cx M l u" "usize_bound cx M r w" "u = Some x" "Option.bind w (checked_add x) \<noteq> None"
    "below_value cx M l a" "below_value cx M r b"
  shows "below_value cx M (BinOp Add l r) (case checked_add a b of Some n \<Rightarrow> n | None \<Rightarrow> 0)"
proof (rule below_valueI)
  fix v assume "eval_word cx M (BinOp Add l r) = Inr v"
  then obtain p q where pq: "eval_word cx M l = Inr p" "eval_word cx M r = Inr q" "v = p + q"
    by (auto simp: eval_BinOp_eq_Inr simp del: eval_word.simps)
  from assms(4) obtain y where y: "w = Some y" "x + y \<le> USIZE_MAX"
    by (cases w) (auto simp: checked_add_def split: if_splits)
  have "unat p \<le> x" "unat q \<le> y" using assms(1-3) y(1) pq by (auto simp: usize_bound_def dest: bounds_valueD)
  with y(2) have "unat v = unat p + unat q" unfolding pq(3) by (subst unat_plus_if') simp
  with assms(5,6) pq show "(case checked_add a b of Some n \<Rightarrow> n | None \<Rightarrow> 0) \<le> unat v"
    by (auto simp: below_value_def checked_add_def add_mono)
qed

lemma keeps_below_both:
  assumes "keeps (analysis_ok cx M) m (below_value cx M l)" "keeps (analysis_ok cx M) n (below_value cx M r)"
    "\<And>a b. below_value cx M l a \<Longrightarrow> below_value cx M r b \<Longrightarrow> below_value cx M e (f a b)"
  shows "keeps (analysis_ok cx M) (do { a \<leftarrow> m; b \<leftarrow> n; State_Monad.return (f a b) }) (below_value cx M e)"
  by (rule keeps_bind [OF assms(1)], rule keeps_bind [OF assms(2)]) (intro keeps_return assms(3))

lemma keeps_below_add:
  assumes "holds_all cx M cs" "keeps (analysis_ok cx M) m (below_value cx M l)" "keeps (analysis_ok cx M) n (below_value cx M r)"
  shows "keeps (analysis_ok cx M) (do {
      u \<leftarrow> expr_upper_bound_usize_cached cs l;
      sum \<leftarrow> (case u of
         None \<Rightarrow> State_Monad.return None
       | Some x \<Rightarrow> do {
           w \<leftarrow> expr_upper_bound_usize_cached cs r;
           State_Monad.return (Option.bind w (checked_add x))
         });
      if sum \<noteq> None
      then do { a \<leftarrow> m; b \<leftarrow> n; State_Monad.return (case checked_add a b of Some n \<Rightarrow> n | None \<Rightarrow> 0) }
      else State_Monad.return 0
    }) (below_value cx M (BinOp Add l r))"
  apply (rule keeps_bind [OF expr_upper_bound_sound [OF assms(1)]])
  subgoal for u
    apply (rule keeps_bind [where Q = "\<lambda>sum. sum \<noteq> None \<longrightarrow> (\<exists>x w. u = Some x \<and> usize_bound cx M r w \<and> sum = Option.bind w (checked_add x))"])
     apply (cases u; simp only: option.case)
      apply (simp add: keeps_return)
     apply (rule keeps_bind [OF expr_upper_bound_sound [OF assms(1)]], rule keeps_return, blast)
    apply (rule keeps_if)
     apply (rule keeps_below_both [OF assms(2,3)])
     apply (blast intro: below_add)
    apply (rule keeps_below_zero)
    done
  done

lemma expr_lower_bound_sound:
  assumes "holds_all cx M cs"
  shows "keeps (analysis_ok cx M) (expr_lower_bound_usize cs e) (below_value cx M e)"
proof (induction "size e" arbitrary: e rule: less_induct)
  case less
  show ?case
    apply (subst expr_lower_bound_usize.simps)
    apply (rule lowers.keeps_cached)
    apply (cases "Option.bind (as_const e) usize_try_from"; simp only: option.case)
     apply (rule keeps_bind [OF keeps_spend])
     apply (rule keeps_if, rule keeps_below_zero)
     apply (rule lowers.keeps_store)
     defer
     apply (rule keeps_return, erule below_const_value)
    subgoal for s ok
    proof (cases e)
      case (BinOp op l r)
      then have IH: "keeps (analysis_ok cx M) (expr_lower_bound_usize cs l) (below_value cx M l)"
        "keeps (analysis_ok cx M) (expr_lower_bound_usize cs r) (below_value cx M r)"
        using less [of l] less [of r] by simp_all
      show ?thesis unfolding BinOp SymExpr.case
        by (cases op; simp only: SymBinOp.case)
          (rule keeps_below_zero keeps_below_add [OF assms IH] keeps_below_both [OF IH below_or]
            keeps_return below_difference | assumption)+
    next
      case (Const v)
      then show ?thesis by (auto simp: keeps_return below_value_def usize_try_from_Some split: option.split)
    next
      case (Ite c l r)
      then show ?thesis using less [of l] less [of r] by (simp add: keeps_below_both below_ite)
    qed (simp_all add: keeps_below_zero)
    done
qed

section \<open>Soundness of the pinned value\<close>

text \<open>A symbol that a model does not have counts as zero.\<close>

definition completed :: "model \<Rightarrow> model" where
  "completed M x = Some (case M x of Some v \<Rightarrow> v | None \<Rightarrow> 0)"

lemma eval_completed:
  "eval_word cx (completed M) e = eval_word cx M e"
  "eval_take cx (completed M) n es = eval_take cx M n es"
  "eval_bool cx (completed M) c = eval_bool cx M c"
  "eval_all cx (completed M) cs = eval_all cx M cs"
  by (induction cx M e and cx M n es and cx M c and cx M cs rule: eval_word_eval_take_eval_bool_eval_all.induct)
    (auto simp: completed_def split: sum.splits option.splits)

lemma find_forced_sound:
  assumes "find_forced cx constraints e cs = Some w" "holds_all cx M constraints" "holds_all cx M cs" "eval_word cx M e = Inr x"
  shows "x = w"
  using assms(1,3)
  by (induction cs) (auto dest: forced_const_sound(2) [OF _ assms(2,4)] split: option.splits)

lemma forced_model_sound:
  assumes "forced_model cx constraints xs N = Some N'" "holds_all cx M constraints" "N \<subseteq>\<^sub>m completed M"
  shows "N' \<subseteq>\<^sub>m completed M \<and> set xs \<subseteq> dom N' \<and> dom N \<subseteq> dom N'"
  using assms(1,3)
proof (induction xs arbitrary: N)
  case (Cons x xs)
  then obtain v where v: "find_forced cx constraints (Var x) constraints = Some v"
    and r: "forced_model cx constraints xs (N(x \<mapsto> v)) = Some N'" by (auto split: option.splits)
  have "v = (case M x of Some v \<Rightarrow> v | None \<Rightarrow> 0)" using find_forced_sound [OF v assms(2,2)] by simp
  then have "N(x \<mapsto> v) \<subseteq>\<^sub>m completed M" using Cons.prems(2) by (auto simp: map_le_def completed_def)
  moreover have "dom (N(x \<mapsto> v)) = insert x (dom N)" by (auto simp: dom_def)
  ultimately show ?case using Cons.IH [OF r] by (metis insert_subset list.simps(15))
qed simp

lemma eval_covered:
  assumes "N \<subseteq>\<^sub>m N'" "set (collect_eval_vars e []) \<subseteq> dom N"
  shows "eval_word cx N e = eval_word cx N' e"
proof -
  have "N y = N' y" if "has_word (WordNode e) x" "get_eval_var x = Some y" for x y
  proof -
    have "y \<in> set (collect_eval_vars e [])" using that by (auto simp: collect_eval_vars_def collect_with_word)
    then show ?thesis using assms by (metis map_le_def subsetD)
  qed
  then have "agree_on {WordNode e} N N'" by (auto simp: agree_on_def)
  then show ?thesis by (rule eval_agree)
qed

lemma constrained_expr_value_sound:
  assumes "constrained_expr_value cx cs e = Some w" "holds_all cx M cs" "eval_word cx M e = Inr v"
  shows "v = w"
proof (cases "eval_closed cx e = None \<and> known_word e = None")
  case True
  then obtain N where N: "forced_model cx cs (collect_eval_vars e []) Map.empty = Some N" "eval_model cx N e = Inr w"
    using assms(1) by (auto simp: constrained_expr_value_def split: option.splits sum.splits)
  from forced_model_sound [OF N(1) assms(2)] have "N \<subseteq>\<^sub>m completed M" "set (collect_eval_vars e []) \<subseteq> dom N" by simp_all
  from eval_covered [OF this, of cx] N(2) assms(3) show ?thesis by (simp add: eval_completed)
qed (use assms in \<open>auto simp: constrained_expr_value_def eval_closed_sound dest: known_word_sound split: option.splits\<close>)

lemma constrained_word_sound:
  assumes "constrained_word cx cs e = Some w" "holds_all cx M cs" "eval_word cx M e = Inr v"
  shows "v = w"
  using assms(1) constrained_expr_value_sound [OF _ assms(2,3)] find_forced_sound [OF _ assms(2,2,3)] as_const_eval [OF _ assms(3)]
  by (auto simp: constrained_word_def split: option.splits)

section \<open>Properties of the analysis\<close>

text \<open>
  C14: the bounds of the path state enclose the value. Under every model in which the path constraints
  hold and the word has a value, the value is at least the lower bound and, when there is
  an upper bound, at most the upper bound, which fits the host integer; the visit budget and the memo
  tables do not affect this.
\<close>

theorem path_bounds_enclose_value:
  assumes "holds_all cx M constraints" "eval_word cx M e = Inr v"
  shows "lower_bound_usize constraints e \<le> unat v \<and>
    (case path_upper_bound_usize constraints e of None \<Rightarrow> True | Some b \<Rightarrow> unat v \<le> b \<and> b \<le> USIZE_MAX)"
  using keepsD(1) [OF expr_upper_bound_sound [OF assms(1)] analysis_start_ok, of e]
    keepsD(1) [OF expr_lower_bound_sound [OF assms(1)] analysis_start_ok, of e] assms(2)
  by (auto simp: path_upper_bound_usize_def lower_bound_usize_def usize_bound_def below_value_def
      dest: bounds_valueD split: option.splits)

theorem path_bounds_enclose_value_witness:
  "path_upper_bound_usize [CmpB Ult (Var 0) (Const 9)] (BinOp Add (Var 0) (Const 4)) = Some 12 \<and>
    lower_bound_usize [CmpB Ult (Var 0) (Const 9)] (BinOp Add (Var 0) (Const 4)) = 4 \<and> 4 \<le> unat (7 :: u256) \<and> unat (7 :: u256) \<le> 12"
proof -
  let ?cs = "[CmpB Ult (Var 0) (Const 9)]" and ?e = "BinOp Add (Var 0) (Const 4)"
  have u: "path_upper_bound_usize ?cs ?e = Some 12"
    by (simp add: path_upper_bound_usize_def expr_upper_bound_usize_cached.simps spend_def analysis_start_def store_upper_def
        MAX_BOUND_ANALYSIS_VISITS_def constraint_upper_bound_usize_def min_bound_def below_const_def usize_try_from_def
        combine_bounds_def checked_add_def State_Monad.update_def)
  have l: "lower_bound_usize ?cs ?e = 4"
    by (simp add: lower_bound_usize_def expr_lower_bound_usize.simps expr_upper_bound_usize_cached.simps spend_def analysis_start_def store_upper_def
        store_lower_def MAX_BOUND_ANALYSIS_VISITS_def constraint_upper_bound_usize_def min_bound_def below_const_def usize_try_from_def
        combine_bounds_def checked_add_def State_Monad.update_def)
  show ?thesis
    using path_bounds_enclose_value [of evm_cx "[0 \<mapsto> 3]" ?cs ?e 7] unfolding u l by simp
qed

text \<open>
  C15: a word that the path state calls constrained has that value. When \<open>constrained_word\<close> returns a value,
  from one constraint in the context of the others or by evaluating the word in the values which the
  constraints force on its symbols, then the word has this value under every model of the constraints.
\<close>

theorem constrained_word_is_value:
  assumes "constrained_word cx constraints e = Some w" "holds_all cx M constraints" "eval_word cx M e = Inr v"
  shows "v = w"
  by (rule constrained_word_sound [OF assms])

theorem constrained_word_is_value_witness:
  "constrained_word evm_cx [CmpB Eq (Var 0) (Const 3)] (BinOp Mul (Var 0) (Const 4)) = Some 12 \<and>
    (\<exists>v. eval_word evm_cx [0 \<mapsto> 3] (BinOp Mul (Var 0) (Const 4)) = Inr v \<and> v = 12)"
proof -
  let ?cs = "[CmpB Eq (Var 0) (Const 3)]" and ?e = "BinOp Mul (Var 0) (Const 4)"
  have w: "constrained_word evm_cx ?cs ?e = Some 12"
    by (simp add: constrained_word_def constrained_expr_value_def eval_closed_def eval_model_if_complete_def
      collect_eval_vars_def collect_with_def visit_unique_def index_insert_def known_word_def known_byte.simps equality_forces_const_def
      equality_forces_const_inner_def masked_expr_matches_def Let_def image_constant_conv)
  have v: "holds_all evm_cx [0 \<mapsto> 3] ?cs" "eval_word evm_cx [0 \<mapsto> 3] ?e = Inr (3 * 4)" by simp_all
  show ?thesis using w v(2) constrained_word_is_value [OF w v] by blast
qed

end
