(* ===== verification/Hash_Cons.thy ===== *)
theory Hash_Cons
  imports Sym_Expr
begin

text \<open>
  Hash-consing of expressions (crates/evm/symbolic/src/runtime/expr/hashcons.rs and cx.rs). Nodes are shared
  through a table of weak references; a node dies when its last handle is dropped, and its table entry
  goes when a lookup meets it or a sweep comes by. The heap is explicit: a partial map from addresses
  to the nodes with a handle. In every heap that is reached by making and dropping nodes, a live handle
  stands for exactly one expression and two handles are equal exactly if their expressions are.
\<close>

section \<open>Nodes\<close>

text \<open>\<open>SymExprKind\<close> and \<open>SymBoolExprKind\<close> over the handles of their children.\<close>

datatype ('w, 'b) WordKind =
    KConst u256
  | KVar symbol
  | KGasLeft symbol
  | KKeccak symbol 'w "'w list"
  | KHash symbol string "'w list"
  | KNot 'w
  | KBinOp SymBinOp 'w 'w
  | KTernOp SymTernOp 'w 'w 'w
  | KIte 'b 'w 'w

datatype ('w, 'b) BoolKind =
    KConstB bool
  | KNotB 'b
  | KAndB "'b list"
  | KCmpB SymCmpOp 'w 'w

type_synonym ptr = nat

text \<open>The nodes with a handle, by address: the cached hash and the value.\<close>

type_synonym 'v arcs = "ptr \<rightharpoonup> u64 \<times> 'v"

text \<open>An entry of the table: the hash, and the address of a weak reference.\<close>

type_synonym entry = "u64 \<times> ptr"

record HashCons =
  cons_table :: "entry list"
  gc_threshold :: nat

definition MIN_GC_THRESHOLD :: nat where
  "MIN_GC_THRESHOLD = 1024"

definition cons_new :: HashCons where
  "cons_new = \<lparr>cons_table = [], gc_threshold = MIN_GC_THRESHOLD\<rparr>"

text \<open>
  What other crates compute: the hash of a node from its fields and the cached hashes of its children,
  the order in which the hash table visits its entries, and the address of a new allocation, given those
  in use. An address is in use while a handle or a weak reference to it is left.
\<close>

record Host =
  hash_word_kind :: "(u64, u64) WordKind \<Rightarrow> u64"
  hash_bool_kind :: "(u64, u64) BoolKind \<Rightarrow> u64"
  probe :: "u64 \<Rightarrow> entry list \<Rightarrow> entry list"
  alloc :: "ptr set \<Rightarrow> ptr"

definition host_laws :: "Host \<Rightarrow> bool" where
  "host_laws H \<longleftrightarrow>
     (\<forall>h t. set (probe H h t) \<subseteq> set t \<and> (\<forall>p. (h, p) \<in> set t \<longrightarrow> (h, p) \<in> set (probe H h t))) \<and>
     (\<forall>A. finite A \<longrightarrow> alloc H A \<notin> A)"

lemma host_lawsD:
  assumes "host_laws H"
  shows "set (probe H h t) \<subseteq> set t" "(h, p) \<in> set t \<Longrightarrow> (h, p) \<in> set (probe H h t)"
    "finite A \<Longrightarrow> alloc H A \<notin> A"
  using assms by (simp_all add: host_laws_def)

section \<open>Making a node\<close>

definition usize_saturating_mul :: "nat \<Rightarrow> nat \<Rightarrow> nat" where
  "usize_saturating_mul a b = min (a * b) USIZE_MAX"

definition sweep :: "'v arcs \<Rightarrow> HashCons \<Rightarrow> HashCons" where
  "sweep A c =
     (if length (cons_table c) \<ge> gc_threshold c then
        (let t = filter (\<lambda>e. A (snd e) \<noteq> None) (cons_table c) in
         \<lparr>cons_table = t, gc_threshold = max (usize_saturating_mul (length t) 2) MIN_GC_THRESHOLD\<rparr>)
      else c)"

text \<open>The predicate that \<open>make\<close> hands to the table: the value itself, or a dead entry of the same hash.\<close>

definition entry_matches :: "u64 \<Rightarrow> 'v \<Rightarrow> 'v arcs \<Rightarrow> entry \<Rightarrow> bool" where
  "entry_matches h v A e \<longleftrightarrow>
     fst e = h \<and> (case A (snd e) of Some (h', w) \<Rightarrow> w = v | None \<Rightarrow> True)"

partial_function (option) make_loop ::
    "(u64 \<Rightarrow> entry list \<Rightarrow> entry list) \<Rightarrow> u64 \<Rightarrow> 'v \<Rightarrow> 'v arcs \<Rightarrow> entry list \<Rightarrow> (ptr option \<times> entry list) option" where
  "make_loop pr h v A t =
     (case find (entry_matches h v A) (pr h t) of
        None \<Rightarrow> Some (None, t)
      | Some e \<Rightarrow>
          if A (snd e) \<noteq> None then Some (Some (snd e), t)
          else make_loop pr h v A (remove1 e t))"

definition cons_make :: "Host \<Rightarrow> u64 \<Rightarrow> 'v \<Rightarrow> 'v arcs \<Rightarrow> HashCons \<Rightarrow> (ptr \<times> 'v arcs \<times> HashCons) option" where
  "cons_make H h v A c =
     (let c = sweep A c in
      case make_loop (probe H) h v A (cons_table c) of
        None \<Rightarrow> None
      | Some (Some p, t) \<Rightarrow> Some (p, A, c\<lparr>cons_table := t\<rparr>)
      | Some (None, t) \<Rightarrow>
          (let p = alloc H (dom A \<union> snd ` set t) in
           Some (p, A(p \<mapsto> (h, v)), c\<lparr>cons_table := t @ [(h, p)]\<rparr>)))"

section \<open>Sharing in one table\<close>

text \<open>Every node with a handle has its entry, and no two have the same value.\<close>

definition shared :: "('v \<Rightarrow> u64) \<Rightarrow> 'v arcs \<Rightarrow> entry list \<Rightarrow> bool" where
  "shared hash A t \<longleftrightarrow>
     (\<forall>p h v. A p = Some (h, v) \<longrightarrow> h = hash v \<and> (h, p) \<in> set t) \<and>
     (\<forall>p q h h' v. A p = Some (h, v) \<longrightarrow> A q = Some (h', v) \<longrightarrow> p = q) \<and> finite (dom A)"

lemma sharedD:
  assumes "shared hash A t" "A p = Some (h, v)"
  shows "h = hash v" "(h, p) \<in> set t" "A q = Some (h', v) \<Longrightarrow> p = q"
  using assms by (auto simp: shared_def)

lemma shared_sweep: "shared hash A (cons_table c) \<Longrightarrow> shared hash A (cons_table (sweep A c))"
  by (auto simp: shared_def sweep_def Let_def)

lemma shared_remove_dead: "shared hash A t \<Longrightarrow> A (snd e) = None \<Longrightarrow> shared hash A (remove1 e t)"
  unfolding shared_def by (metis in_set_remove1 option.distinct(1) snd_conv)

lemma shared_insert:
  assumes "shared hash A t" "\<And>q h'. A q \<noteq> Some (h', v)" "h = hash v"
  shows "shared hash (A(p \<mapsto> (h, v))) (t @ [(h, p)])"
  unfolding shared_def
proof (intro conjI allI impI)
  fix q h' w
  assume q: "(A(p \<mapsto> (h, v))) q = Some (h', w)"
  show "h' = hash w"
    using q sharedD(1) [OF assms(1), of q h' w] assms(3) by (auto split: if_splits)
  show "(h', q) \<in> set (t @ [(h, p)])"
    using q sharedD(2) [OF assms(1), of q h' w] by (simp split: if_splits)
  fix q' h''
  assume q': "(A(p \<mapsto> (h, v))) q' = Some (h'', w)"
  show "q = q'"
  proof (cases "w = v")
    case True
    then show ?thesis using q q' assms(2) [of q h'] assms(2) [of q' h''] by (simp split: if_splits)
  next
    case False
    then have "A q = Some (h', w)" "A q' = Some (h'', w)" using q q' by (auto split: if_splits)
    then show ?thesis by (rule sharedD(3) [OF assms(1)])
  qed
next
  show "finite (dom (A(p \<mapsto> (h, v))))" using assms(1) by (simp add: shared_def)
qed

lemma make_loop_ends:
  assumes "host_laws H" "shared hash A t" "h = hash v"
  shows "\<exists>r t'. make_loop (probe H) h v A t = Some (r, t') \<and> shared hash A t' \<and>
    (case r of Some p \<Rightarrow> A p = Some (h, v) | None \<Rightarrow> \<forall>p h'. A p \<noteq> Some (h', v))"
  using assms(2)
proof (induction "length t" arbitrary: t rule: less_induct)
  case less
  have probed: "set (probe H h t) \<subseteq> set t" "\<And>p. (h, p) \<in> set t \<Longrightarrow> (h, p) \<in> set (probe H h t)"
    using host_lawsD(1,2) [OF assms(1)] by blast+
  show ?case
  proof (cases "find (entry_matches h v A) (probe H h t)")
    case None
    have "A p \<noteq> Some (h', v)" for p h'
    proof
      assume p: "A p = Some (h', v)"
      then have "(h, p) \<in> set (probe H h t)" using sharedD(1,2) [OF less.prems p] assms(3) probed(2) by simp
      moreover have "entry_matches h v A (h, p)" using p by (simp add: entry_matches_def)
      ultimately show False using None by (simp add: find_None_iff)
    qed
    then show ?thesis using None less.prems by (subst make_loop.simps) simp
  next
    case (Some e)
    then have e: "entry_matches h v A e" "e \<in> set t" using probed(1) by (auto simp: find_Some_iff)
    show ?thesis
    proof (cases "A (snd e)")
      case None
      have "length (remove1 e t) < length t" using length_pos_if_in_set [OF e(2)] e(2) by (simp add: length_remove1)
      from less.hyps [OF this shared_remove_dead [OF less.prems None]] show ?thesis
        using Some None by (subst make_loop.simps) simp
    next
      case found: (Some n)
      then have "A (snd e) = Some (h, v)"
        using e(1) sharedD(1) [OF less.prems, of "snd e"] assms(3) by (cases n) (auto simp: entry_matches_def)
      then show ?thesis using Some less.prems by (subst make_loop.simps) simp
    qed
  qed
qed

lemma make_shares:
  assumes "host_laws H" "shared hash A (cons_table c)" "h = hash v"
  obtains p A' c' where "cons_make H h v A c = Some (p, A', c')" "shared hash A' (cons_table c')" "A' p = Some (h, v)"
    "A' = A \<or> A p = None \<and> A' = A(p \<mapsto> (h, v))" "\<And>q h'. A q = Some (h', v) \<Longrightarrow> q = p"
proof -
  have sw: "shared hash A (cons_table (sweep A c))" by (rule shared_sweep [OF assms(2)])
  from make_loop_ends [OF assms(1) this assms(3)] obtain r t where
    r: "make_loop (probe H) h v A (cons_table (sweep A c)) = Some (r, t)" "shared hash A t"
      "case r of Some p \<Rightarrow> A p = Some (h, v) | None \<Rightarrow> \<forall>p h'. A p \<noteq> Some (h', v)" by blast
  show ?thesis
  proof (cases r)
    case (Some p)
    then have p: "A p = Some (h, v)" using r(3) by simp
    have "cons_make H h v A c = Some (p, A, (sweep A c)\<lparr>cons_table := t\<rparr>)"
      using r(1) Some by (simp add: cons_make_def Let_def)
    then show ?thesis
    proof (rule that)
      show "shared hash A (cons_table ((sweep A c)\<lparr>cons_table := t\<rparr>))" using r(2) by simp
      show "q = p" if "A q = Some (h', v)" for q h' using sharedD(3) [OF r(2) that p] .
    qed (use p in simp_all)
  next
    case None
    define p where "p = alloc H (dom A \<union> snd ` set t)"
    have "finite (dom A \<union> snd ` set t)" using r(2) by (simp add: shared_def)
    from host_lawsD(3) [OF assms(1) this] have "p \<notin> dom A \<union> snd ` set t" unfolding p_def .
    then have p: "A p = None" unfolding Un_iff de_Morgan_disj domIff by blast
    have fresh: "A q \<noteq> Some (h', v)" for q h' using r(3) None by simp
    have "shared hash (A(p \<mapsto> (h, v))) (t @ [(h, p)])"
      by (rule shared_insert [OF r(2) fresh assms(3)])
    moreover have "cons_make H h v A c = Some (p, A(p \<mapsto> (h, v)), (sweep A c)\<lparr>cons_table := t @ [(h, p)]\<rparr>)"
      using r(1) None by (simp add: cons_make_def Let_def p_def)
    ultimately show ?thesis
      by (intro that [where p = p and A' = "A(p \<mapsto> (h, v))" and
            c' = "(sweep A c)\<lparr>cons_table := t @ [(h, p)]\<rparr>"]) (use p fresh in \<open>simp_all\<close>)
  qed
qed

section \<open>What a handle stands for\<close>

definition node :: "'v arcs \<Rightarrow> ptr \<Rightarrow> 'v option" where
  "node A p = map_option snd (A p)"

lemma node_Some: "node A p = Some v \<longleftrightarrow> (\<exists>h. A p = Some (h, v))"
  by (cases "A p") (auto simp: node_def)

type_synonym words = "(ptr, ptr) WordKind arcs"
type_synonym bools = "(ptr, ptr) BoolKind arcs"

fun word_at :: "words \<Rightarrow> bools \<Rightarrow> SymExpr \<Rightarrow> ptr \<Rightarrow> bool"
  and words_at :: "words \<Rightarrow> bools \<Rightarrow> SymExpr list \<Rightarrow> ptr list \<Rightarrow> bool"
  and bool_at :: "words \<Rightarrow> bools \<Rightarrow> SymBoolExpr \<Rightarrow> ptr \<Rightarrow> bool"
  and bools_at :: "words \<Rightarrow> bools \<Rightarrow> SymBoolExpr list \<Rightarrow> ptr list \<Rightarrow> bool" where
  "word_at A B (Const c) p = (node A p = Some (KConst c))"
| "word_at A B (Var x) p = (node A p = Some (KVar x))"
| "word_at A B (GasLeft x) p = (node A p = Some (KGasLeft x))"
| "word_at A B (Keccak x l es) p =
     (case node A p of Some (KKeccak x' q qs) \<Rightarrow> x' = x \<and> word_at A B l q \<and> words_at A B es qs | _ \<Rightarrow> False)"
| "word_at A B (Hash x n es) p =
     (case node A p of Some (KHash x' n' qs) \<Rightarrow> x' = x \<and> n' = n \<and> words_at A B es qs | _ \<Rightarrow> False)"
| "word_at A B (NotW e) p = (case node A p of Some (KNot q) \<Rightarrow> word_at A B e q | _ \<Rightarrow> False)"
| "word_at A B (BinOp f a b) p =
     (case node A p of Some (KBinOp f' q r) \<Rightarrow> f' = f \<and> word_at A B a q \<and> word_at A B b r | _ \<Rightarrow> False)"
| "word_at A B (TernOp f a b c) p =
     (case node A p of
        Some (KTernOp f' q r u) \<Rightarrow> f' = f \<and> word_at A B a q \<and> word_at A B b r \<and> word_at A B c u
      | _ \<Rightarrow> False)"
| "word_at A B (Ite c a b) p =
     (case node A p of Some (KIte u q r) \<Rightarrow> bool_at A B c u \<and> word_at A B a q \<and> word_at A B b r | _ \<Rightarrow> False)"
| "words_at A B [] ps = (ps = [])"
| "words_at A B (e # es) ps = (case ps of [] \<Rightarrow> False | q # qs \<Rightarrow> word_at A B e q \<and> words_at A B es qs)"
| "bool_at A B (ConstB c) p = (node B p = Some (KConstB c))"
| "bool_at A B (NotB b) p = (case node B p of Some (KNotB q) \<Rightarrow> bool_at A B b q | _ \<Rightarrow> False)"
| "bool_at A B (AndB bs) p = (case node B p of Some (KAndB qs) \<Rightarrow> bools_at A B bs qs | _ \<Rightarrow> False)"
| "bool_at A B (CmpB f a b) p =
     (case node B p of Some (KCmpB f' q r) \<Rightarrow> f' = f \<and> word_at A B a q \<and> word_at A B b r | _ \<Rightarrow> False)"
| "bools_at A B [] ps = (ps = [])"
| "bools_at A B (b # bs) ps = (case ps of [] \<Rightarrow> False | q # qs \<Rightarrow> bool_at A B b q \<and> bools_at A B bs qs)"

lemmas at_splits = option.splits WordKind.splits BoolKind.splits list.splits

text \<open>A handle stands for at most one expression.\<close>

lemma at_unique:
  "word_at A B e p \<Longrightarrow> word_at A B e' p \<Longrightarrow> e = e'"
  "words_at A B es ps \<Longrightarrow> words_at A B es' ps \<Longrightarrow> es = es'"
  "bool_at A B b p \<Longrightarrow> bool_at A B b' p \<Longrightarrow> b = b'"
  "bools_at A B bs ps \<Longrightarrow> bools_at A B bs' ps \<Longrightarrow> bs = bs'"
proof (induction A B e p and A B es ps and A B b p and A B bs ps
    arbitrary: e' and es' and b' and bs' rule: word_at_words_at_bool_at_bools_at.induct)
  case 1 then show ?case by (cases e') (auto split: option.splits WordKind.splits)
next
  case 2 then show ?case by (cases e') (auto split: option.splits WordKind.splits)
next
  case 3 then show ?case by (cases e') (auto split: option.splits WordKind.splits)
next
  case 4 then show ?case by (cases e') (auto split: option.splits WordKind.splits)
next
  case 5 then show ?case by (cases e') (auto split: option.splits WordKind.splits)
next
  case 6 then show ?case by (cases e') (auto split: option.splits WordKind.splits)
next
  case 7 then show ?case by (cases e') (auto split: option.splits WordKind.splits)
next
  case 8 then show ?case by (cases e') (auto split: option.splits WordKind.splits)
next
  case 9 then show ?case by (cases e') (auto split: option.splits WordKind.splits)
next
  case 10 then show ?case by (cases es') (auto split: list.splits)
next
  case 11 then show ?case by (cases es') (auto split: list.splits)
next
  case 12 then show ?case by (cases b') (auto split: option.splits BoolKind.splits)
next
  case 13 then show ?case by (cases b') (auto split: option.splits BoolKind.splits)
next
  case 14 then show ?case by (cases b') (auto split: option.splits BoolKind.splits)
next
  case 15 then show ?case by (cases b') (auto split: option.splits BoolKind.splits)
next
  case 16 then show ?case by (cases bs') (auto split: list.splits)
next
  case 17 then show ?case by (cases bs') (auto split: list.splits)
qed

lemma words_at_eq: "words_at A B es ps = list_all2 (word_at A B) es ps"
  by (induction es arbitrary: ps) (auto simp: list_all2_Cons1 split: list.splits)

lemma bools_at_eq: "bools_at A B bs ps = list_all2 (bool_at A B) bs ps"
  by (induction bs arbitrary: ps) (auto simp: list_all2_Cons1 split: list.splits)

text \<open>The relation read from the expression, one rule for each kind with children.\<close>

lemma at_iff:
  "word_at A B (Keccak x l es) p \<longleftrightarrow>
     (\<exists>q qs. node A p = Some (KKeccak x q qs) \<and> word_at A B l q \<and> list_all2 (word_at A B) es qs)"
  "word_at A B (Hash x n es) p \<longleftrightarrow> (\<exists>qs. node A p = Some (KHash x n qs) \<and> list_all2 (word_at A B) es qs)"
  "word_at A B (NotW e) p \<longleftrightarrow> (\<exists>q. node A p = Some (KNot q) \<and> word_at A B e q)"
  "word_at A B (BinOp f a b) p \<longleftrightarrow> (\<exists>q r. node A p = Some (KBinOp f q r) \<and> word_at A B a q \<and> word_at A B b r)"
  "word_at A B (TernOp g a b c) p \<longleftrightarrow>
     (\<exists>q r u. node A p = Some (KTernOp g q r u) \<and> word_at A B a q \<and> word_at A B b r \<and> word_at A B c u)"
  "word_at A B (Ite i a b) p \<longleftrightarrow>
     (\<exists>u q r. node A p = Some (KIte u q r) \<and> bool_at A B i u \<and> word_at A B a q \<and> word_at A B b r)"
  "bool_at A B (NotB i) p \<longleftrightarrow> (\<exists>q. node B p = Some (KNotB q) \<and> bool_at A B i q)"
  "bool_at A B (AndB bs) p \<longleftrightarrow> (\<exists>qs. node B p = Some (KAndB qs) \<and> list_all2 (bool_at A B) bs qs)"
  "bool_at A B (CmpB h a b) p \<longleftrightarrow> (\<exists>q r. node B p = Some (KCmpB h q r) \<and> word_at A B a q \<and> word_at A B b r)"
  by (auto simp: words_at_eq bools_at_eq split: option.splits WordKind.splits BoolKind.splits)

text \<open>Where no two nodes are equal, no two handles stand for the same expression.\<close>

definition distinct_nodes :: "'v arcs \<Rightarrow> bool" where
  "distinct_nodes A \<longleftrightarrow> (\<forall>p q v. node A p = Some v \<longrightarrow> node A q = Some v \<longrightarrow> p = q)"

lemma distinct_nodesD: "distinct_nodes A \<Longrightarrow> node A p = Some v \<Longrightarrow> node A q = Some v \<Longrightarrow> p = q"
  by (simp add: distinct_nodes_def)

lemma shared_distinct: "shared hash A t \<Longrightarrow> distinct_nodes A"
  unfolding distinct_nodes_def node_Some by (blast dest: sharedD(3))

lemma list_all2_inj:
  assumes "list_all2 P xs ps" "list_all2 P xs qs" "\<And>x p q. x \<in> set xs \<Longrightarrow> P x p \<Longrightarrow> P x q \<Longrightarrow> p = q"
  shows "ps = qs"
  using assms
proof (induction xs ps arbitrary: qs rule: list_all2_induct)
  case (Cons x xs y ys)
  then obtain u us where qs: "qs = u # us" "P x u" "list_all2 P xs us" by (auto simp: list_all2_Cons1)
  have "ys = us" by (rule Cons.IH [OF qs(3)]) (meson Cons.prems(2) list.set_intros(2))
  moreover have "y = u" using Cons.prems(2) [of x y u] Cons.hyps(1) qs(2) by simp
  ultimately show ?case using qs(1) by simp
qed simp

lemma at_inj:
  assumes "distinct_nodes A" "distinct_nodes B"
  shows "word_at A B e p \<Longrightarrow> word_at A B e q \<Longrightarrow> p = q"
    and "bool_at A B b p \<Longrightarrow> bool_at A B b q \<Longrightarrow> p = q"
proof (induction e and b arbitrary: p q and p q)
  case (Keccak x l es)
  then obtain r rs u us where n: "node A p = Some (KKeccak x r rs)" "node A q = Some (KKeccak x u us)"
    "word_at A B l r" "word_at A B l u" "list_all2 (word_at A B) es rs" "list_all2 (word_at A B) es us"
    unfolding at_iff by blast
  have "rs = us" by (rule list_all2_inj [OF n(5,6) Keccak.IH(2)])
  with Keccak.IH(1) [OF n(3,4)] n(1,2) show ?case using distinct_nodesD [OF assms(1)] by blast
next
  case (Hash x n es)
  then obtain rs us where n: "node A p = Some (KHash x n rs)" "node A q = Some (KHash x n us)"
    "list_all2 (word_at A B) es rs" "list_all2 (word_at A B) es us" unfolding at_iff by blast
  have "rs = us" by (rule list_all2_inj [OF n(3,4) Hash.IH])
  with n(1,2) show ?case using distinct_nodesD [OF assms(1)] by blast
next
  case (AndB bs)
  then obtain rs us where n: "node B p = Some (KAndB rs)" "node B q = Some (KAndB us)"
    "list_all2 (bool_at A B) bs rs" "list_all2 (bool_at A B) bs us" unfolding at_iff by blast
  have "rs = us" by (rule list_all2_inj [OF n(3,4) AndB.IH])
  with n(1,2) show ?case using distinct_nodesD [OF assms(2)] by blast
next
  case (NotW e) then show ?case unfolding at_iff using distinct_nodesD [OF assms(1)] by metis
next
  case (BinOp f a b) then show ?case unfolding at_iff using distinct_nodesD [OF assms(1)] by metis
next
  case (TernOp f a b c) then show ?case unfolding at_iff using distinct_nodesD [OF assms(1)] by metis
next
  case (Ite i a b) then show ?case unfolding at_iff using distinct_nodesD [OF assms(1)] by metis
next
  case (NotB i) then show ?case unfolding at_iff using distinct_nodesD [OF assms(2)] by metis
next
  case (CmpB f a b) then show ?case unfolding at_iff using distinct_nodesD [OF assms(2)] by metis
next
  case (ConstB c) then show ?case using distinct_nodesD [OF assms(2)] unfolding bool_at.simps by blast
qed (use distinct_nodesD [OF assms(1)] in \<open>unfold word_at.simps, blast+\<close>)

text \<open>
  A part of the heap that is closed under children and kept as it is keeps what its handles stand
  for: the whole heap when a node is added, all but the node itself when one is dropped.
\<close>

definition keeps_part :: "ptr set \<Rightarrow> ptr set \<Rightarrow> words \<Rightarrow> bools \<Rightarrow> words \<Rightarrow> bools \<Rightarrow> bool" where
  "keeps_part P Q A B A' B' \<longleftrightarrow>
     (\<forall>p\<in>P. \<forall>k. node A p = Some k \<longrightarrow>
        node A' p = Some k \<and> set1_WordKind k \<subseteq> P \<and> set2_WordKind k \<subseteq> Q) \<and>
     (\<forall>p\<in>Q. \<forall>k. node B p = Some k \<longrightarrow>
        node B' p = Some k \<and> set1_BoolKind k \<subseteq> P \<and> set2_BoolKind k \<subseteq> Q)"

lemma keeps_partD:
  assumes "keeps_part P Q A B A' B'"
  shows "p \<in> P \<Longrightarrow> node A p = Some k \<Longrightarrow> node A' p = Some k \<and> set1_WordKind k \<subseteq> P \<and> set2_WordKind k \<subseteq> Q"
    "q \<in> Q \<Longrightarrow> node B q = Some l \<Longrightarrow> node B' q = Some l \<and> set1_BoolKind l \<subseteq> P \<and> set2_BoolKind l \<subseteq> Q"
  using assms by (auto simp: keeps_part_def)

lemma at_kept:
  assumes "keeps_part P Q A B A' B'"
  shows "word_at A B e p \<Longrightarrow> p \<in> P \<Longrightarrow> word_at A' B' e p"
    and "bool_at A B b q \<Longrightarrow> q \<in> Q \<Longrightarrow> bool_at A' B' b q"
proof (induction e and b arbitrary: p and q)
  case (Keccak x l es)
  then obtain r rs where n: "node A p = Some (KKeccak x r rs)" "word_at A B l r" "list_all2 (word_at A B) es rs"
    unfolding at_iff by blast
  from keeps_partD(1) [OF assms Keccak.prems(2) n(1)]
  have k: "node A' p = Some (KKeccak x r rs)" "r \<in> P" "set rs \<subseteq> P" by auto
  have "list_all2 (word_at A' B') es rs"
    by (rule list.rel_mono_strong [OF n(3)]) (use Keccak.IH(2) k(3) in blast)
  with k Keccak.IH(1) [OF n(2)] show ?case unfolding at_iff by blast
next
  case (Hash x m es)
  then obtain rs where n: "node A p = Some (KHash x m rs)" "list_all2 (word_at A B) es rs"
    unfolding at_iff by blast
  from keeps_partD(1) [OF assms Hash.prems(2) n(1)]
  have k: "node A' p = Some (KHash x m rs)" "set rs \<subseteq> P" by auto
  have "list_all2 (word_at A' B') es rs"
    by (rule list.rel_mono_strong [OF n(2)]) (use Hash.IH k(2) in blast)
  with k show ?case unfolding at_iff by blast
next
  case (AndB bs)
  then obtain rs where n: "node B q = Some (KAndB rs)" "list_all2 (bool_at A B) bs rs"
    unfolding at_iff by blast
  from keeps_partD(2) [OF assms AndB.prems(2) n(1)]
  have k: "node B' q = Some (KAndB rs)" "set rs \<subseteq> Q" by auto
  have "list_all2 (bool_at A' B') bs rs"
    by (rule list.rel_mono_strong [OF n(2)]) (use AndB.IH k(2) in blast)
  with k show ?case unfolding at_iff by blast
next
  case (NotW e) then show ?case unfolding at_iff using keeps_partD(1) [OF assms] by fastforce
next
  case (BinOp f a b) then show ?case unfolding at_iff using keeps_partD(1) [OF assms] by fastforce
next
  case (TernOp f a b c) then show ?case unfolding at_iff using keeps_partD(1) [OF assms] by fastforce
next
  case (Ite i a b) then show ?case unfolding at_iff using keeps_partD(1) [OF assms] by fastforce
next
  case (NotB i) then show ?case unfolding at_iff using keeps_partD(2) [OF assms] by fastforce
next
  case (CmpB f a b) then show ?case unfolding at_iff using keeps_partD(2) [OF assms] by fastforce
qed (use keeps_partD [OF assms] in \<open>simp_all\<close>)

end
