(* ===== verification/Hash_Context.thy ===== *)
theory Hash_Context
  imports Hash_Cons "HOL-Library.Monad_Syntax"
begin

text \<open>
  The context that owns the tables of shared nodes (crates/evm/symbolic/src/runtime/expr/cx.rs), and its runs: nodes
  are made from handles that are held, and dropped when no node and no field of the context refers
  to them. In every context that a run reaches, a handle stands for exactly one expression, and two
  handles are equal exactly if their expressions are. This is what allows the other theories to
  compare expressions by structure where the code compares pointers.
\<close>

section \<open>The context\<close>

text \<open>The two tables of nodes, with the nodes that have a handle.\<close>

record Tables =
  word_arcs :: words
  bool_arcs :: bools
  words_cons :: HashCons
  bools_cons :: HashCons

definition tables_new :: Tables where
  "tables_new = \<lparr>word_arcs = Map.empty, bool_arcs = Map.empty, words_cons = cons_new, bools_cons = cons_new\<rparr>"

text \<open>The hash of a node reads the hash cached in each child.\<close>

definition cached_hash :: "'v arcs \<Rightarrow> ptr \<Rightarrow> u64" where
  "cached_hash A p = (case A p of Some (h, v) \<Rightarrow> h | None \<Rightarrow> 0)"

definition word_hash :: "Host \<Rightarrow> words \<Rightarrow> bools \<Rightarrow> (ptr, ptr) WordKind \<Rightarrow> u64" where
  "word_hash H A B k = hash_word_kind H (map_WordKind (cached_hash A) (cached_hash B) k)"

definition bool_hash :: "Host \<Rightarrow> words \<Rightarrow> bools \<Rightarrow> (ptr, ptr) BoolKind \<Rightarrow> u64" where
  "bool_hash H A B k = hash_bool_kind H (map_BoolKind (cached_hash A) (cached_hash B) k)"

definition make_word :: "Host \<Rightarrow> (ptr, ptr) WordKind \<Rightarrow> Tables \<Rightarrow> (ptr \<times> Tables) option" where
  "make_word H k T =
     (case cons_make H (word_hash H (word_arcs T) (bool_arcs T) k) k (word_arcs T) (words_cons T) of
        None \<Rightarrow> None
      | Some (p, A, c) \<Rightarrow> Some (p, T\<lparr>word_arcs := A, words_cons := c\<rparr>))"

definition make_bool :: "Host \<Rightarrow> (ptr, ptr) BoolKind \<Rightarrow> Tables \<Rightarrow> (ptr \<times> Tables) option" where
  "make_bool H k T =
     (case cons_make H (bool_hash H (word_arcs T) (bool_arcs T) k) k (bool_arcs T) (bools_cons T) of
        None \<Rightarrow> None
      | Some (p, B, c) \<Rightarrow> Some (p, T\<lparr>bool_arcs := B, bools_cons := c\<rparr>))"

section \<open>The heap of a context\<close>

definition word_kids_live :: "words \<Rightarrow> bools \<Rightarrow> (ptr, ptr) WordKind \<Rightarrow> bool" where
  "word_kids_live A B k \<longleftrightarrow> set1_WordKind k \<subseteq> dom A \<and> set2_WordKind k \<subseteq> dom B"

definition bool_kids_live :: "words \<Rightarrow> bools \<Rightarrow> (ptr, ptr) BoolKind \<Rightarrow> bool" where
  "bool_kids_live A B k \<longleftrightarrow> set1_BoolKind k \<subseteq> dom A \<and> set2_BoolKind k \<subseteq> dom B"

text \<open>Nodes are shared, their children have handles, and every handle stands for an expression.\<close>

definition closed :: "words \<Rightarrow> bools \<Rightarrow> bool" where
  "closed A B \<longleftrightarrow>
     (\<forall>p k. node A p = Some k \<longrightarrow> word_kids_live A B k) \<and> (\<forall>p k. node B p = Some k \<longrightarrow> bool_kids_live A B k)"

definition denoting :: "words \<Rightarrow> bools \<Rightarrow> bool" where
  "denoting A B \<longleftrightarrow> (\<forall>p\<in>dom A. \<exists>e. word_at A B e p) \<and> (\<forall>p\<in>dom B. \<exists>b. bool_at A B b p)"

definition tables_ok :: "Host \<Rightarrow> Tables \<Rightarrow> bool" where
  "tables_ok H T \<longleftrightarrow>
     (let A = word_arcs T; B = bool_arcs T in
      shared (word_hash H A B) A (cons_table (words_cons T)) \<and>
      shared (bool_hash H A B) B (cons_table (bools_cons T)) \<and> closed A B \<and> denoting A B)"

lemma tables_okD:
  assumes "tables_ok H T"
  shows "shared (word_hash H (word_arcs T) (bool_arcs T)) (word_arcs T) (cons_table (words_cons T))"
    "shared (bool_hash H (word_arcs T) (bool_arcs T)) (bool_arcs T) (cons_table (bools_cons T))"
    "closed (word_arcs T) (bool_arcs T)" "denoting (word_arcs T) (bool_arcs T)"
  using assms by (simp_all add: tables_ok_def Let_def)

lemma closedD:
  assumes "closed A B"
  shows "node A p = Some k \<Longrightarrow> word_kids_live A B k" "node B q = Some l \<Longrightarrow> bool_kids_live A B l"
  using assms by (simp_all add: closed_def)

lemma shared_hash_cong:
  assumes "shared hash A t" "\<And>p v. node A p = Some v \<Longrightarrow> hash' v = hash v"
  shows "shared hash' A t"
  unfolding shared_def
proof (intro conjI allI impI)
  fix p h v
  assume p: "A p = Some (h, v)"
  then have "hash' v = hash v" by (intro assms(2)) (auto simp: node_Some)
  then show "h = hash' v" using sharedD(1) [OF assms(1) p] by simp
  show "(h, p) \<in> set t" by (rule sharedD(2) [OF assms(1) p])
  show "p = q" if "A q = Some (h', v)" for q h' by (rule sharedD(3) [OF assms(1) p that])
next
  show "finite (dom A)" using assms(1) by (simp add: shared_def)
qed

lemma cached_hash_cong: "A' p = A p \<Longrightarrow> cached_hash A' p = cached_hash A p"
  by (simp add: cached_hash_def)

lemma hash_cong:
  "(\<And>q. q \<in> set1_WordKind k \<Longrightarrow> A' q = A q) \<Longrightarrow> (\<And>q. q \<in> set2_WordKind k \<Longrightarrow> B' q = B q) \<Longrightarrow>
     word_hash H A' B' k = word_hash H A B k"
  "(\<And>q. q \<in> set1_BoolKind l \<Longrightarrow> A' q = A q) \<Longrightarrow> (\<And>q. q \<in> set2_BoolKind l \<Longrightarrow> B' q = B q) \<Longrightarrow>
     bool_hash H A' B' l = bool_hash H A B l"
  unfolding word_hash_def bool_hash_def
  by (intro arg_cong [of _ _ "hash_word_kind H"] WordKind.map_cong refl cached_hash_cong, assumption+)
    (intro arg_cong [of _ _ "hash_bool_kind H"] BoolKind.map_cong refl cached_hash_cong, assumption+)

lemma live_node: "p \<in> dom A \<longleftrightarrow> (\<exists>k. node A p = Some k)"
  by (cases "A p") (auto simp: node_def)

text \<open>A heap that agrees with another on its nodes gives the nodes the same hashes.\<close>

lemma hash_agree:
  assumes "\<And>q. q \<in> dom A \<Longrightarrow> A' q = A q" "\<And>q. q \<in> dom B \<Longrightarrow> B' q = B q"
  shows "word_kids_live A B k \<Longrightarrow> word_hash H A' B' k = word_hash H A B k"
    "bool_kids_live A B l \<Longrightarrow> bool_hash H A' B' l = bool_hash H A B l"
proof -
  show "word_hash H A' B' k = word_hash H A B k" if "word_kids_live A B k"
    by (rule hash_cong(1)) (use assms that in \<open>unfold word_kids_live_def, blast+\<close>)
  show "bool_hash H A' B' l = bool_hash H A B l" if "bool_kids_live A B l"
    by (rule hash_cong(2)) (use assms that in \<open>unfold bool_kids_live_def, blast+\<close>)
qed

lemma insert_agree: "A p = None \<Longrightarrow> q \<in> dom A \<Longrightarrow> (A(p \<mapsto> n)) q = A q"
  by auto

lemma insert_keeps:
  "A p = None \<Longrightarrow> keeps_part UNIV UNIV A B (A(p \<mapsto> n)) B"
  "B p = None \<Longrightarrow> keeps_part UNIV UNIV A B A (B(p \<mapsto> m))"
  unfolding keeps_part_def by (auto simp: node_def)

lemma keeps_all_refl: "keeps_part UNIV UNIV A B A B"
  by (simp add: keeps_part_def)

lemma denoting_kept:
  assumes "keeps_part UNIV UNIV A B A' B'" "denoting A B"
    "\<And>p. p \<in> dom A' \<Longrightarrow> p \<notin> dom A \<Longrightarrow> \<exists>e. word_at A' B' e p"
    "\<And>p. p \<in> dom B' \<Longrightarrow> p \<notin> dom B \<Longrightarrow> \<exists>b. bool_at A' B' b p"
  shows "denoting A' B'"
  using assms at_kept [OF assms(1)] unfolding denoting_def by (meson UNIV_I)

text \<open>A new node over live children stands for the expression built from theirs.\<close>

lemma words_denote:
  assumes "denoting A B"
  shows "set ps \<subseteq> dom A \<Longrightarrow> \<exists>es. list_all2 (word_at A B) es ps" "set qs \<subseteq> dom B \<Longrightarrow> \<exists>bs. list_all2 (bool_at A B) bs qs"
proof -
  show "\<exists>es. list_all2 (word_at A B) es ps" if "set ps \<subseteq> dom A"
    using that assms by (induction ps) (fastforce simp: denoting_def intro: list.rel_intros)+
  show "\<exists>bs. list_all2 (bool_at A B) bs qs" if "set qs \<subseteq> dom B"
    using that assms by (induction qs) (fastforce simp: denoting_def intro: list.rel_intros)+
qed

lemma words_denote_later:
  assumes "denoting A B" "keeps_part UNIV UNIV A B A' B'"
  shows "q \<in> dom A \<Longrightarrow> \<exists>e. word_at A' B' e q" "r \<in> dom B \<Longrightarrow> \<exists>b. bool_at A' B' b r"
    "set ps \<subseteq> dom A \<Longrightarrow> \<exists>es. list_all2 (word_at A' B') es ps" "set qs \<subseteq> dom B \<Longrightarrow> \<exists>bs. list_all2 (bool_at A' B') bs qs"
proof -
  note kept = at_kept [OF assms(2), OF _ UNIV_I]
  show "q \<in> dom A \<Longrightarrow> \<exists>e. word_at A' B' e q" "r \<in> dom B \<Longrightarrow> \<exists>b. bool_at A' B' b r"
    using assms(1) kept unfolding denoting_def by blast+
  show "\<exists>es. list_all2 (word_at A' B') es ps" if live: "set ps \<subseteq> dom A"
  proof -
    obtain es where "list_all2 (word_at A B) es ps" using words_denote(1) [OF assms(1) live] ..
    from list_all2_mono [OF this kept(1)] show ?thesis by (rule exI)
  qed
  show "\<exists>bs. list_all2 (bool_at A' B') bs qs" if live: "set qs \<subseteq> dom B"
  proof -
    obtain bs where "list_all2 (bool_at A B) bs qs" using words_denote(2) [OF assms(1) live] ..
    from list_all2_mono [OF this kept(2)] show ?thesis by (rule exI)
  qed
qed

lemma new_word_denotes:
  assumes "denoting A B" "keeps_part UNIV UNIV A B A' B'" "word_kids_live A B k" "node A' p = Some k"
  shows "\<exists>e. word_at A' B' e p"
proof -
  note later = words_denote_later [OF assms(1,2)]
  show ?thesis
  proof (cases k)
    case (KConst c) then show ?thesis using assms(4) by (intro exI [of _ "Const c"]) simp
  next
    case (KVar x) then show ?thesis using assms(4) by (intro exI [of _ "Var x"]) simp
  next
    case (KGasLeft x) then show ?thesis using assms(4) by (intro exI [of _ "GasLeft x"]) simp
  next
    case (KKeccak x q qs)
    obtain e es where "word_at A' B' e q" "list_all2 (word_at A' B') es qs"
      using later(1) [of q] later(3) [of qs]
        assms(3) [unfolded KKeccak word_kids_live_def WordKind.set insert_subset]
      by blast
    then show ?thesis using KKeccak assms(4) by (intro exI [of _ "Keccak x e es"]) (simp only: at_iff, blast)
  next
    case (KHash x n qs)
    obtain es where "list_all2 (word_at A' B') es qs"
      using later(3) [of qs]
        assms(3) [unfolded KHash word_kids_live_def WordKind.set insert_subset]
      by blast
    then show ?thesis using KHash assms(4) by (intro exI [of _ "Hash x n es"]) (simp only: at_iff, blast)
  next
    case (KNot q)
    obtain e where "word_at A' B' e q" using later(1) [of q]
        assms(3) [unfolded KNot word_kids_live_def WordKind.set insert_subset]
      by blast
    then show ?thesis using KNot assms(4) by (intro exI [of _ "NotW e"]) (simp only: at_iff, blast)
  next
    case (KBinOp f q r)
    obtain a b where "word_at A' B' a q" "word_at A' B' b r"
      using later(1) [of q] later(1) [of r]
        assms(3) [unfolded KBinOp word_kids_live_def WordKind.set insert_subset]
      by blast
    then show ?thesis using KBinOp assms(4) by (intro exI [of _ "BinOp f a b"]) (simp only: at_iff, blast)
  next
    case (KTernOp f q r u)
    obtain a b c where "word_at A' B' a q" "word_at A' B' b r" "word_at A' B' c u"
      using later(1) [of q] later(1) [of r] later(1) [of u]
        assms(3) [unfolded KTernOp word_kids_live_def WordKind.set insert_subset]
      by blast
    then show ?thesis using KTernOp assms(4) by (intro exI [of _ "TernOp f a b c"]) (simp only: at_iff, blast)
  next
    case (KIte u q r)
    obtain i a b where "bool_at A' B' i u" "word_at A' B' a q" "word_at A' B' b r"
      using later(2) [of u] later(1) [of q] later(1) [of r]
        assms(3) [unfolded KIte word_kids_live_def WordKind.set insert_subset]
      by blast
    then show ?thesis using KIte assms(4) by (intro exI [of _ "Ite i a b"]) (simp only: at_iff, blast)
  qed
qed

lemma new_bool_denotes:
  assumes "denoting A B" "keeps_part UNIV UNIV A B A' B'" "bool_kids_live A B k" "node B' p = Some k"
  shows "\<exists>b. bool_at A' B' b p"
proof -
  note later = words_denote_later [OF assms(1,2)]
  show ?thesis
  proof (cases k)
    case (KConstB c) then show ?thesis using assms(4) by (intro exI [of _ "ConstB c"]) simp
  next
    case (KNotB q)
    obtain i where "bool_at A' B' i q" using later(2) [of q]
        assms(3) [unfolded KNotB bool_kids_live_def BoolKind.set insert_subset]
      by blast
    then show ?thesis using KNotB assms(4) by (intro exI [of _ "NotB i"]) (simp only: at_iff, blast)
  next
    case (KAndB qs)
    obtain bs where "list_all2 (bool_at A' B') bs qs"
      using later(4) [of qs]
        assms(3) [unfolded KAndB bool_kids_live_def BoolKind.set insert_subset]
      by blast
    then show ?thesis using KAndB assms(4) by (intro exI [of _ "AndB bs"]) (simp only: at_iff, blast)
  next
    case (KCmpB f q r)
    obtain a b where "word_at A' B' a q" "word_at A' B' b r"
      using later(1) [of q] later(1) [of r]
        assms(3) [unfolded KCmpB bool_kids_live_def BoolKind.set insert_subset]
      by blast
    then show ?thesis using KCmpB assms(4) by (intro exI [of _ "CmpB f a b"]) (simp only: at_iff, blast)
  qed
qed

section \<open>Making a node in the context\<close>

lemma node_insert: "node (A(p \<mapsto> (h, k))) q = (if q = p then Some k else node A q)"
  by (simp add: node_def)

lemma kids_live_mono:
  assumes "dom A \<subseteq> dom A'" "dom B \<subseteq> dom B'"
  shows "word_kids_live A B k \<Longrightarrow> word_kids_live A' B' k" "bool_kids_live A B l \<Longrightarrow> bool_kids_live A' B' l"
  using assms unfolding word_kids_live_def bool_kids_live_def by blast+

lemma dom_insert: "dom A \<subseteq> dom (A(p \<mapsto> n))"
  by (simp add: subset_insertI)

lemma closed_insert:
  assumes "closed A B"
  shows "word_kids_live A B k \<Longrightarrow> closed (A(p \<mapsto> (h, k))) B" "bool_kids_live A B l \<Longrightarrow> closed A (B(p \<mapsto> (h, l)))"
  unfolding closed_def node_insert
  using closedD [OF assms] kids_live_mono [OF dom_insert subset_refl] kids_live_mono [OF subset_refl dom_insert]
  by (metis option.inject)+

text \<open>
  Making a node returns, gives a handle to a node of that value, the one there was if there was one, and
  keeps what every other handle stands for.
\<close>

lemma make_word_ok:
  assumes "host_laws H" "tables_ok H T" "word_kids_live (word_arcs T) (bool_arcs T) k"
  obtains p T' where "make_word H k T = Some (p, T')" "tables_ok H T'" "node (word_arcs T') p = Some k"
    "keeps_part UNIV UNIV (word_arcs T) (bool_arcs T) (word_arcs T') (bool_arcs T')"
    "\<And>q. node (word_arcs T) q = Some k \<Longrightarrow> q = p" "dom (word_arcs T') = insert p (dom (word_arcs T))" "bool_arcs T' = bool_arcs T"
proof -
  let ?A = "word_arcs T" and ?B = "bool_arcs T"
  note ok = tables_okD [OF assms(2)]
  obtain p A' c where m: "cons_make H (word_hash H ?A ?B k) k ?A (words_cons T) = Some (p, A', c)"
    "shared (word_hash H ?A ?B) A' (cons_table c)" "A' p = Some (word_hash H ?A ?B k, k)"
    "A' = ?A \<or> ?A p = None \<and> A' = ?A(p \<mapsto> (word_hash H ?A ?B k, k))" "\<And>q h'. ?A q = Some (h', k) \<Longrightarrow> q = p"
    by (rule make_shares [OF assms(1) ok(1) refl]) blast
  define T' where "T' = T\<lparr>word_arcs := A', words_cons := c\<rparr>"
  have made: "make_word H k T = Some (p, T')" using m(1) by (simp add: make_word_def T'_def)
  have keeps: "keeps_part UNIV UNIV ?A ?B A' ?B" using m(4) insert_keeps(1) keeps_all_refl by metis
  have agree: "A' q = ?A q" if "q \<in> dom ?A" for q using m(4) that insert_agree by metis
  have dom: "dom A' = insert p (dom ?A)" using m(3,4) by auto
  have cl: "closed A' ?B" using m(4) closed_insert(1) [OF ok(3) assms(3)] ok(3) by metis
  have n: "node A' p = Some k" using m(3) by (simp add: node_def)
  have live: "word_kids_live ?A ?B k'" if "node A' q = Some k'" for q k'
    using m(4) that closedD(1) [OF ok(3)] assms(3) by (metis node_insert option.inject)
  have "shared (word_hash H A' ?B) A' (cons_table c)"
    by (rule shared_hash_cong [OF m(2)]) (rule hash_agree(1) [OF agree refl live])
  moreover have "shared (bool_hash H A' ?B) ?B (cons_table (bools_cons T))"
    by (rule shared_hash_cong [OF ok(2)]) (rule hash_agree(2) [OF agree refl closedD(2) [OF ok(3)]])
  moreover have "denoting A' ?B"
    by (rule denoting_kept [OF keeps ok(4)]) (use dom new_word_denotes [OF ok(4) keeps assms(3) n] in auto)
  ultimately have "tables_ok H T'" using cl by (simp add: tables_ok_def T'_def Let_def)
  then show thesis
    by (rule that [OF made]) (use n keeps m(5) dom in \<open>simp_all add: T'_def node_Some, blast\<close>)
qed

lemma make_bool_ok:
  assumes "host_laws H" "tables_ok H T" "bool_kids_live (word_arcs T) (bool_arcs T) k"
  obtains p T' where "make_bool H k T = Some (p, T')" "tables_ok H T'" "node (bool_arcs T') p = Some k"
    "keeps_part UNIV UNIV (word_arcs T) (bool_arcs T) (word_arcs T') (bool_arcs T')"
    "\<And>q. node (bool_arcs T) q = Some k \<Longrightarrow> q = p" "dom (bool_arcs T') = insert p (dom (bool_arcs T))" "word_arcs T' = word_arcs T"
proof -
  let ?A = "word_arcs T" and ?B = "bool_arcs T"
  note ok = tables_okD [OF assms(2)]
  obtain p B' c where m: "cons_make H (bool_hash H ?A ?B k) k ?B (bools_cons T) = Some (p, B', c)"
    "shared (bool_hash H ?A ?B) B' (cons_table c)" "B' p = Some (bool_hash H ?A ?B k, k)"
    "B' = ?B \<or> ?B p = None \<and> B' = ?B(p \<mapsto> (bool_hash H ?A ?B k, k))" "\<And>q h'. ?B q = Some (h', k) \<Longrightarrow> q = p"
    by (rule make_shares [OF assms(1) ok(2) refl]) blast
  define T' where "T' = T\<lparr>bool_arcs := B', bools_cons := c\<rparr>"
  have made: "make_bool H k T = Some (p, T')" using m(1) by (simp add: make_bool_def T'_def)
  have keeps: "keeps_part UNIV UNIV ?A ?B ?A B'" using m(4) insert_keeps(2) keeps_all_refl by metis
  have agree: "B' q = ?B q" if "q \<in> dom ?B" for q using m(4) that insert_agree by metis
  have dom: "dom B' = insert p (dom ?B)" using m(3,4) by auto
  have cl: "closed ?A B'" using m(4) closed_insert(2) [OF ok(3) assms(3)] ok(3) by metis
  have n: "node B' p = Some k" using m(3) by (simp add: node_def)
  have live: "bool_kids_live ?A ?B k'" if "node B' q = Some k'" for q k'
    using m(4) that closedD(2) [OF ok(3)] assms(3) by (metis node_insert option.inject)
  have "shared (bool_hash H ?A B') B' (cons_table c)"
    by (rule shared_hash_cong [OF m(2)]) (rule hash_agree(2) [OF refl agree live])
  moreover have "shared (word_hash H ?A B') ?A (cons_table (words_cons T))"
    by (rule shared_hash_cong [OF ok(1)]) (rule hash_agree(1) [OF refl agree closedD(1) [OF ok(3)]])
  moreover have "denoting ?A B'"
    by (rule denoting_kept [OF keeps ok(4)]) (use dom new_bool_denotes [OF ok(4) keeps assms(3) n] in auto)
  ultimately have "tables_ok H T'" using cl by (simp add: tables_ok_def T'_def Let_def)
  then show thesis
    by (rule that [OF made]) (use n keeps m(5) dom in \<open>simp_all add: T'_def node_Some, blast\<close>)
qed

section \<open>Dropping a handle\<close>

text \<open>The last handle to a node goes when no node holds one.\<close>

definition word_unreferenced :: "ptr \<Rightarrow> words \<Rightarrow> bools \<Rightarrow> bool" where
  "word_unreferenced p A B \<longleftrightarrow>
     (\<forall>q k. node A q = Some k \<longrightarrow> p \<notin> set1_WordKind k) \<and> (\<forall>q k. node B q = Some k \<longrightarrow> p \<notin> set1_BoolKind k)"

definition bool_unreferenced :: "ptr \<Rightarrow> words \<Rightarrow> bools \<Rightarrow> bool" where
  "bool_unreferenced p A B \<longleftrightarrow>
     (\<forall>q k. node A q = Some k \<longrightarrow> p \<notin> set2_WordKind k) \<and> (\<forall>q k. node B q = Some k \<longrightarrow> p \<notin> set2_BoolKind k)"

definition drop_word :: "ptr \<Rightarrow> Tables \<Rightarrow> Tables" where
  "drop_word p T = T\<lparr>word_arcs := (word_arcs T)(p := None)\<rparr>"

definition drop_bool :: "ptr \<Rightarrow> Tables \<Rightarrow> Tables" where
  "drop_bool p T = T\<lparr>bool_arcs := (bool_arcs T)(p := None)\<rparr>"

lemma shared_drop: "shared hash A t \<Longrightarrow> shared hash (A(p := None)) t"
  by (auto simp: shared_def split: if_splits)

lemma node_drop: "node (A(p := None)) q = (if q = p then None else node A q)"
  by (simp add: node_def)

lemma drop_word_keeps: "word_unreferenced p A B \<Longrightarrow> keeps_part (- {p}) UNIV A B (A(p := None)) B"
  unfolding keeps_part_def word_unreferenced_def node_drop by auto

lemma drop_bool_keeps: "bool_unreferenced p A B \<Longrightarrow> keeps_part UNIV (- {p}) A B A (B(p := None))"
  unfolding keeps_part_def bool_unreferenced_def node_drop by auto

lemma drop_word_ok:
  assumes "tables_ok H T" "word_unreferenced p (word_arcs T) (bool_arcs T)"
  shows "tables_ok H (drop_word p T)"
proof -
  let ?A = "word_arcs T" and ?B = "bool_arcs T" and ?A' = "(word_arcs T)(p := None)"
  note ok = tables_okD [OF assms(1)] and kept = at_kept [OF drop_word_keeps [OF assms(2)]]
  have w: "p \<notin> set1_WordKind k" if "node ?A q = Some k" for q k using assms(2) that by (simp add: word_unreferenced_def)
  have b: "p \<notin> set1_BoolKind k" if "node ?B q = Some k" for q k using assms(2) that by (simp add: word_unreferenced_def)
  have n: "node ?A q = Some k" if "node ?A' q = Some k" for q k using that by (simp add: node_drop split: if_splits)
  have dm: "dom ?A' = dom ?A - {p}" by simp
  have "shared (word_hash H ?A' ?B) ?A' (cons_table (words_cons T))"
    by (rule shared_hash_cong [OF shared_drop [OF ok(1)]], rule hash_cong(1)) (use w n in \<open>metis fun_upd_apply\<close>)+
  moreover have "shared (bool_hash H ?A' ?B) ?B (cons_table (bools_cons T))"
    by (rule shared_hash_cong [OF ok(2)], rule hash_cong(2)) (use b in \<open>metis fun_upd_apply\<close>)+
  moreover have "closed ?A' ?B"
    unfolding closed_def word_kids_live_def bool_kids_live_def dm
    using closedD [OF ok(3), unfolded word_kids_live_def bool_kids_live_def] w b n by blast
  moreover have "denoting ?A' ?B"
    using ok(4) kept unfolding denoting_def dom_fun_upd by (metis Compl_iff Diff_iff UNIV_I option.distinct(1) singletonD)
  ultimately show ?thesis by (simp add: tables_ok_def drop_word_def Let_def)
qed

lemma drop_bool_ok:
  assumes "tables_ok H T" "bool_unreferenced p (word_arcs T) (bool_arcs T)"
  shows "tables_ok H (drop_bool p T)"
proof -
  let ?A = "word_arcs T" and ?B = "bool_arcs T" and ?B' = "(bool_arcs T)(p := None)"
  note ok = tables_okD [OF assms(1)] and kept = at_kept [OF drop_bool_keeps [OF assms(2)]]
  have w: "p \<notin> set2_WordKind k" if "node ?A q = Some k" for q k using assms(2) that by (simp add: bool_unreferenced_def)
  have b: "p \<notin> set2_BoolKind k" if "node ?B q = Some k" for q k using assms(2) that by (simp add: bool_unreferenced_def)
  have n: "node ?B q = Some k" if "node ?B' q = Some k" for q k using that by (simp add: node_drop split: if_splits)
  have dm: "dom ?B' = dom ?B - {p}" by simp
  have "shared (bool_hash H ?A ?B') ?B' (cons_table (bools_cons T))"
    by (rule shared_hash_cong [OF shared_drop [OF ok(2)]], rule hash_cong(2)) (use b n in \<open>metis fun_upd_apply\<close>)+
  moreover have "shared (word_hash H ?A ?B') ?A (cons_table (words_cons T))"
    by (rule shared_hash_cong [OF ok(1)], rule hash_cong(1)) (use w in \<open>metis fun_upd_apply\<close>)+
  moreover have "closed ?A ?B'"
    unfolding closed_def word_kids_live_def bool_kids_live_def dm
    using closedD [OF ok(3), unfolded word_kids_live_def bool_kids_live_def] w b n by blast
  moreover have "denoting ?A ?B'"
    using ok(4) kept unfolding denoting_def dom_fun_upd by (metis Compl_iff Diff_iff UNIV_I option.distinct(1) singletonD)
  ultimately show ?thesis by (simp add: tables_ok_def drop_bool_def Let_def)
qed

section \<open>The context and its runs\<close>

text \<open>
  The symbol names, which the interner of another crate keeps, and the table of byte strings, which
  \<open>SymExpr\<close> does not refer to, are left out.
\<close>

record Cx =
  cx_tables :: Tables
  cx_zero :: ptr
  cx_one :: ptr
  cx_true :: ptr
  cx_false :: ptr
  replayable_inputs :: "symbol set"
  keccak_preimages :: "u256 \<rightharpoonup> ptr list"

abbreviation cx_words :: "Cx \<Rightarrow> words" where
  "cx_words cx \<equiv> word_arcs (cx_tables cx)"

abbreviation cx_bools :: "Cx \<Rightarrow> bools" where
  "cx_bools cx \<equiv> bool_arcs (cx_tables cx)"

definition cx_new :: "Host \<Rightarrow> Cx option" where
  "cx_new H = do {
     (zero, T) \<leftarrow> make_word H (KConst 0) tables_new;
     (one, T) \<leftarrow> make_word H (KConst 1) T;
     (bool_true, T) \<leftarrow> make_bool H (KConstB True) T;
     (bool_false, T) \<leftarrow> make_bool H (KConstB False) T;
     Some \<lparr>cx_tables = T, cx_zero = zero, cx_one = one, cx_true = bool_true, cx_false = bool_false,
           replayable_inputs = {}, keccak_preimages = Map.empty\<rparr>
   }"

definition mk_expr_kind :: "Host \<Rightarrow> (ptr, ptr) WordKind \<Rightarrow> Cx \<Rightarrow> (ptr \<times> Cx) option" where
  "mk_expr_kind H k cx = map_option (\<lambda>(p, T). (p, cx\<lparr>cx_tables := T\<rparr>)) (make_word H k (cx_tables cx))"

definition mk_bool_kind :: "Host \<Rightarrow> (ptr, ptr) BoolKind \<Rightarrow> Cx \<Rightarrow> (ptr \<times> Cx) option" where
  "mk_bool_kind H k cx = map_option (\<lambda>(p, T). (p, cx\<lparr>cx_tables := T\<rparr>)) (make_bool H k (cx_tables cx))"

definition cached_zero :: "Cx \<Rightarrow> ptr" where
  "cached_zero cx = cx_zero cx"

definition cached_one :: "Cx \<Rightarrow> ptr" where
  "cached_one cx = cx_one cx"

definition cached_bool :: "bool \<Rightarrow> Cx \<Rightarrow> ptr" where
  "cached_bool v cx = (if v then cx_true cx else cx_false cx)"

definition mark_replayable_input :: "symbol \<Rightarrow> Cx \<Rightarrow> Cx" where
  "mark_replayable_input x cx = cx\<lparr>replayable_inputs := insert x (replayable_inputs cx)\<rparr>"

definition is_replayable_input :: "symbol \<Rightarrow> Cx \<Rightarrow> bool" where
  "is_replayable_input x cx \<longleftrightarrow> x \<in> replayable_inputs cx"

definition record_concrete_keccak_preimage :: "u256 \<Rightarrow> ptr list \<Rightarrow> Cx \<Rightarrow> Cx" where
  "record_concrete_keccak_preimage h ps cx =
     (case keccak_preimages cx h of
        None \<Rightarrow> cx\<lparr>keccak_preimages := (keccak_preimages cx)(h \<mapsto> ps)\<rparr>
      | Some _ \<Rightarrow> cx)"

definition concrete_keccak_preimage :: "u256 \<Rightarrow> Cx \<Rightarrow> ptr list option" where
  "concrete_keccak_preimage h cx = keccak_preimages cx h"

text \<open>The orders on handles: by cached hash, and by address where the hashes agree.\<close>

definition cmp_of :: "'a::linorder \<Rightarrow> 'a \<Rightarrow> Ordering" where
  "cmp_of a b = (if a < b then Less else if a = b then Equal else Greater)"

definition stable_hash_cmp :: "'v arcs \<Rightarrow> ptr \<Rightarrow> ptr \<Rightarrow> Ordering" where
  "stable_hash_cmp A p q = cmp_of (cached_hash A p) (cached_hash A q)"

definition identity_cmp :: "'v arcs \<Rightarrow> ptr \<Rightarrow> ptr \<Rightarrow> Ordering" where
  "identity_cmp A p q = (case stable_hash_cmp A p q of Equal \<Rightarrow> cmp_of p q | o' \<Rightarrow> o')"

lemma identity_cmp_Equal: "identity_cmp A p q = Equal \<longleftrightarrow> p = q"
  by (auto simp: identity_cmp_def stable_hash_cmp_def cmp_of_def)

text \<open>The handles that the context itself holds.\<close>

definition word_roots :: "Cx \<Rightarrow> ptr set" where
  "word_roots cx = {cx_zero cx, cx_one cx} \<union> \<Union> (set ` ran (keccak_preimages cx))"

definition bool_roots :: "Cx \<Rightarrow> ptr set" where
  "bool_roots cx = {cx_true cx, cx_false cx}"

inductive cx_step :: "Host \<Rightarrow> Cx \<Rightarrow> Cx \<Rightarrow> bool" for H where
  make_word: "word_kids_live (cx_words cx) (cx_bools cx) k \<Longrightarrow> mk_expr_kind H k cx = Some (p, cx') \<Longrightarrow> cx_step H cx cx'"
| make_bool: "bool_kids_live (cx_words cx) (cx_bools cx) l \<Longrightarrow> mk_bool_kind H l cx = Some (p, cx') \<Longrightarrow> cx_step H cx cx'"
| drop_word: "p \<notin> word_roots cx \<Longrightarrow> word_unreferenced p (cx_words cx) (cx_bools cx) \<Longrightarrow>
    cx_step H cx (cx\<lparr>cx_tables := drop_word p (cx_tables cx)\<rparr>)"
| drop_bool: "p \<notin> bool_roots cx \<Longrightarrow> bool_unreferenced p (cx_words cx) (cx_bools cx) \<Longrightarrow>
    cx_step H cx (cx\<lparr>cx_tables := drop_bool p (cx_tables cx)\<rparr>)"
| mark: "cx_step H cx (mark_replayable_input x cx)"
| preimage: "set ps \<subseteq> dom (cx_words cx) \<Longrightarrow> cx_step H cx (record_concrete_keccak_preimage h ps cx)"

inductive cx_run :: "Host \<Rightarrow> Cx \<Rightarrow> bool" for H where
  new: "cx_new H = Some cx \<Longrightarrow> cx_run H cx"
| step: "cx_run H cx \<Longrightarrow> cx_step H cx cx' \<Longrightarrow> cx_run H cx'"

section \<open>The invariant of the context\<close>

definition cx_ok :: "Host \<Rightarrow> Cx \<Rightarrow> bool" where
  "cx_ok H cx \<longleftrightarrow>
     tables_ok H (cx_tables cx) \<and> word_roots cx \<subseteq> dom (cx_words cx) \<and> bool_roots cx \<subseteq> dom (cx_bools cx) \<and>
     node (cx_words cx) (cx_zero cx) = Some (KConst 0) \<and> node (cx_words cx) (cx_one cx) = Some (KConst 1) \<and>
     node (cx_bools cx) (cx_true cx) = Some (KConstB True) \<and> node (cx_bools cx) (cx_false cx) = Some (KConstB False)"

lemma tables_new_ok: "tables_ok H tables_new"
  by (simp add: tables_ok_def tables_new_def cons_new_def shared_def closed_def denoting_def node_def Let_def)

lemma const_kids_live: "word_kids_live A B (KConst c)" "bool_kids_live A B (KConstB b)"
  by (simp_all add: word_kids_live_def bool_kids_live_def)

lemma keeps_node:
  assumes "keeps_part UNIV UNIV A B A' B'"
  shows "node A p = Some k \<Longrightarrow> node A' p = Some k" "node B q = Some l \<Longrightarrow> node B' q = Some l"
  using keeps_partD [OF assms] by blast+

lemma cx_new_ok:
  assumes "host_laws H"
  obtains cx where "cx_new H = Some cx" "cx_ok H cx"
proof -
  obtain z T1 where z: "make_word H (KConst 0) tables_new = Some (z, T1)" "tables_ok H T1" "node (word_arcs T1) z = Some (KConst 0)"
    by (rule make_word_ok [OF assms tables_new_ok const_kids_live(1)])
  obtain i T2 where i: "make_word H (KConst 1) T1 = Some (i, T2)" "tables_ok H T2" "node (word_arcs T2) i = Some (KConst 1)"
    "keeps_part UNIV UNIV (word_arcs T1) (bool_arcs T1) (word_arcs T2) (bool_arcs T2)"
    by (rule make_word_ok [OF assms z(2) const_kids_live(1)])
  obtain t T3 where t: "make_bool H (KConstB True) T2 = Some (t, T3)" "tables_ok H T3" "node (bool_arcs T3) t = Some (KConstB True)"
    "word_arcs T3 = word_arcs T2"
    by (rule make_bool_ok [OF assms i(2) const_kids_live(2)])
  obtain f T4 where f: "make_bool H (KConstB False) T3 = Some (f, T4)" "tables_ok H T4" "node (bool_arcs T4) f = Some (KConstB False)"
    "keeps_part UNIV UNIV (word_arcs T3) (bool_arcs T3) (word_arcs T4) (bool_arcs T4)" "word_arcs T4 = word_arcs T3"
    by (rule make_bool_ok [OF assms t(2) const_kids_live(2)])
  let ?cx = "\<lparr>cx_tables = T4, cx_zero = z, cx_one = i, cx_true = t, cx_false = f, replayable_inputs = {}, keccak_preimages = Map.empty\<rparr>"
  have n: "node (word_arcs T4) z = Some (KConst 0)" "node (word_arcs T4) i = Some (KConst 1)"
    "node (bool_arcs T4) t = Some (KConstB True)" "node (bool_arcs T4) f = Some (KConstB False)"
    using z(3) i(3) t(3) f(3) keeps_node(1) [OF i(4)] keeps_node(2) [OF f(4)] t(4) f(5) by simp_all
  then have "cx_ok H ?cx" using f(2) by (simp add: cx_ok_def word_roots_def bool_roots_def live_node del: domIff)
  moreover have "cx_new H = Some ?cx" using z(1) i(1) t(1) f(1) by (simp add: cx_new_def)
  ultimately show thesis using that by blast
qed

lemma cx_step_ok:
  assumes "host_laws H" "cx_ok H cx" "cx_step H cx cx'"
  shows "cx_ok H cx'"
  using assms(3,2)
proof cases
  case (make_word k p)
  have T: "tables_ok H (cx_tables cx)" using assms(2) by (simp add: cx_ok_def)
  obtain q T' where m: "Hash_Context.make_word H k (cx_tables cx) = Some (q, T')" "tables_ok H T'"
    "keeps_part UNIV UNIV (cx_words cx) (cx_bools cx) (word_arcs T') (bool_arcs T')"
    "dom (word_arcs T') = insert q (dom (cx_words cx))" "bool_arcs T' = cx_bools cx"
    by (rule make_word_ok [OF assms(1) T make_word(1)])
  have "cx' = cx\<lparr>cx_tables := T'\<rparr>" using make_word(2) m(1) by (simp add: mk_expr_kind_def)
  then show ?thesis using assms(2) m(2,4,5) keeps_node(1) [OF m(3)]
    by (simp add: cx_ok_def word_roots_def bool_roots_def subset_insertI2)
next
  case (make_bool l p)
  have T: "tables_ok H (cx_tables cx)" using assms(2) by (simp add: cx_ok_def)
  obtain q T' where m: "Hash_Context.make_bool H l (cx_tables cx) = Some (q, T')" "tables_ok H T'"
    "keeps_part UNIV UNIV (cx_words cx) (cx_bools cx) (word_arcs T') (bool_arcs T')"
    "dom (bool_arcs T') = insert q (dom (cx_bools cx))" "word_arcs T' = cx_words cx"
    by (rule make_bool_ok [OF assms(1) T make_bool(1)])
  have "cx' = cx\<lparr>cx_tables := T'\<rparr>" using make_bool(2) m(1) by (simp add: mk_bool_kind_def)
  then show ?thesis using assms(2) m(2,4,5) keeps_node(2) [OF m(3)]
    by (simp add: cx_ok_def word_roots_def bool_roots_def)
next
  case (drop_word p)
  then show ?thesis using assms(2) drop_word_ok [of H "cx_tables cx" p]
    by (auto simp: cx_ok_def word_roots_def bool_roots_def Hash_Context.drop_word_def node_drop)
next
  case (drop_bool p)
  then show ?thesis using assms(2) drop_bool_ok [of H "cx_tables cx" p]
    by (auto simp: cx_ok_def word_roots_def bool_roots_def Hash_Context.drop_bool_def node_drop)
next
  case (mark x)
  then show ?thesis using assms(2) by (simp add: cx_ok_def word_roots_def bool_roots_def mark_replayable_input_def)
next
  case (preimage ps h)
  then have "word_roots cx' \<subseteq> word_roots cx \<union> set ps"
    by (auto simp: word_roots_def record_concrete_keccak_preimage_def ran_def split: option.splits if_splits)
  moreover have "cx_tables cx' = cx_tables cx" "bool_roots cx' = bool_roots cx" "cx_zero cx' = cx_zero cx" "cx_one cx' = cx_one cx"
    "cx_true cx' = cx_true cx" "cx_false cx' = cx_false cx"
    using preimage(1) by (simp_all add: bool_roots_def record_concrete_keccak_preimage_def split: option.splits)
  ultimately show ?thesis using assms(2) preimage(2) unfolding cx_ok_def by auto
qed

lemma cx_run_ok:
  assumes "host_laws H" "cx_run H cx"
  shows "cx_ok H cx"
  using assms(2)
proof induction
  case (new cx)
  then show ?case using cx_new_ok [OF assms(1)] by (metis option.inject)
next
  case (step cx cx')
  then show ?case using cx_step_ok [OF assms(1)] by blast
qed

section \<open>A concrete host\<close>

text \<open>Every node has the same hash, the table is visited in its order, and addresses are counted up.\<close>

definition plain_host :: Host where
  "plain_host = \<lparr>hash_word_kind = \<lambda>k. 0, hash_bool_kind = \<lambda>k. 0, probe = \<lambda>h t. t, alloc = \<lambda>A. Suc (Max (insert 0 A))\<rparr>"

lemma plain_host_laws: "host_laws plain_host"
proof -
  have "Suc (Max (insert 0 A)) \<notin> A" if "finite A" for A :: "nat set"
  proof
    assume "Suc (Max (insert 0 A)) \<in> A"
    then have "Suc (Max (insert 0 A)) \<le> Max (insert 0 A)" using that by (intro Max_ge) simp_all
    then show False by simp
  qed
  then show ?thesis by (simp add: host_laws_def plain_host_def)
qed

definition plain_cx :: Cx where
  "plain_cx =
     \<lparr>cx_tables =
        \<lparr>word_arcs = [1 \<mapsto> (0, KConst 0), 2 \<mapsto> (0, KConst 1)], bool_arcs = [1 \<mapsto> (0, KConstB True), 2 \<mapsto> (0, KConstB False)],
         words_cons = \<lparr>cons_table = [(0, 1), (0, 2)], gc_threshold = 1024\<rparr>,
         bools_cons = \<lparr>cons_table = [(0, 1), (0, 2)], gc_threshold = 1024\<rparr>\<rparr>,
      cx_zero = 1, cx_one = 2, cx_true = 1, cx_false = 2, replayable_inputs = {}, keccak_preimages = Map.empty\<rparr>"

lemmas cons_defs = cons_make_def sweep_def make_loop.simps entry_matches_def make_word_def make_bool_def word_hash_def bool_hash_def
  plain_host_def Let_def

lemma plain_cx_new: "cx_new plain_host = Some plain_cx"
  by (simp add: cx_new_def plain_cx_def tables_new_def cons_new_def MIN_GC_THRESHOLD_def cons_defs numeral_2_eq_2)

section \<open>Properties of hash-consing\<close>

text \<open>
  C36: pointer equality is structural equality. In every context that is reached by making nodes from handles
  that are held, dropping handles and recording preimages, each live handle stands for exactly one
  expression; two handles are equal, and equal in the order on handles, exactly if their
  expressions are.
\<close>

theorem handle_equality_is_structural:
  assumes "host_laws H" "cx_run H cx"
  shows "(\<forall>p\<in>dom (cx_words cx). \<exists>!e. word_at (cx_words cx) (cx_bools cx) e p) \<and>
    (\<forall>p\<in>dom (cx_bools cx). \<exists>!b. bool_at (cx_words cx) (cx_bools cx) b p) \<and>
    (\<forall>p q e e'. word_at (cx_words cx) (cx_bools cx) e p \<longrightarrow> word_at (cx_words cx) (cx_bools cx) e' q \<longrightarrow>
       (p = q) = (e = e') \<and> (identity_cmp (cx_words cx) p q = Equal) = (e = e')) \<and>
    (\<forall>p q b b'. bool_at (cx_words cx) (cx_bools cx) b p \<longrightarrow> bool_at (cx_words cx) (cx_bools cx) b' q \<longrightarrow>
       (p = q) = (b = b') \<and> (identity_cmp (cx_bools cx) p q = Equal) = (b = b'))"
proof -
  have "tables_ok H (cx_tables cx)" using cx_run_ok [OF assms] by (simp add: cx_ok_def)
  note ok = tables_okD [OF this]
  note inj = at_inj [OF shared_distinct [OF ok(1)] shared_distinct [OF ok(2)]]
  show ?thesis
    using ok(4) unfolding denoting_def identity_cmp_Equal by (blast dest: at_unique(1,3) inj)
qed

theorem handle_equality_is_structural_witness:
  "(\<exists>!e. word_at (cx_words plain_cx) (cx_bools plain_cx) e 2) \<and> word_at (cx_words plain_cx) (cx_bools plain_cx) (Const 1) 2 \<and>
    identity_cmp (cx_words plain_cx) 1 2 \<noteq> Equal \<and> (\<exists>!b. bool_at (cx_words plain_cx) (cx_bools plain_cx) b 1)"
proof -
  have at: "word_at (cx_words plain_cx) (cx_bools plain_cx) (Const 0) 1" "word_at (cx_words plain_cx) (cx_bools plain_cx) (Const 1) 2"
    by (simp_all add: plain_cx_def node_def)
  have live: "2 \<in> dom (cx_words plain_cx)" "1 \<in> dom (cx_bools plain_cx)" by (simp_all add: plain_cx_def)
  note * = handle_equality_is_structural [OF plain_host_laws cx_run.new [OF plain_cx_new]]
  have "identity_cmp (cx_words plain_cx) 1 2 \<noteq> Equal" using * at by (metis SymExpr.inject(1) zero_neq_one)
  then show ?thesis using * at(2) live by blast
qed

text \<open>
  C38: making a node returns, and returns the handle there is when the value has one. In a reached context, for
  children that have handles, the result is a handle to a node of that value, the only one; every
  handle keeps the expression it stands for.
\<close>

theorem made_node_is_shared:
  assumes "host_laws H" "cx_run H cx" "word_kids_live (cx_words cx) (cx_bools cx) k" "bool_kids_live (cx_words cx) (cx_bools cx) l"
  shows "(\<exists>p cx'. mk_expr_kind H k cx = Some (p, cx') \<and> node (cx_words cx') p = Some k \<and>
      (\<forall>q. node (cx_words cx) q = Some k \<longrightarrow> q = p) \<and>
      (\<forall>q e. word_at (cx_words cx) (cx_bools cx) e q \<longrightarrow> word_at (cx_words cx') (cx_bools cx') e q) \<and>
      (\<forall>q b. bool_at (cx_words cx) (cx_bools cx) b q \<longrightarrow> bool_at (cx_words cx') (cx_bools cx') b q)) \<and>
    (\<exists>p cx'. mk_bool_kind H l cx = Some (p, cx') \<and> node (cx_bools cx') p = Some l \<and>
      (\<forall>q. node (cx_bools cx) q = Some l \<longrightarrow> q = p) \<and>
      (\<forall>q e. word_at (cx_words cx) (cx_bools cx) e q \<longrightarrow> word_at (cx_words cx') (cx_bools cx') e q) \<and>
      (\<forall>q b. bool_at (cx_words cx) (cx_bools cx) b q \<longrightarrow> bool_at (cx_words cx') (cx_bools cx') b q))"
proof -
  have T: "tables_ok H (cx_tables cx)" using cx_run_ok [OF assms(1,2)] by (simp add: cx_ok_def)
  obtain p T' where w: "make_word H k (cx_tables cx) = Some (p, T')" "node (word_arcs T') p = Some k"
    "keeps_part UNIV UNIV (cx_words cx) (cx_bools cx) (word_arcs T') (bool_arcs T')"
    "\<And>q. node (cx_words cx) q = Some k \<Longrightarrow> q = p" by (rule make_word_ok [OF assms(1) T assms(3)]) blast
  obtain q T'' where b: "make_bool H l (cx_tables cx) = Some (q, T'')" "node (bool_arcs T'') q = Some l"
    "keeps_part UNIV UNIV (cx_words cx) (cx_bools cx) (word_arcs T'') (bool_arcs T'')"
    "\<And>q'. node (cx_bools cx) q' = Some l \<Longrightarrow> q' = q" by (rule make_bool_ok [OF assms(1) T assms(4)]) blast
  show ?thesis
    using w b at_kept [OF w(3), OF _ UNIV_I] at_kept [OF b(3), OF _ UNIV_I]
    by (intro conjI exI [of _ p] exI [of _ q] exI [of _ "cx\<lparr>cx_tables := T'\<rparr>"] exI [of _ "cx\<lparr>cx_tables := T''\<rparr>"])
      (simp_all add: mk_expr_kind_def mk_bool_kind_def)
qed

theorem made_node_is_shared_witness:
  "(\<exists>cx'. mk_expr_kind plain_host (KConst 1) plain_cx = Some (2, cx')) \<and>
    (\<exists>p cx'. mk_bool_kind plain_host (KCmpB Eq 1 2) plain_cx = Some (p, cx') \<and> node (cx_bools cx') p = Some (KCmpB Eq 1 2))"
proof -
  have kids: "word_kids_live (cx_words plain_cx) (cx_bools plain_cx) (KConst 1)"
    "bool_kids_live (cx_words plain_cx) (cx_bools plain_cx) (KCmpB Eq 1 2)"
    by (simp_all add: word_kids_live_def bool_kids_live_def plain_cx_def)
  have n: "node (cx_words plain_cx) 2 = Some (KConst 1)" by (simp add: plain_cx_def node_def)
  show ?thesis using made_node_is_shared [OF plain_host_laws cx_run.new [OF plain_cx_new] kids] n by blast
qed

end
