(* ===== verification/Tx_Pending.thy ===== *)
theory Tx_Pending
  imports Foundry_Prelude "HOL-Library.List_Lexorder"
begin

text \<open>
  The waiting queue of the Anvil transaction pool (\<open>PendingTransactions\<close> of
  crates/anvil/src/eth/pool/transactions.rs): transactions that wait for markers, an index from
  each missing marker to the transactions that wait for it, and an index from the markers a
  transaction provides to its hash. The three maps are shown to stay consistent under every
  operation, so that no \<open>expect\<close> of the code fails, and each operation is characterised.
\<close>

section \<open>Transactions\<close>

type_synonym TxHash = u256
type_synonym TxMarker = "u8 list"
type_synonym u128 = "128 word"

datatype PoolError =
    CyclicTransaction
  | ReplacementUnderpriced TxHash
  | AlreadyImported TxHash

text \<open>\<open>TransactionOrder\<close> and \<open>TransactionPriority\<close>, ordered as its derived \<open>Ord\<close> orders it.\<close>

datatype TransactionOrder = Fifo | Fees

datatype TransactionPriority = TransactionPriority u128

instantiation TransactionPriority :: linorder
begin

fun less_eq_TransactionPriority :: "TransactionPriority \<Rightarrow> TransactionPriority \<Rightarrow> bool" where
  "less_eq_TransactionPriority (TransactionPriority a) (TransactionPriority b) \<longleftrightarrow> a \<le> b"

fun less_TransactionPriority :: "TransactionPriority \<Rightarrow> TransactionPriority \<Rightarrow> bool" where
  "less_TransactionPriority (TransactionPriority a) (TransactionPriority b) \<longleftrightarrow> a < b"

instance
proof
  fix x y z :: TransactionPriority
  show "x < y \<longleftrightarrow> x \<le> y \<and> \<not> y \<le> x" by (cases x; cases y) auto
  show "x \<le> x" by (cases x) simp
  show "x \<le> y \<Longrightarrow> y \<le> z \<Longrightarrow> x \<le> z" by (cases x; cases y; cases z) simp
  show "x \<le> y \<Longrightarrow> y \<le> x \<Longrightarrow> x = y" by (cases x; cases y) simp
  show "x \<le> y \<or> y \<le> x" by (cases x; cases y) auto
qed

end

definition order_priority :: "TransactionOrder \<Rightarrow> u128 \<Rightarrow> TransactionPriority" where
  "order_priority order max_fee =
     (case order of Fifo \<Rightarrow> TransactionPriority 0 | Fees \<Rightarrow> TransactionPriority max_fee)"

text \<open>\<open>str::to_lowercase\<close> on ASCII text.\<close>

definition char_lower :: "char \<Rightarrow> char" where
  "char_lower c = (if 65 \<le> (of_char c :: nat) \<and> (of_char c :: nat) \<le> 90 then char_of (of_char c + 32 :: nat) else c)"

definition TransactionOrder_from_str :: "string \<Rightarrow> string + TransactionOrder" where
  "TransactionOrder_from_str s0 =
     (let s = map char_lower s0
      in if s = ''fees'' then Inr Fees
         else if s = ''fifo'' then Inr Fifo
         else Inl (''Unknown TransactionOrder: `'' @ s @ ''`''))"

text \<open>
  \<open>PoolTransaction\<close>: the fields of the signed transaction that the pool reads (hash, sender, nonce,
  type and maximal fee) stand in place of \<open>pending_transaction\<close>.
\<close>

record PoolTransaction =
  tx_hash :: TxHash
  tx_sender :: "160 word"
  tx_nonce :: u64
  tx_type :: u8
  max_fee_per_gas :: u128
  requires :: "TxMarker list"
  provides :: "TxMarker list"
  priority :: TransactionPriority
  is_replay :: bool

text \<open>\<open>added_at\<close> is only printed and has no field here.\<close>

record PendingPoolTransaction =
  transaction :: PoolTransaction
  missing_markers :: "TxMarker set"

definition PendingPoolTransaction_new ::
    "PoolTransaction \<Rightarrow> (TxMarker \<rightharpoonup> TxHash) \<Rightarrow> PendingPoolTransaction" where
  "PendingPoolTransaction_new tx provided =
     \<lparr>transaction = tx, missing_markers = set (filter (\<lambda>m. provided m = None) (requires tx))\<rparr>"

definition mark :: "PendingPoolTransaction \<Rightarrow> TxMarker \<Rightarrow> PendingPoolTransaction" where
  "mark t m = t\<lparr>missing_markers := missing_markers t - {m}\<rparr>"

definition is_ready :: "PendingPoolTransaction \<Rightarrow> bool" where
  "is_ready t \<longleftrightarrow> missing_markers t = {}"

text \<open>
  The iteration order of the standard library's hash sets is not specified: it is a parameter, of
  which the code relies on nothing but that every element is visited once.
\<close>

record IterOrder =
  hash_order :: "TxHash set \<Rightarrow> TxHash list"
  marker_order :: "TxMarker set \<Rightarrow> TxMarker list"

definition iter_law :: "IterOrder \<Rightarrow> bool" where
  "iter_law ord \<longleftrightarrow>
     (\<forall>S. finite S \<longrightarrow> set (hash_order ord S) = S \<and> distinct (hash_order ord S)) \<and>
     (\<forall>S. finite S \<longrightarrow> set (marker_order ord S) = S \<and> distinct (marker_order ord S))"

section \<open>The waiting queue\<close>

record PendingTransactions =
  required_markers :: "TxMarker \<rightharpoonup> TxHash set"
  waiting_markers :: "TxMarker list \<rightharpoonup> TxHash"
  waiting_queue :: "TxHash \<rightharpoonup> PendingPoolTransaction"

definition pending_default :: PendingTransactions where
  "pending_default =
     \<lparr>required_markers = Map.empty, waiting_markers = Map.empty, waiting_queue = Map.empty\<rparr>"

definition pending_len :: "PendingTransactions \<Rightarrow> nat" where
  "pending_len p = card (dom (waiting_queue p))"

definition pending_clear :: "PendingTransactions \<Rightarrow> PendingTransactions" where
  "pending_clear p =
     p\<lparr>required_markers := Map.empty, waiting_markers := Map.empty, waiting_queue := Map.empty\<rparr>"

definition pending_transactions :: "IterOrder \<Rightarrow> PendingTransactions \<Rightarrow> PoolTransaction list" where
  "pending_transactions ord p =
     map (\<lambda>h. transaction (the (waiting_queue p h))) (hash_order ord (dom (waiting_queue p)))"

definition pending_contains :: "PendingTransactions \<Rightarrow> TxHash \<Rightarrow> bool" where
  "pending_contains p h \<longleftrightarrow> waiting_queue p h \<noteq> None"

text \<open>
  The inner loop of \<open>mark_and_unlock\<close> over the transactions that wait for one marker; \<open>None\<close> is the
  panic of \<open>expect\<close> on a hash that is not in the queue.
\<close>

fun mark_hashes ::
    "TxMarker \<Rightarrow> TxHash list \<Rightarrow> PendingPoolTransaction list \<Rightarrow> PendingTransactions
      \<Rightarrow> (PendingPoolTransaction list \<times> PendingTransactions) option" where
  "mark_hashes m [] unlocked p = Some (unlocked, p)"
| "mark_hashes m (h # hs) unlocked p =
     (case waiting_queue p h of
        None \<Rightarrow> None
      | Some t \<Rightarrow>
          (let t' = mark t m
           in if is_ready t'
              then mark_hashes m hs (unlocked @ [t'])
                (p\<lparr>waiting_queue := (waiting_queue p)(h := None),
                   waiting_markers := (waiting_markers p)(provides (transaction t') := None)\<rparr>)
              else mark_hashes m hs unlocked (p\<lparr>waiting_queue := (waiting_queue p)(h \<mapsto> t')\<rparr>)))"

fun mark_and_unlock_loop ::
    "IterOrder \<Rightarrow> TxMarker list \<Rightarrow> PendingPoolTransaction list \<Rightarrow> PendingTransactions
      \<Rightarrow> (PendingPoolTransaction list \<times> PendingTransactions) option" where
  "mark_and_unlock_loop ord [] unlocked p = Some (unlocked, p)"
| "mark_and_unlock_loop ord (m # ms) unlocked p =
     (case required_markers p m of
        None \<Rightarrow> mark_and_unlock_loop ord ms unlocked p
      | Some hs \<Rightarrow>
          (case mark_hashes m (hash_order ord hs) unlocked
              (p\<lparr>required_markers := (required_markers p)(m := None)\<rparr>) of
             None \<Rightarrow> None
           | Some (unlocked', p') \<Rightarrow> mark_and_unlock_loop ord ms unlocked' p'))"

definition mark_and_unlock ::
    "IterOrder \<Rightarrow> TxMarker list \<Rightarrow> PendingTransactions
      \<Rightarrow> (PendingPoolTransaction list \<times> PendingTransactions) option" where
  "mark_and_unlock ord markers p = mark_and_unlock_loop ord markers [] p"

definition unindex_marker :: "TxHash \<Rightarrow> TxMarker \<Rightarrow> PendingTransactions \<Rightarrow> PendingTransactions" where
  "unindex_marker h m p =
     (case required_markers p m of
        None \<Rightarrow> p
      | Some hs \<Rightarrow>
          if hs - {h} = {} then p\<lparr>required_markers := (required_markers p)(m := None)\<rparr>
          else p\<lparr>required_markers := (required_markers p)(m \<mapsto> hs - {h})\<rparr>)"

fun pending_remove ::
    "IterOrder \<Rightarrow> TxHash list \<Rightarrow> PendingTransactions \<Rightarrow> PoolTransaction list \<times> PendingTransactions" where
  "pending_remove ord [] p = ([], p)"
| "pending_remove ord (h # hs) p =
     (case waiting_queue p h of
        None \<Rightarrow> pending_remove ord hs p
      | Some t \<Rightarrow>
          (let p1 = p\<lparr>waiting_queue := (waiting_queue p)(h := None),
                      waiting_markers := (waiting_markers p)(provides (transaction t) := None)\<rparr>;
               p2 = fold (unindex_marker h) (marker_order ord (missing_markers t)) p1;
               (removed, p3) = pending_remove ord hs p2
           in (transaction t # removed, p3)))"

text \<open>
  \<open>remove_with_dependents\<close>. The table \<open>required_by\<close> is an association list; the vector \<open>markers\<close> has
  its end at the head of the list.
\<close>

fun entry_push :: "'k \<Rightarrow> 'v \<Rightarrow> ('k \<times> 'v list) list \<Rightarrow> ('k \<times> 'v list) list" where
  "entry_push k v [] = [(k, [v])]"
| "entry_push k v ((k', vs) # r) = (if k = k' then (k', vs @ [v]) # r else (k', vs) # entry_push k v r)"

definition build_required_by :: "IterOrder \<Rightarrow> PendingTransactions \<Rightarrow> (TxMarker \<times> TxHash list) list" where
  "build_required_by ord p =
     fold (\<lambda>h. case waiting_queue p h of
         None \<Rightarrow> id
       | Some t \<Rightarrow> fold (\<lambda>m. entry_push m h) (requires (transaction t)))
       (hash_order ord (dom (waiting_queue p))) []"

fun seed_removals ::
    "PendingTransactions \<Rightarrow> TxHash list \<Rightarrow> TxHash set \<Rightarrow> TxMarker list \<Rightarrow> TxHash set \<times> TxMarker list" where
  "seed_removals p [] to_remove markers = (to_remove, markers)"
| "seed_removals p (h # hs) to_remove markers =
     (if h \<in> to_remove then seed_removals p hs to_remove markers
      else (case waiting_queue p h of
          None \<Rightarrow> seed_removals p hs (insert h to_remove) markers
        | Some t \<Rightarrow> seed_removals p hs (insert h to_remove) (rev (provides (transaction t)) @ markers)))"

lemma length_filter_map_of: "map_of xs k = Some v \<Longrightarrow> length (filter (\<lambda>(k', v). k' \<noteq> k) xs) < length xs"
  by (rule length_filter_less [of "(k, v)"]) (auto dest: map_of_SomeD)

function dependents_loop ::
    "PendingTransactions \<Rightarrow> TxMarker list \<Rightarrow> (TxMarker \<times> TxHash list) list \<Rightarrow> TxHash set \<Rightarrow> TxHash set" where
  "dependents_loop p [] required_by to_remove = to_remove"
| "dependents_loop p (m # ms) required_by to_remove =
     (case map_of required_by m of
        None \<Rightarrow> dependents_loop p ms required_by to_remove
      | Some dependents \<Rightarrow>
          (let r = seed_removals p dependents to_remove ms
           in dependents_loop p (snd r) (filter (\<lambda>(k, v). k \<noteq> m) required_by) (fst r)))"
  by pat_completeness auto

termination
  by (relation "measures [\<lambda>(p, ms, rb, tr). length rb, \<lambda>(p, ms, rb, tr). length ms]")
    (auto dest: length_filter_map_of)

definition remove_with_dependents ::
    "IterOrder \<Rightarrow> TxHash list \<Rightarrow> TxMarker list \<Rightarrow> PendingTransactions
      \<Rightarrow> PoolTransaction list \<times> PendingTransactions" where
  "remove_with_dependents ord hashes invalidated p =
     (let required_by = build_required_by ord p;
          (to_remove, markers) = seed_removals p hashes {} (rev invalidated);
          to_remove' = dependents_loop p markers required_by to_remove
      in pending_remove ord (hash_order ord to_remove') p)"

text \<open>\<open>PendingTransactions::add_transaction\<close>; the outer \<open>None\<close> is a failed assertion.\<close>

definition index_marker :: "TxHash \<Rightarrow> TxMarker \<Rightarrow> PendingTransactions \<Rightarrow> PendingTransactions" where
  "index_marker h m p =
     p\<lparr>required_markers := (required_markers p)(m \<mapsto>
         insert h (case required_markers p m of None \<Rightarrow> {} | Some hs \<Rightarrow> hs))\<rparr>"

definition pending_insert :: "IterOrder \<Rightarrow> PendingPoolTransaction \<Rightarrow> PendingTransactions \<Rightarrow> PendingTransactions" where
  "pending_insert ord t p =
     (let h = tx_hash (transaction t);
          p1 = fold (index_marker h) (marker_order ord (missing_markers t)) p
      in p1\<lparr>waiting_markers := (waiting_markers p1)(provides (transaction t) \<mapsto> h),
            waiting_queue := (waiting_queue p1)(h \<mapsto> t)\<rparr>)"

definition pending_add_transaction ::
    "IterOrder \<Rightarrow> PendingPoolTransaction \<Rightarrow> PendingTransactions
      \<Rightarrow> ((PoolError + unit) \<times> PendingTransactions) option" where
  "pending_add_transaction ord t p =
     (let tx = transaction t
      in if is_ready t \<or> waiting_queue p (tx_hash tx) \<noteq> None then None
         else (case Option.bind (waiting_markers p (provides tx)) (waiting_queue p) of
             None \<Rightarrow> Some (Inr (), pending_insert ord t p)
           | Some replace \<Rightarrow>
               if max_fee_per_gas tx \<le> max_fee_per_gas (transaction replace)
               then Some (Inl (ReplacementUnderpriced (tx_hash tx)), p)
               else Some (Inr (), pending_insert ord t
                 (snd (pending_remove ord [tx_hash (transaction replace)] p)))))"

section \<open>The consistency invariant\<close>

text \<open>
  The queue is the truth: each entry is filed under its hash and misses at least one marker, the
  marker index lists exactly the transactions that miss a marker and has no empty entry, and the
  index by provided markers finds exactly the queued transactions.
\<close>

definition misses :: "PendingTransactions \<Rightarrow> TxMarker \<Rightarrow> TxHash \<Rightarrow> bool" where
  "misses p m h \<longleftrightarrow> (\<exists>t. waiting_queue p h = Some t \<and> m \<in> missing_markers t)"

definition entry_ok :: "TxHash \<Rightarrow> PendingPoolTransaction \<Rightarrow> bool" where
  "entry_ok h t \<longleftrightarrow> tx_hash (transaction t) = h \<and> missing_markers t \<noteq> {} \<and> finite (missing_markers t)"

definition pending_wf :: "PendingTransactions \<Rightarrow> bool" where
  "pending_wf p \<longleftrightarrow>
     finite (dom (waiting_queue p)) \<and>
     (\<forall>h t. waiting_queue p h = Some t \<longrightarrow> entry_ok h t) \<and>
     (\<forall>m. required_markers p m = (if \<exists>h. misses p m h then Some {h. misses p m h} else None)) \<and>
     (\<forall>k h. waiting_markers p k = Some h \<longleftrightarrow>
        (\<exists>t. waiting_queue p h = Some t \<and> provides (transaction t) = k))"

lemma pending_wfD:
  assumes "pending_wf p"
  shows "finite (dom (waiting_queue p))"
    and "waiting_queue p h = Some t \<Longrightarrow> entry_ok h t"
    and "required_markers p m = (if \<exists>h. misses p m h then Some {h. misses p m h} else None)"
    and "waiting_markers p k = Some h' \<longleftrightarrow> (\<exists>t. waiting_queue p h' = Some t \<and> provides (transaction t) = k)"
  using assms by (auto simp: pending_wf_def)

lemma finite_misses: "pending_wf p \<Longrightarrow> finite {h. misses p m h}"
  by (rule finite_subset [of _ "dom (waiting_queue p)"]) (auto simp: misses_def dest: pending_wfD(1))

lemma iter_lawD:
  assumes "iter_law ord" "finite S"
  shows "set (hash_order ord S) = S" "distinct (hash_order ord S)"
  using assms by (auto simp: iter_law_def)

lemma iter_law_markers:
  assumes "iter_law ord" "finite S"
  shows "set (marker_order ord S) = S" "distinct (marker_order ord S)"
  using assms by (auto simp: iter_law_def)

lemma pending_wf_default: "pending_wf pending_default"
  by (simp add: pending_wf_def pending_default_def misses_def)

lemma pending_wf_clear: "pending_wf (pending_clear p)"
  by (simp add: pending_wf_def pending_clear_def misses_def)

section \<open>Marking\<close>

definition mark_entry :: "TxMarker \<Rightarrow> PendingPoolTransaction \<Rightarrow> PendingPoolTransaction option" where
  "mark_entry m t = (if is_ready (mark t m) then None else Some (mark t m))"

lemma transaction_mark [simp]: "transaction (mark t m) = transaction t"
  by (simp add: mark_def)

definition ready_after :: "TxMarker \<Rightarrow> PendingTransactions \<Rightarrow> TxHash \<Rightarrow> bool" where
  "ready_after m p h \<longleftrightarrow> is_ready (mark (the (waiting_queue p h)) m)"

definition after_marking :: "TxMarker \<Rightarrow> TxHash list \<Rightarrow> PendingTransactions \<Rightarrow> PendingTransactions" where
  "after_marking m hs p = p\<lparr>
     waiting_queue := \<lambda>h. if h \<in> set hs then mark_entry m (the (waiting_queue p h)) else waiting_queue p h,
     waiting_markers := \<lambda>k. if \<exists>h \<in> set hs. ready_after m p h \<and>
         provides (transaction (the (waiting_queue p h))) = k then None else waiting_markers p k\<rparr>"

lemma after_marking_unlocked:
  assumes "waiting_queue p h = Some t" "is_ready (mark t m)" "h \<notin> set hs"
  shows "after_marking m hs (p\<lparr>waiting_queue := (waiting_queue p)(h := None),
      waiting_markers := (waiting_markers p)(provides (transaction t) := None)\<rparr>) = after_marking m (h # hs) p"
proof -
  have "h' \<noteq> h" if "h' \<in> set hs" for h' using assms(3) that by auto
  then show ?thesis using assms
    by (cases p) (auto simp: after_marking_def mark_entry_def ready_after_def fun_eq_iff)
qed

lemma after_marking_waiting:
  assumes "waiting_queue p h = Some t" "\<not> is_ready (mark t m)" "h \<notin> set hs"
  shows "after_marking m hs (p\<lparr>waiting_queue := (waiting_queue p)(h \<mapsto> mark t m)\<rparr>) = after_marking m (h # hs) p"
proof -
  have "h' \<noteq> h" if "h' \<in> set hs" for h' using assms(3) that by auto
  then show ?thesis using assms
    by (cases p) (auto simp: after_marking_def mark_entry_def ready_after_def fun_eq_iff)
qed

lemma mark_ready: "is_ready (mark t m) \<Longrightarrow> mark t m = t\<lparr>missing_markers := {}\<rparr>"
  by (simp add: is_ready_def mark_def)

lemma mark_hashes_eq:
  assumes "distinct hs" "set hs \<subseteq> dom (waiting_queue p)"
  shows "mark_hashes m hs unlocked p =
    Some (unlocked @ filter is_ready (map (\<lambda>h. mark (the (waiting_queue p h)) m) hs), after_marking m hs p)"
  using assms
proof (induction hs arbitrary: unlocked p)
  case Nil
  show ?case by (simp add: after_marking_def)
next
  case (Cons h hs)
  then obtain t where t: "waiting_queue p h = Some t" by auto
  have nh: "h \<notin> set hs" "distinct hs" using Cons.prems by auto
  have other: "map (\<lambda>h'. mark (the (if h' = h then v else waiting_queue p h')) m) hs =
      map (\<lambda>h'. mark (the (waiting_queue p h')) m) hs" for v
    using nh by (auto intro!: map_cong)
  show ?case
  proof (cases "is_ready (mark t m)")
    case True
    let ?p = "p\<lparr>waiting_queue := (waiting_queue p)(h := None),
        waiting_markers := (waiting_markers p)(provides (transaction t) := None)\<rparr>"
    have "set hs \<subseteq> dom (waiting_queue ?p)" using Cons.prems by auto
    from Cons.IH [OF nh(2) this] show ?thesis
      using t True nh after_marking_unlocked [OF t True nh(1)] other
      by (simp add: Let_def fun_upd_def)
  next
    case False
    let ?p = "p\<lparr>waiting_queue := (waiting_queue p)(h \<mapsto> mark t m)\<rparr>"
    have "set hs \<subseteq> dom (waiting_queue ?p)" using Cons.prems by auto
    from Cons.IH [OF nh(2) this] show ?thesis
      using t False nh after_marking_waiting [OF t False nh(1)] other
      by (simp add: Let_def fun_upd_def)
  qed
qed

lemma mark_entry_other:
  assumes "entry_ok h t" "m \<notin> missing_markers t"
  shows "mark_entry m t = Some t"
proof -
  from assms(2) have "missing_markers t - {m} = missing_markers t" by blast
  with assms(1) show ?thesis
    by (simp add: mark_entry_def mark_def is_ready_def entry_ok_def)
qed

lemma mark_entry_ok: "entry_ok h t \<Longrightarrow> mark_entry m t = Some t' \<Longrightarrow> entry_ok h t'"
  by (auto simp: mark_entry_def mark_def is_ready_def entry_ok_def split: if_splits)

lemma mark_entry_transaction: "mark_entry m t = Some t' \<Longrightarrow> transaction t' = transaction t"
  by (auto simp: mark_entry_def split: if_splits)

lemma mark_entry_missing:
  "mark_entry m t = Some t' \<Longrightarrow> missing_markers t' = missing_markers t - {m}"
  by (auto simp: mark_entry_def mark_def split: if_splits)

lemma mark_entry_keeps: "mark_entry m t = None \<Longrightarrow> missing_markers t \<subseteq> {m}"
  by (auto simp: mark_entry_def mark_def is_ready_def split: if_splits)

definition frees :: "TxMarker \<Rightarrow> PendingTransactions \<Rightarrow> TxMarker list \<Rightarrow> bool" where
  "frees m p k \<longleftrightarrow>
     (\<exists>h t. waiting_queue p h = Some t \<and> mark_entry m t = None \<and> provides (transaction t) = k)"

text \<open>A queue whose entries are pruned by one marker stays consistent once the indices follow it.\<close>

lemma pending_wf_mark:
  assumes wf: "pending_wf p"
    and q: "waiting_queue p' = (\<lambda>h. Option.bind (waiting_queue p h) (mark_entry m))"
    and r: "required_markers p' = (required_markers p)(m := None)"
    and w: "\<And>k. waiting_markers p' k = (if frees m p k then None else waiting_markers p k)"
  shows "pending_wf p'"
proof -
  have "dom (waiting_queue p') \<subseteq> dom (waiting_queue p)"
    by (auto simp: q split: Option.bind_splits)
  then have fin: "finite (dom (waiting_queue p'))"
    using pending_wfD(1) [OF wf] by (rule finite_subset)
  have ok: "entry_ok h t" if "waiting_queue p' h = Some t" for h t
  proof -
    from that obtain t0 where "waiting_queue p h = Some t0" "mark_entry m t0 = Some t"
      by (auto simp: q bind_eq_Some_conv)
    then show ?thesis using mark_entry_ok pending_wfD(2) [OF wf] by blast
  qed
  have mi: "misses p' k h \<longleftrightarrow> k \<noteq> m \<and> misses p k h" for k h
  proof (cases "waiting_queue p h")
    case (Some t)
    then show ?thesis
      by (cases "mark_entry m t") (auto simp: misses_def q dest: mark_entry_missing mark_entry_keeps)
  qed (simp add: misses_def q)
  have req: "required_markers p' k = (if \<exists>h. misses p' k h then Some {h. misses p' k h} else None)" for k
    using pending_wfD(3) [OF wf, of k] by (auto simp: r mi)
  have inj: "h = h'" if "waiting_queue p h = Some t" "waiting_queue p h' = Some t'"
      "provides (transaction t) = provides (transaction t')" for h h' t t'
    using pending_wfD(4) [OF wf, of "provides (transaction t)"] that by (metis option.inject)
  have wai: "waiting_markers p' k = Some h \<longleftrightarrow>
      (\<exists>t. waiting_queue p' h = Some t \<and> provides (transaction t) = k)" for k h
  proof
    assume "waiting_markers p' k = Some h"
    then have "waiting_markers p k = Some h"
      and none: "\<not> frees m p k"
      by (auto simp: w split: if_splits)
    then obtain t where t: "waiting_queue p h = Some t" "provides (transaction t) = k"
      using pending_wfD(4) [OF wf, of k h] by blast
    with none have "mark_entry m t \<noteq> None" unfolding frees_def by metis
    with t show "\<exists>t. waiting_queue p' h = Some t \<and> provides (transaction t) = k"
      by (auto simp: q mark_entry_def split: if_splits)
  next
    assume "\<exists>t. waiting_queue p' h = Some t \<and> provides (transaction t) = k"
    then obtain t t' where t: "waiting_queue p h = Some t" "mark_entry m t = Some t'"
      and k: "provides (transaction t) = k"
      by (auto simp: q bind_eq_Some_conv mark_entry_def split: if_splits)
    then have "waiting_markers p k = Some h"
      using pending_wfD(4) [OF wf] by blast
    moreover have "\<not> frees m p k"
      unfolding frees_def using inj t k by (metis option.distinct(1) option.inject)
    ultimately show "waiting_markers p' k = Some h" by (simp add: w)
  qed
  from fin ok req wai show ?thesis by (auto simp: pending_wf_def)
qed

lemma mark_marker:
  assumes wf: "pending_wf p" and law: "iter_law ord" and S: "required_markers p m = Some S"
  obtains p' new where
    "mark_hashes m (hash_order ord S) unlocked (p\<lparr>required_markers := (required_markers p)(m := None)\<rparr>) =
       Some (unlocked @ new, p')"
    "pending_wf p'"
    "waiting_queue p' = (\<lambda>h. Option.bind (waiting_queue p h) (mark_entry m))"
    "set new = {t\<lparr>missing_markers := {}\<rparr> |h t. waiting_queue p h = Some t \<and> mark_entry m t = None}"
    "distinct (map (\<lambda>t. tx_hash (transaction t)) new)"
proof -
  let ?p = "p\<lparr>required_markers := (required_markers p)(m := None)\<rparr>"
  let ?hs = "hash_order ord S"
  let ?new = "filter is_ready (map (\<lambda>h. mark (the (waiting_queue p h)) m) ?hs)"
  have S': "S = {h. misses p m h}"
    using pending_wfD(3) [OF wf, of m] S by (auto split: if_splits)
  then have hs: "set ?hs = {h. misses p m h}" "distinct ?hs"
    using iter_lawD [OF law finite_misses [OF wf, of m]] by auto
  then have sub: "set ?hs \<subseteq> dom (waiting_queue ?p)" by (auto simp: misses_def)
  have 1: "mark_hashes m ?hs unlocked ?p = Some (unlocked @ ?new, after_marking m ?hs ?p)"
    using mark_hashes_eq [OF hs(2) sub] by simp
  have entry: "waiting_queue p h = Some t \<Longrightarrow> entry_ok h t" for h t using pending_wfD(2) [OF wf] .
  have ready: "mark_entry m t = None \<longleftrightarrow> m \<in> missing_markers t \<and> is_ready (mark t m)"
    if "waiting_queue p h = Some t" for h t
    using mark_entry_other [OF entry [OF that], of m]
    by (cases "m \<in> missing_markers t") (auto simp: mark_entry_def)
  have q: "waiting_queue (after_marking m ?hs ?p) = (\<lambda>h. Option.bind (waiting_queue p h) (mark_entry m))"
  proof
    fix h
    show "waiting_queue (after_marking m ?hs ?p) h = Option.bind (waiting_queue p h) (mark_entry m)"
      using mark_entry_other [OF entry, of h]
      by (cases "waiting_queue p h") (auto simp: after_marking_def hs misses_def)
  qed
  have w: "waiting_markers (after_marking m ?hs ?p) k =
      (if frees m p k then None else waiting_markers p k)" for k
  proof -
    have "(\<exists>h\<in>set ?hs. ready_after m ?p h \<and> provides (transaction (the (waiting_queue ?p h))) = k) \<longleftrightarrow>
      frees m p k"
      unfolding hs misses_def ready_after_def frees_def by (simp cong: conj_cong add: ready) (metis option.sel)
    then show ?thesis by (simp add: after_marking_def)
  qed
  have wf': "pending_wf (after_marking m ?hs ?p)"
    by (rule pending_wf_mark [OF wf q _ w]) (simp add: after_marking_def)
  have new: "set ?new = {t\<lparr>missing_markers := {}\<rparr> |h t. waiting_queue p h = Some t \<and> mark_entry m t = None}"
  proof -
    have "set ?new = {mark t m |h t. waiting_queue p h = Some t \<and> m \<in> missing_markers t \<and> is_ready (mark t m)}"
      by (auto simp: hs misses_def image_iff) (metis option.sel)+
    also have "\<dots> = {t\<lparr>missing_markers := {}\<rparr> |h t. waiting_queue p h = Some t \<and> mark_entry m t = None}"
      by (intro Collect_cong iff_exI) (use ready mark_ready in metis)
    finally show ?thesis .
  qed
  have "map (\<lambda>t. tx_hash (transaction t)) ?new = filter (\<lambda>h. is_ready (mark (the (waiting_queue p h)) m)) ?hs"
  proof -
    have "tx_hash (transaction (the (waiting_queue p h))) = h" if "h \<in> set ?hs" for h
      using that entry by (fastforce simp: hs misses_def entry_ok_def)
    then show ?thesis by (auto simp: filter_map comp_def intro!: map_idI)
  qed
  then have "distinct (map (\<lambda>t. tx_hash (transaction t)) ?new)" using hs(2) by (simp add: distinct_filter)
  with 1 wf' q new show thesis using that by blast
qed

text \<open>The effect of a list of markers on one entry of the queue.\<close>

definition unlock_by :: "TxMarker list \<Rightarrow> PendingPoolTransaction \<Rightarrow> PendingPoolTransaction option" where
  "unlock_by ms t =
     (if missing_markers t \<subseteq> set ms then None
      else Some (t\<lparr>missing_markers := missing_markers t - set ms\<rparr>))"

definition unlocked_by :: "TxMarker list \<Rightarrow> PendingTransactions \<Rightarrow> PendingPoolTransaction set" where
  "unlocked_by ms p = {t\<lparr>missing_markers := {}\<rparr> |h t. waiting_queue p h = Some t \<and> missing_markers t \<subseteq> set ms}"

lemma unlock_by_Nil: "entry_ok h t \<Longrightarrow> unlock_by [] t = Some t"
  by (simp add: unlock_by_def entry_ok_def)

lemma unlock_by_Cons: "Option.bind (mark_entry m t) (unlock_by ms) = unlock_by (m # ms) t"
  by (auto simp: mark_entry_def unlock_by_def mark_def is_ready_def Diff_insert2 [symmetric])

lemma unlocked_by_Cons:
  assumes "pending_wf p"
    and q: "waiting_queue p1 = (\<lambda>h. Option.bind (waiting_queue p h) (mark_entry m))"
    and new: "set new = {t\<lparr>missing_markers := {}\<rparr> |h t. waiting_queue p h = Some t \<and> mark_entry m t = None}"
    and new': "set new' = unlocked_by ms p1"
  shows "set (new @ new') = unlocked_by (m # ms) p"
proof (rule set_eqI)
  fix x
  have step: "t'\<lparr>missing_markers := {}\<rparr> = t\<lparr>missing_markers := {}\<rparr> \<and>
      (missing_markers t' \<subseteq> set ms \<longleftrightarrow> missing_markers t \<subseteq> insert m (set ms))"
    if "mark_entry m t = Some t'" for t t'
    using that by (auto simp: mark_entry_def mark_def split: if_splits)
  show "x \<in> set (new @ new') \<longleftrightarrow> x \<in> unlocked_by (m # ms) p"
  proof
    assume "x \<in> set (new @ new')"
    then consider "x \<in> set new" | "x \<in> set new'" by auto
    then show "x \<in> unlocked_by (m # ms) p"
    proof cases
      case 1
      then obtain h t where t: "waiting_queue p h = Some t" "mark_entry m t = None" "x = t\<lparr>missing_markers := {}\<rparr>"
        unfolding new by blast
      with mark_entry_keeps [OF t(2)] show ?thesis by (auto simp: unlocked_by_def intro!: exI [of _ t])
    next
      case 2
      then obtain h t' where t': "waiting_queue p1 h = Some t'" "missing_markers t' \<subseteq> set ms"
          "x = t'\<lparr>missing_markers := {}\<rparr>"
        unfolding new' unlocked_by_def by blast
      then obtain t where "waiting_queue p h = Some t" "mark_entry m t = Some t'"
        by (auto simp: q bind_eq_Some_conv)
      with step t' show ?thesis by (auto simp: unlocked_by_def intro!: exI [of _ t])
    qed
  next
    assume "x \<in> unlocked_by (m # ms) p"
    then obtain h t where t: "waiting_queue p h = Some t" "missing_markers t \<subseteq> insert m (set ms)"
        "x = t\<lparr>missing_markers := {}\<rparr>"
      unfolding unlocked_by_def by auto
    show "x \<in> set (new @ new')"
    proof (cases "mark_entry m t")
      case None
      with t show ?thesis by (auto simp: new)
    next
      case (Some t')
      then have "waiting_queue p1 h = Some t'" by (simp add: q t)
      with step [OF Some] t show ?thesis by (auto simp: new' unlocked_by_def intro!: exI [of _ t'])
    qed
  qed
qed

lemma unlocked_disjoint:
  assumes wf: "pending_wf p"
    and q: "waiting_queue p1 = (\<lambda>h. Option.bind (waiting_queue p h) (mark_entry m))"
    and new: "set new = {t\<lparr>missing_markers := {}\<rparr> |h t. waiting_queue p h = Some t \<and> mark_entry m t = None}"
    and new': "set new' = unlocked_by ms p1"
    and "distinct (map (\<lambda>t. tx_hash (transaction t)) new)" "distinct (map (\<lambda>t. tx_hash (transaction t)) new')"
  shows "distinct (map (\<lambda>t. tx_hash (transaction t)) (new @ new'))"
proof -
  have "mark_entry m (the (waiting_queue p (tx_hash (transaction x)))) = None" if "x \<in> set new" for x
  proof -
    from that obtain h t where "x = t\<lparr>missing_markers := {}\<rparr>" "waiting_queue p h = Some t" "mark_entry m t = None"
      unfolding new by blast
    then show ?thesis using pending_wfD(2) [OF wf] by (simp add: entry_ok_def)
  qed
  moreover have "mark_entry m (the (waiting_queue p (tx_hash (transaction x)))) \<noteq> None" if "x \<in> set new'" for x
  proof -
    from that obtain h t where "x = t\<lparr>missing_markers := {}\<rparr>" "waiting_queue p1 h = Some t"
      unfolding new' unlocked_by_def by blast
    moreover then obtain t0 where "waiting_queue p h = Some t0" "mark_entry m t0 = Some t"
      by (auto simp: q bind_eq_Some_conv)
    ultimately show ?thesis using pending_wfD(2) [OF wf] mark_entry_transaction
      by (fastforce simp: entry_ok_def)
  qed
  ultimately have "tx_hash (transaction x) \<noteq> tx_hash (transaction y)" if "x \<in> set new" "y \<in> set new'" for x y
    using that by metis
  then show ?thesis using assms(5,6) by auto
qed

lemma mark_and_unlock_loop_spec:
  assumes "pending_wf p" "iter_law ord"
  shows "\<exists>new p'. mark_and_unlock_loop ord ms unlocked p = Some (unlocked @ new, p') \<and> pending_wf p' \<and>
    waiting_queue p' = (\<lambda>h. Option.bind (waiting_queue p h) (unlock_by ms)) \<and>
    set new = unlocked_by ms p \<and> distinct (map (\<lambda>t. tx_hash (transaction t)) new)"
  using assms(1)
proof (induction ms arbitrary: unlocked p)
  case Nil
  have "unlocked_by [] p = {}"
    using pending_wfD(2) [OF Nil] by (auto simp: unlocked_by_def entry_ok_def)
  moreover have "waiting_queue p h = Option.bind (waiting_queue p h) (unlock_by [])" for h
    using pending_wfD(2) [OF Nil, of h] unlock_by_Nil by (cases "waiting_queue p h") auto
  ultimately show ?case using Nil by auto
next
  case (Cons m ms)
  show ?case
  proof (cases "required_markers p m")
    case None
    then have nm: "\<not> misses p m h" for h
      using pending_wfD(3) [OF Cons.prems, of m] by (auto split: if_splits)
    have same: "mark_entry m t = Some t" if "waiting_queue p h = Some t" for h t
      using nm [of h] that mark_entry_other [OF pending_wfD(2) [OF Cons.prems that]] by (auto simp: misses_def)
    have "Option.bind (waiting_queue p h) (unlock_by ms) = Option.bind (waiting_queue p h) (unlock_by (m # ms))" for h
      using same [of h] by (cases "waiting_queue p h") (simp_all flip: unlock_by_Cons)
    moreover have "unlocked_by ms p = unlocked_by (m # ms) p"
      unfolding unlocked_by_def using nm
      by (intro Collect_cong iff_exI) (auto simp: misses_def)
    ultimately show ?thesis using Cons.IH [OF Cons.prems, of unlocked] None by simp
  next
    case (Some S)
    obtain p1 new where 1: "mark_hashes m (hash_order ord S) unlocked
        (p\<lparr>required_markers := (required_markers p)(m := None)\<rparr>) = Some (unlocked @ new, p1)"
      and wf: "pending_wf p1"
      and q: "waiting_queue p1 = (\<lambda>h. Option.bind (waiting_queue p h) (mark_entry m))"
      and new: "set new = {t\<lparr>missing_markers := {}\<rparr> |h t. waiting_queue p h = Some t \<and> mark_entry m t = None}"
      and dist: "distinct (map (\<lambda>t. tx_hash (transaction t)) new)"
      by (rule mark_marker [OF Cons.prems assms(2) Some])
    from Cons.IH [OF wf, of "unlocked @ new"] obtain new' p' where
      2: "mark_and_unlock_loop ord ms (unlocked @ new) p1 = Some ((unlocked @ new) @ new', p')" "pending_wf p'"
        "waiting_queue p' = (\<lambda>h. Option.bind (waiting_queue p1 h) (unlock_by ms))"
        "set new' = unlocked_by ms p1" "distinct (map (\<lambda>t. tx_hash (transaction t)) new')"
      by blast
    have q': "waiting_queue p' = (\<lambda>h. Option.bind (waiting_queue p h) (unlock_by (m # ms)))"
      by (simp add: 2(3) q unlock_by_Cons)
    have "set (new @ new') = unlocked_by (m # ms) p"
      by (rule unlocked_by_Cons [OF Cons.prems q new 2(4)])
    moreover have "distinct (map (\<lambda>t. tx_hash (transaction t)) (new @ new'))"
      by (rule unlocked_disjoint [OF Cons.prems q new 2(4) dist 2(5)])
    ultimately show ?thesis
      by (intro exI [of _ "new @ new'"] exI [of _ p'] conjI) (simp_all add: 1 2(1,2) q' Some)
  qed
qed

section \<open>Removing and inserting\<close>

definition unindexed :: "TxHash \<Rightarrow> TxHash set option \<Rightarrow> TxHash set option" where
  "unindexed h e = Option.bind e (\<lambda>hs. if hs - {h} = {} then None else Some (hs - {h}))"

lemma unindexed_idem [simp]: "unindexed h (unindexed h e) = unindexed h e"
  by (cases e) (auto simp: unindexed_def)

lemma unindex_marker_eq:
  "unindex_marker h m p = p\<lparr>required_markers := (required_markers p)(m := unindexed h (required_markers p m))\<rparr>"
  by (cases p) (auto simp: unindex_marker_def unindexed_def split: option.split)

lemma fold_unindex:
  "fold (unindex_marker h) ms p =
     p\<lparr>required_markers := \<lambda>m. if m \<in> set ms then unindexed h (required_markers p m) else required_markers p m\<rparr>"
proof (induction ms arbitrary: p)
  case (Cons m ms)
  show ?case
    by (simp only: fold_Cons comp_apply Cons.IH) (cases p, auto simp: unindex_marker_eq fun_eq_iff)
qed simp

lemma fold_index:
  "fold (index_marker h) ms p =
     p\<lparr>required_markers := \<lambda>m. if m \<in> set ms
        then Some (insert h (case required_markers p m of None \<Rightarrow> {} | Some hs \<Rightarrow> hs)) else required_markers p m\<rparr>"
proof (induction ms arbitrary: p)
  case (Cons m ms)
  show ?case
    by (simp only: fold_Cons comp_apply Cons.IH) (cases p, auto simp: index_marker_def fun_eq_iff)
qed simp

lemma pending_wf_provides_inj:
  assumes "pending_wf p" "waiting_queue p h = Some t" "waiting_queue p h' = Some t'"
    "provides (transaction t) = provides (transaction t')"
  shows "h = h'"
  using pending_wfD(4) [OF assms(1), of "provides (transaction t)"] assms(2-) by (metis option.inject)

definition pending_delete :: "TxHash \<Rightarrow> PendingPoolTransaction \<Rightarrow> PendingTransactions \<Rightarrow> PendingTransactions" where
  "pending_delete h t p = \<lparr>
     required_markers = \<lambda>m. if m \<in> missing_markers t then unindexed h (required_markers p m)
       else required_markers p m,
     waiting_markers = (waiting_markers p)(provides (transaction t) := None),
     waiting_queue = (waiting_queue p)(h := None)\<rparr>"

lemma pending_delete_fold:
  assumes "set ms = missing_markers t"
  shows "fold (unindex_marker h) ms (p\<lparr>waiting_queue := (waiting_queue p)(h := None),
      waiting_markers := (waiting_markers p)(provides (transaction t) := None)\<rparr>) = pending_delete h t p"
  unfolding fold_unindex assms by (cases p) (simp add: pending_delete_def cong: if_cong)

lemma pending_wf_delete:
  assumes wf: "pending_wf p" and t: "waiting_queue p h = Some t"
  shows "pending_wf (pending_delete h t p)" (is "pending_wf ?p")
proof -
  have mi: "misses ?p m h' \<longleftrightarrow> h' \<noteq> h \<and> misses p m h'" for m h'
    by (auto simp: misses_def pending_delete_def)
  have at: "misses p m h \<longleftrightarrow> m \<in> missing_markers t" for m
    using t by (simp add: misses_def)
  have req: "required_markers ?p m = (if \<exists>h. misses ?p m h then Some {h. misses ?p m h} else None)" for m
  proof (cases "m \<in> missing_markers t")
    case True
    then have "required_markers p m = Some {h'. misses p m h'}"
      using pending_wfD(3) [OF wf, of m] at by auto
    moreover have "{h'. misses p m h'} - {h} = {h'. misses ?p m h'}" by (auto simp: mi)
    moreover have "required_markers ?p m = unindexed h (required_markers p m)"
      using True by (simp add: pending_delete_def)
    ultimately show ?thesis unfolding unindexed_def by (simp del: Diff_eq_empty_iff) blast
  next
    case False
    then have "misses ?p m = misses p m" using at by (auto simp: mi fun_eq_iff)
    then show ?thesis using False pending_wfD(3) [OF wf, of m] by (simp add: pending_delete_def)
  qed
  have wai: "waiting_markers ?p k = Some h' \<longleftrightarrow>
      (\<exists>t. waiting_queue ?p h' = Some t \<and> provides (transaction t) = k)" for k h'
  proof (cases "k = provides (transaction t)")
    case True
    then show ?thesis using pending_wf_provides_inj [OF wf t] by (auto simp: pending_delete_def split: if_splits)
  next
    case False
    then show ?thesis using pending_wfD(4) [OF wf, of k h'] t by (auto simp: pending_delete_def split: if_splits)
  qed
  have "finite (dom (waiting_queue ?p))" using pending_wfD(1) [OF wf] by (simp add: pending_delete_def)
  moreover have "waiting_queue ?p h' = Some t' \<Longrightarrow> entry_ok h' t'" for h' t'
    using pending_wfD(2) [OF wf] by (auto simp: pending_delete_def split: if_splits)
  ultimately show ?thesis using req wai unfolding pending_wf_def by blast
qed

definition queued :: "PendingTransactions \<Rightarrow> TxHash set \<Rightarrow> PoolTransaction set" where
  "queued p H = {transaction t |h t. h \<in> H \<and> waiting_queue p h = Some t}"

lemma queued_hash:
  assumes "pending_wf p" "x \<in> queued p H"
  shows "tx_hash x \<in> H"
proof -
  from assms(2) obtain h t where "x = transaction t" "h \<in> H" "waiting_queue p h = Some t"
    unfolding queued_def by blast
  with pending_wfD(2) [OF assms(1)] show ?thesis by (simp add: entry_ok_def)
qed

lemma queued_insert_None: "waiting_queue p h = None \<Longrightarrow> queued p (insert h H) = queued p H"
  unfolding queued_def by (intro Collect_cong iff_exI) auto

lemma queued_insert_Some:
  assumes "waiting_queue p h = Some t"
  shows "queued p (insert h H) = insert (transaction t) (queued p (H - {h}))"
proof (rule set_eqI)
  fix x
  show "x \<in> queued p (insert h H) \<longleftrightarrow> x \<in> insert (transaction t) (queued p (H - {h}))"
    unfolding queued_def mem_Collect_eq insert_iff Diff_iff using assms by (metis empty_iff option.inject)
qed

lemma queued_delete: "queued (pending_delete h t p) H = queued p (H - {h})"
  unfolding queued_def by (intro Collect_cong iff_exI) (auto simp: pending_delete_def)

lemma pending_remove_spec:
  assumes "pending_wf p" "iter_law ord"
  shows "pending_wf (snd (pending_remove ord hs p)) \<and>
    waiting_queue (snd (pending_remove ord hs p)) = waiting_queue p |` (- set hs) \<and>
    set (fst (pending_remove ord hs p)) = queued p (set hs) \<and>
    distinct (map tx_hash (fst (pending_remove ord hs p)))"
  using assms(1)
proof (induction hs arbitrary: p)
  case Nil
  then show ?case by (simp add: queued_def)
next
  case (Cons h hs)
  show ?case
  proof (cases "waiting_queue p h")
    case None
    have "waiting_queue p |` (- set hs) = waiting_queue p |` (- set (h # hs))"
      using None by (auto simp: restrict_map_def fun_eq_iff)
    then show ?thesis using Cons.IH [OF Cons.prems] None by (simp add: queued_insert_None)
  next
    case (Some t)
    let ?p = "pending_delete h t p"
    have ok: "entry_ok h t" using pending_wfD(2) [OF Cons.prems Some] .
    then have ms: "set (marker_order ord (missing_markers t)) = missing_markers t"
      using iter_law_markers(1) [OF assms(2)] by (simp add: entry_ok_def)
    have step: "pending_remove ord (h # hs) p =
        (transaction t # fst (pending_remove ord hs ?p), snd (pending_remove ord hs ?p))"
      by (simp add: Some Let_def pending_delete_fold [OF ms] case_prod_beta)
    have q: "waiting_queue ?p |` (- set hs) = waiting_queue p |` (- set (h # hs))"
      by (auto simp: restrict_map_def fun_eq_iff pending_delete_def)
    have "h \<notin> tx_hash ` queued p (set hs - {h})"
      using queued_hash [OF Cons.prems] by blast
    moreover have "tx_hash (transaction t) = h" using ok by (simp add: entry_ok_def)
    ultimately show ?thesis
      using Cons.IH [OF pending_wf_delete [OF Cons.prems Some]] q unfolding step
      by (auto simp: queued_insert_Some [OF Some] queued_delete)
  qed
qed

lemma pending_insert_queue:
  "waiting_queue (pending_insert ord t p) = (waiting_queue p)(tx_hash (transaction t) \<mapsto> t)"
  by (simp add: pending_insert_def Let_def fold_index)

lemma pending_wf_insert:
  assumes wf: "pending_wf p" and law: "iter_law ord"
    and ok: "entry_ok h t" and fresh: "waiting_queue p h = None"
    and new: "waiting_markers p (provides (transaction t)) = None"
  shows "pending_wf (pending_insert ord t p)" (is "pending_wf ?p")
proof -
  have h: "tx_hash (transaction t) = h" using ok by (simp add: entry_ok_def)
  note q = pending_insert_queue [of ord t p, unfolded h]
  have ms: "set (marker_order ord (missing_markers t)) = missing_markers t"
    using iter_law_markers(1) [OF law] ok by (simp add: entry_ok_def)
  have r: "required_markers ?p m = (if m \<in> missing_markers t
      then Some (insert h (case required_markers p m of None \<Rightarrow> {} | Some hs \<Rightarrow> hs)) else required_markers p m)" for m
    by (simp add: pending_insert_def Let_def fold_index ms h)
  have w: "waiting_markers ?p = (waiting_markers p)(provides (transaction t) \<mapsto> h)"
    by (simp add: pending_insert_def Let_def fold_index h)
  have mi: "misses ?p m h' \<longleftrightarrow> (if h' = h then m \<in> missing_markers t else misses p m h')" for m h'
    by (simp add: misses_def q)
  have nh: "\<not> misses p m h" for m using fresh by (simp add: misses_def)
  have req: "required_markers ?p m = (if \<exists>h. misses ?p m h then Some {h. misses ?p m h} else None)" for m
  proof (cases "m \<in> missing_markers t")
    case True
    have "(case required_markers p m of None \<Rightarrow> {} | Some hs \<Rightarrow> hs) = {h. misses p m h}"
      using pending_wfD(3) [OF wf, of m] by auto
    moreover have "insert h {h. misses p m h} = {h. misses ?p m h}" using True by (auto simp: mi)
    ultimately show ?thesis using True by (auto simp: r)
  next
    case False
    then have "misses ?p m = misses p m" using nh by (auto simp: mi fun_eq_iff)
    then show ?thesis using False pending_wfD(3) [OF wf, of m] by (simp add: r)
  qed
  have wai: "waiting_markers ?p k = Some h' \<longleftrightarrow>
      (\<exists>t. waiting_queue ?p h' = Some t \<and> provides (transaction t) = k)" for k h'
    using pending_wfD(4) [OF wf, of k h'] new fresh by (auto simp: w q)
  have "finite (dom (waiting_queue ?p))" using pending_wfD(1) [OF wf] by (simp add: q)
  moreover have "waiting_queue ?p h' = Some t' \<Longrightarrow> entry_ok h' t'" for h' t'
    using pending_wfD(2) [OF wf] ok by (auto simp: q split: if_splits)
  ultimately show ?thesis using req wai unfolding pending_wf_def by blast
qed

text \<open>The entry a transaction would replace: the queued one that provides the same markers.\<close>

definition rival :: "PendingTransactions \<Rightarrow> PoolTransaction \<Rightarrow> PendingPoolTransaction option" where
  "rival p tx = Option.bind (waiting_markers p (provides tx)) (waiting_queue p)"

lemma rival_None: "pending_wf p \<Longrightarrow> rival p tx = None \<Longrightarrow> waiting_markers p (provides tx) = None"
  using pending_wfD(4) [of p "provides tx"] unfolding rival_def
  by (cases "waiting_markers p (provides tx)") (simp, metis bind.bind_lunit option.distinct(1))

lemma rival_Some:
  assumes "pending_wf p" "rival p tx = Some r"
  shows "waiting_queue p (tx_hash (transaction r)) = Some r" "provides (transaction r) = provides tx"
proof -
  from assms(2) obtain h where h: "waiting_markers p (provides tx) = Some h" "waiting_queue p h = Some r"
    by (auto simp: rival_def bind_eq_Some_conv)
  from pending_wfD(2) [OF assms(1) h(2)] have "tx_hash (transaction r) = h" by (simp add: entry_ok_def)
  with h show "waiting_queue p (tx_hash (transaction r)) = Some r" by simp
  from pending_wfD(4) [OF assms(1), of "provides tx" h] h
  show "provides (transaction r) = provides tx" by auto
qed

lemma rivalI:
  assumes "pending_wf p" "waiting_queue p h = Some old" "provides (transaction old) = provides tx"
  shows "rival p tx = Some old"
proof -
  have "waiting_markers p (provides tx) = Some h" using pending_wfD(4) [OF assms(1)] assms(2,3) by blast
  with assms(2) show ?thesis by (simp add: rival_def)
qed

lemma pending_add_spec:
  assumes wf: "pending_wf p" and law: "iter_law ord" and ok: "entry_ok (tx_hash (transaction t)) t"
    and fresh: "waiting_queue p (tx_hash (transaction t)) = None"
  shows "\<exists>r p'. pending_add_transaction ord t p = Some (r, p') \<and> pending_wf p' \<and>
    (case r of
       Inl e \<Rightarrow> p' = p \<and> e = ReplacementUnderpriced (tx_hash (transaction t)) \<and>
         (\<exists>old. rival p (transaction t) = Some old \<and>
            max_fee_per_gas (transaction t) \<le> max_fee_per_gas (transaction old))
     | Inr _ \<Rightarrow>
         (\<forall>old. rival p (transaction t) = Some old \<longrightarrow>
            max_fee_per_gas (transaction old) < max_fee_per_gas (transaction t)) \<and>
         waiting_queue p' = (waiting_queue p |`
           {h. \<forall>old. rival p (transaction t) = Some old \<longrightarrow> h \<noteq> tx_hash (transaction old)})
             (tx_hash (transaction t) \<mapsto> t))"
proof -
  let ?tx = "transaction t"
  have nr: "\<not> is_ready t" using ok by (simp add: is_ready_def entry_ok_def)
  show ?thesis
  proof (cases "rival p ?tx")
    case None
    then have "pending_add_transaction ord t p = Some (Inr (), pending_insert ord t p)"
      using nr fresh by (simp add: pending_add_transaction_def rival_def)
    then show ?thesis using None pending_wf_insert [OF wf law ok fresh rival_None [OF wf None]]
      by (simp add: pending_insert_queue restrict_map_def fun_upd_def)
  next
    case (Some old)
    note old = rival_Some [OF wf Some]
    define p1 where "p1 = snd (pending_remove ord [tx_hash (transaction old)] p)"
    have p1: "pending_wf p1" "waiting_queue p1 = waiting_queue p |` (- {tx_hash (transaction old)})"
      using pending_remove_spec [OF wf law, of "[tx_hash (transaction old)]"]
      unfolding p1_def [symmetric] by simp_all
    have wm: "waiting_markers p1 (provides ?tx) = None"
    proof (rule ccontr)
      assume "waiting_markers p1 (provides ?tx) \<noteq> None"
      then obtain h t' where t': "waiting_queue p1 h = Some t'" "provides (transaction t') = provides ?tx"
        using pending_wfD(4) [OF p1(1), of "provides ?tx"] by auto
      then have "h \<noteq> tx_hash (transaction old)" "waiting_queue p h = Some t'"
        by (auto simp: p1(2) restrict_map_def split: if_splits)
      with old t' pending_wf_provides_inj [OF wf] show False by metis
    qed
    have f1: "waiting_queue p1 (tx_hash ?tx) = None" using fresh by (simp add: p1(2) restrict_map_def)
    have add: "pending_add_transaction ord t p =
        (if max_fee_per_gas ?tx \<le> max_fee_per_gas (transaction old)
         then Some (Inl (ReplacementUnderpriced (tx_hash ?tx)), p) else Some (Inr (), pending_insert ord t p1))"
      using nr fresh Some by (simp add: pending_add_transaction_def Let_def rival_def p1_def)
    have "{h. h \<noteq> tx_hash (transaction old)} = - {tx_hash (transaction old)}" by auto
    then show ?thesis
      using Some wf pending_wf_insert [OF p1(1) law ok f1 wm]
      by (cases "max_fee_per_gas ?tx \<le> max_fee_per_gas (transaction old)")
        (simp_all add: add pending_insert_queue p1(2))
  qed
qed

section \<open>Removing with dependents\<close>

text \<open>
  The transactions to be dropped with a set of hashes and a set of invalidated markers: the named
  ones, and all that require an invalidated marker or one that a dropped transaction provides.
\<close>

inductive doomed :: "PendingTransactions \<Rightarrow> TxHash set \<Rightarrow> TxMarker set \<Rightarrow> TxHash \<Rightarrow> bool"
  for p hashes invalidated where
  named: "h \<in> hashes \<Longrightarrow> waiting_queue p h = Some t \<Longrightarrow> doomed p hashes invalidated h"
| invalid: "waiting_queue p h = Some t \<Longrightarrow> m \<in> set (requires (transaction t)) \<Longrightarrow> m \<in> invalidated
    \<Longrightarrow> doomed p hashes invalidated h"
| dependent: "doomed p hashes invalidated h' \<Longrightarrow> waiting_queue p h' = Some t' \<Longrightarrow>
    m \<in> set (provides (transaction t')) \<Longrightarrow> waiting_queue p h = Some t \<Longrightarrow>
    m \<in> set (requires (transaction t)) \<Longrightarrow> doomed p hashes invalidated h"

definition deps :: "PendingTransactions \<Rightarrow> TxMarker \<Rightarrow> TxHash set" where
  "deps p m = {h. \<exists>t. waiting_queue p h = Some t \<and> m \<in> set (requires (transaction t))}"

definition provided_by :: "PendingTransactions \<Rightarrow> TxHash set \<Rightarrow> TxMarker set" where
  "provided_by p H = {m. \<exists>h t. h \<in> H \<and> waiting_queue p h = Some t \<and> m \<in> set (provides (transaction t))}"

lemma provided_by_Un: "provided_by p (A \<union> B) = provided_by p A \<union> provided_by p B"
  unfolding provided_by_def by blast

lemma provided_by_insert:
  "provided_by p (insert h A) =
     (case waiting_queue p h of None \<Rightarrow> {} | Some t \<Rightarrow> set (provides (transaction t))) \<union> provided_by p A"
  by (auto simp: provided_by_def split: option.split)

lemma map_of_entry_push:
  "map_of (entry_push k v xs) k' =
     (if k' = k then Some ((case map_of xs k of None \<Rightarrow> [] | Some vs \<Rightarrow> vs) @ [v]) else map_of xs k')"
  by (induction k v xs rule: entry_push.induct) auto

definition rb_list :: "(TxMarker \<times> TxHash list) list \<Rightarrow> TxMarker \<Rightarrow> TxHash set" where
  "rb_list rb m = (case map_of rb m of None \<Rightarrow> {} | Some hs \<Rightarrow> set hs)"

lemma rb_list_push: "rb_list (entry_push k v rb) m = (if m = k then insert v (rb_list rb m) else rb_list rb m)"
  by (auto simp: rb_list_def map_of_entry_push split: option.split)

lemma rb_list_fold: "rb_list (fold (\<lambda>m. entry_push m h) ms rb) m = rb_list rb m \<union> (if m \<in> set ms then {h} else {})"
  by (induction ms arbitrary: rb) (auto simp: rb_list_push)

lemma rb_list_build:
  assumes "pending_wf p" "iter_law ord"
  shows "rb_list (build_required_by ord p) m = deps p m"
proof -
  let ?f = "\<lambda>h. case waiting_queue p h of None \<Rightarrow> id | Some t \<Rightarrow> fold (\<lambda>m. entry_push m h) (requires (transaction t))"
  have "rb_list (fold ?f hs rb) m = rb_list rb m \<union> (deps p m \<inter> set hs)" for hs rb
    by (induction hs arbitrary: rb) (auto simp: rb_list_fold deps_def split: option.split)
  from this [of "hash_order ord (dom (waiting_queue p))" "[]"]
  show ?thesis
    using iter_lawD(1) [OF assms(2) pending_wfD(1) [OF assms(1)]]
    by (auto simp: build_required_by_def rb_list_def deps_def)
qed

lemma seed_removals_fst: "fst (seed_removals p hs R ms) = R \<union> set hs"
  by (induction hs arbitrary: R ms) (auto split: option.split)

lemma seed_removals_snd: "set (snd (seed_removals p hs R ms)) = set ms \<union> provided_by p (set hs - R)"
proof (induction hs arbitrary: R ms)
  case (Cons h hs)
  show ?case
  proof (cases "h \<in> R")
    case True
    then show ?thesis by (simp add: Cons.IH)
  next
    case False
    then have "set (h # hs) - R = insert h (set hs - insert h R)" by auto
    then have "provided_by p (set (h # hs) - R) =
        (case waiting_queue p h of None \<Rightarrow> {} | Some t \<Rightarrow> set (provides (transaction t))) \<union>
        provided_by p (set hs - insert h R)" by (simp only: provided_by_insert)
    with False show ?thesis by (cases "waiting_queue p h") (simp_all add: Cons.IH Un_ac)
  qed
qed (simp add: provided_by_def)

text \<open>
  The loop invariants: every marker that is invalidated or provided by a transaction to remove is
  still to be visited or has all its dependents among the transactions to remove, and a marker
  without entry in the table has none outside.
\<close>

lemma dependents_loop_closed:
  assumes "\<And>m. map_of rb m = None \<Longrightarrow> deps p m \<subseteq> R"
    and "\<And>m hs. map_of rb m = Some hs \<Longrightarrow> set hs = deps p m"
    and "\<And>m. m \<in> bad \<union> provided_by p R \<Longrightarrow> m \<in> set ms \<or> deps p m \<subseteq> R"
  shows "R \<subseteq> dependents_loop p ms rb R \<and>
    (\<forall>m \<in> bad \<union> provided_by p (dependents_loop p ms rb R). deps p m \<subseteq> dependents_loop p ms rb R)"
  using assms
proof (induction p ms rb R rule: dependents_loop.induct)
  case (2 p m ms rb R)
  show ?case
  proof (cases "map_of rb m")
    case None
    have "m' \<in> set ms \<or> deps p m' \<subseteq> R" if "m' \<in> bad \<union> provided_by p R" for m'
      using "2.prems"(1) [OF None] "2.prems"(3) [OF that] by auto
    with "2.IH"(1) [OF None "2.prems"(1,2)] show ?thesis by (simp add: None)
  next
    case (Some hs)
    let ?r = "seed_removals p hs R ms" let ?rb = "filter (\<lambda>(k, v). k \<noteq> m) rb"
    have hs: "set hs = deps p m" using "2.prems"(2) [OF Some] .
    have rb: "map_of ?rb k = (if k = m then None else map_of rb k)" for k
      by (induction rb) auto
    have R: "fst ?r = R \<union> deps p m" by (simp add: seed_removals_fst hs)
    have 1: "deps p k \<subseteq> fst ?r" if "map_of ?rb k = None" for k
      using that "2.prems"(1) [of k] by (auto simp: rb R split: if_splits)
    have 2: "set vs = deps p k" if "map_of ?rb k = Some vs" for k vs
      using that "2.prems"(2) by (auto simp: rb split: if_splits)
    have "provided_by p (fst ?r) = provided_by p R \<union> provided_by p (set hs - R)"
      unfolding provided_by_Un [symmetric] by (simp add: R hs)
    then have 3: "k \<in> set (snd ?r) \<or> deps p k \<subseteq> fst ?r" if "k \<in> bad \<union> provided_by p (fst ?r)" for k
      using that "2.prems"(3) [of k] by (auto simp: seed_removals_snd R)
    have "R \<subseteq> fst ?r" by (simp add: R)
    with "2.IH"(2) [OF Some refl 1 2 3] show ?thesis by (simp add: Some Let_def) blast
  qed
qed simp

lemma dependents_loop_sound:
  assumes "\<And>m hs. map_of rb m = Some hs \<Longrightarrow> set hs \<subseteq> deps p m"
    and "R \<subseteq> D" and "set ms \<subseteq> M"
    and "\<And>m h. m \<in> M \<Longrightarrow> h \<in> deps p m \<Longrightarrow> h \<in> D" and "provided_by p D \<subseteq> M"
  shows "dependents_loop p ms rb R \<subseteq> D"
  using assms
proof (induction p ms rb R rule: dependents_loop.induct)
  case (2 p m ms rb R)
  show ?case
  proof (cases "map_of rb m")
    case None
    with "2.IH"(1) [OF None "2.prems"(1,2) _ "2.prems"(4,5)] "2.prems"(3) show ?thesis by simp
  next
    case (Some hs)
    let ?r = "seed_removals p hs R ms" let ?rb = "filter (\<lambda>(k, v). k \<noteq> m) rb"
    have rb: "map_of ?rb k = (if k = m then None else map_of rb k)" for k
      by (induction rb) auto
    have hs: "set hs \<subseteq> D" using "2.prems"(1) [OF Some] "2.prems"(3,4) by auto
    then have D: "fst ?r \<subseteq> D" using "2.prems"(2) by (simp add: seed_removals_fst)
    have "provided_by p (set hs - R) \<subseteq> provided_by p D" using hs by (auto simp: provided_by_def)
    then have M: "set (snd ?r) \<subseteq> M" using "2.prems"(3,5) by (auto simp: seed_removals_snd)
    have "set vs \<subseteq> deps p k" if "map_of ?rb k = Some vs" for k vs
      using that "2.prems"(1) by (auto simp: rb split: if_splits)
    from "2.IH"(2) [OF Some refl this D M "2.prems"(4,5)] show ?thesis by (simp add: Some Let_def)
  qed
qed simp

lemma finite_dependents:
  assumes "finite (dom (waiting_queue p))" "finite R" "\<And>m hs. map_of rb m = Some hs \<Longrightarrow> set hs \<subseteq> deps p m"
  shows "finite (dependents_loop p ms rb R)"
proof (rule finite_subset)
  have "deps p m \<subseteq> dom (waiting_queue p)" for m by (auto simp: deps_def)
  then show "dependents_loop p ms rb R \<subseteq> R \<union> dom (waiting_queue p)"
    by (intro dependents_loop_sound [where M = UNIV]) (use assms(3) in auto)
qed (use assms in simp)

lemma dependents_exact:
  fixes hashes bad
  assumes wf: "pending_wf p" and law: "iter_law ord"
  defines "r \<equiv> seed_removals p hashes {} (rev bad)"
  defines "R \<equiv> dependents_loop p (snd r) (build_required_by ord p) (fst r)"
  shows "finite R" and "waiting_queue p h = Some t \<Longrightarrow> h \<in> R \<longleftrightarrow> doomed p (set hashes) (set bad) h"
proof -
  let ?rb = "build_required_by ord p" let ?D = "{h. waiting_queue p h \<noteq> None \<longrightarrow> doomed p (set hashes) (set bad) h}"
  have rb: "set hs = deps p m" if "map_of ?rb m = Some hs" for m hs
    using rb_list_build [OF wf law, of m] that by (simp add: rb_list_def)
  have rn: "deps p m = {}" if "map_of ?rb m = None" for m
    using rb_list_build [OF wf law, of m] that by (simp add: rb_list_def)
  have r: "fst r = set hashes" "set (snd r) = set bad \<union> provided_by p (set hashes)"
    by (simp_all add: r_def seed_removals_fst seed_removals_snd)
  show "finite R"
    unfolding R_def by (rule finite_dependents) (use pending_wfD(1) [OF wf] rb in \<open>auto simp: r\<close>)
  have up: "R \<subseteq> ?D"
  proof -
    have "set hashes \<subseteq> ?D" by (auto intro: doomed.named)
    moreover have "h \<in> ?D" if "m \<in> set bad \<union> provided_by p ?D" "h \<in> deps p m" for m h
      using that by (auto simp: deps_def provided_by_def intro: doomed.invalid doomed.dependent)
    moreover from calculation(1) have "provided_by p (set hashes) \<subseteq> provided_by p ?D"
      by (auto simp: provided_by_def)
    ultimately show ?thesis
      unfolding R_def
      by (intro dependents_loop_sound [where M = "set bad \<union> provided_by p ?D"]) (auto simp: r rb)
  qed
  have cl: "set hashes \<subseteq> R \<and> (\<forall>m \<in> set bad \<union> provided_by p R. deps p m \<subseteq> R)"
    using dependents_loop_closed [of ?rb p "fst r" "set bad" "snd r"] rb rn unfolding R_def by (auto simp: r)
  have "doomed p (set hashes) (set bad) h \<Longrightarrow> h \<in> R" for h
    by (induction rule: doomed.induct) (use cl in \<open>auto simp: deps_def provided_by_def\<close>)
  with up show "waiting_queue p h = Some t \<Longrightarrow> h \<in> R \<longleftrightarrow> doomed p (set hashes) (set bad) h"
    by auto
qed

lemma remove_with_dependents_spec:
  assumes wf: "pending_wf p" and law: "iter_law ord"
  shows "pending_wf (snd (remove_with_dependents ord hashes bad p)) \<and>
    waiting_queue (snd (remove_with_dependents ord hashes bad p)) =
      waiting_queue p |` {h. \<not> doomed p (set hashes) (set bad) h} \<and>
    set (fst (remove_with_dependents ord hashes bad p)) = queued p {h. doomed p (set hashes) (set bad) h}"
proof -
  define R where "R = dependents_loop p (snd (seed_removals p hashes {} (rev bad))) (build_required_by ord p)
    (fst (seed_removals p hashes {} (rev bad)))"
  note R = dependents_exact [OF wf law, where hashes = hashes and bad = bad, folded R_def]
  have eq: "remove_with_dependents ord hashes bad p = pending_remove ord (hash_order ord R) p"
    by (simp add: remove_with_dependents_def R_def Let_def case_prod_beta)
  have "waiting_queue p |` (- R) = waiting_queue p |` {h. \<not> doomed p (set hashes) (set bad) h}"
  proof
    fix h
    show "(waiting_queue p |` (- R)) h = (waiting_queue p |` {h. \<not> doomed p (set hashes) (set bad) h}) h"
      using R(2) [of h] by (cases "waiting_queue p h") (simp_all add: restrict_map_def)
  qed
  moreover have "queued p R = queued p {h. doomed p (set hashes) (set bad) h}"
    unfolding queued_def by (intro Collect_cong iff_exI) (use R(2) in auto)
  ultimately show ?thesis
    using pending_remove_spec [OF wf law, of "hash_order ord R"] iter_lawD(1) [OF law R(1)]
    unfolding eq by simp
qed

section \<open>Properties\<close>

text \<open>A sample queue: one transaction waits for marker 1, another for what the first provides.\<close>

definition sorted_order :: IterOrder where
  "sorted_order = \<lparr>hash_order = sorted_list_of_set, marker_order = sorted_list_of_set\<rparr>"

lemma sorted_order_law: "iter_law sorted_order"
  by (simp add: iter_law_def sorted_order_def)

definition sample_tx :: "TxHash \<Rightarrow> TxMarker list \<Rightarrow> TxMarker list \<Rightarrow> u128 \<Rightarrow> PoolTransaction" where
  "sample_tx h req prov fee = \<lparr>tx_hash = h, tx_sender = 7, tx_nonce = 0, tx_type = 2, max_fee_per_gas = fee,
     requires = req, provides = prov, priority = TransactionPriority fee, is_replay = False\<rparr>"

definition sample_waiting :: "TxHash \<Rightarrow> TxMarker \<Rightarrow> TxMarker \<Rightarrow> u128 \<Rightarrow> PendingPoolTransaction" where
  "sample_waiting h m k fee = \<lparr>transaction = sample_tx h [m] [k] fee, missing_markers = {m}\<rparr>"

definition sample_pending :: PendingTransactions where
  "sample_pending = pending_insert sorted_order (sample_waiting 2 [2] [3] 5)
     (pending_insert sorted_order (sample_waiting 1 [1] [2] 5) pending_default)"

lemma waiting_markers_insert:
  "waiting_markers (pending_insert ord t p) = (waiting_markers p)(provides (transaction t) \<mapsto> tx_hash (transaction t))"
  by (simp add: pending_insert_def Let_def fold_index)

lemma sample_entry_ok: "entry_ok h (sample_waiting h m k fee)"
  by (simp add: entry_ok_def sample_waiting_def sample_tx_def)

lemma sample_pending_queue:
  "waiting_queue sample_pending = [1 \<mapsto> sample_waiting 1 [1] [2] 5, 2 \<mapsto> sample_waiting 2 [2] [3] 5]"
  by (simp add: sample_pending_def pending_insert_queue pending_default_def sample_waiting_def sample_tx_def)

lemma sample_pending_wf: "pending_wf sample_pending"
proof -
  let ?p = "pending_insert sorted_order (sample_waiting 1 [1] [2] 5) pending_default"
  have 1: "pending_wf ?p"
    by (rule pending_wf_insert [OF pending_wf_default sorted_order_law sample_entry_ok])
      (simp_all add: pending_default_def)
  have "waiting_queue ?p 2 = None" "waiting_markers ?p [[3]] = None"
    by (simp_all add: pending_insert_queue waiting_markers_insert pending_default_def sample_waiting_def sample_tx_def)
  then show ?thesis unfolding sample_pending_def
    by (intro pending_wf_insert [OF 1 sorted_order_law sample_entry_ok])
      (simp_all add: sample_waiting_def sample_tx_def)
qed

text \<open>
  C28: On a consistent waiting queue, checking off a list of markers never panics and leaves a
  consistent queue. The transactions it returns are exactly those all of whose missing markers are
  in the list, each once and with nothing missing; every other transaction stays and misses what it
  missed before except the markers of the list.
\<close>

theorem mark_and_unlock_exact:
  assumes "pending_wf p" "iter_law ord"
  shows "\<exists>unlocked p'. mark_and_unlock ord markers p = Some (unlocked, p') \<and> pending_wf p' \<and>
    waiting_queue p' = (\<lambda>h. Option.bind (waiting_queue p h) (\<lambda>t.
      if missing_markers t \<subseteq> set markers then None
      else Some (t\<lparr>missing_markers := missing_markers t - set markers\<rparr>))) \<and>
    set unlocked = {t\<lparr>missing_markers := {}\<rparr> |h t.
      waiting_queue p h = Some t \<and> missing_markers t \<subseteq> set markers} \<and>
    distinct (map (\<lambda>t. tx_hash (transaction t)) unlocked)"
  using mark_and_unlock_loop_spec [OF assms, of markers "[]"]
  unfolding mark_and_unlock_def unlock_by_def [abs_def] unlocked_by_def by simp

theorem mark_and_unlock_exact_witness:
  "\<exists>unlocked p'. mark_and_unlock sorted_order [[1], [9]] sample_pending = Some (unlocked, p') \<and>
     waiting_queue p' 1 = None \<and> waiting_queue p' 2 = Some (sample_waiting 2 [2] [3] 5) \<and>
     unlocked \<noteq> []"
proof -
  obtain unlocked p' where *: "mark_and_unlock sorted_order [[1], [9]] sample_pending = Some (unlocked, p')"
    and q: "waiting_queue p' = (\<lambda>h. Option.bind (waiting_queue sample_pending h) (\<lambda>t.
      if missing_markers t \<subseteq> set [[1], [9]] then None
      else Some (t\<lparr>missing_markers := missing_markers t - set [[1], [9]]\<rparr>)))"
    and u: "set unlocked = {t\<lparr>missing_markers := {}\<rparr> |h t.
      waiting_queue sample_pending h = Some t \<and> missing_markers t \<subseteq> set [[1], [9]]}"
    using mark_and_unlock_exact [OF sample_pending_wf sorted_order_law, of "[[1], [9]]"] by blast
  have "(sample_waiting 1 [1] [2] 5)\<lparr>missing_markers := {}\<rparr> \<in> set unlocked"
    unfolding u mem_Collect_eq
    by (rule exI [of _ 1], rule exI [of _ "sample_waiting 1 [1] [2] 5"])
      (simp add: sample_pending_queue sample_waiting_def)
  then have "unlocked \<noteq> []" by auto
  moreover have "waiting_queue p' 1 = None" "waiting_queue p' 2 = Some (sample_waiting 2 [2] [3] 5)"
    by (simp_all add: q sample_pending_queue sample_waiting_def)
  ultimately show ?thesis using * by blast
qed

text \<open>
  C29: Removing transactions with their dependents takes out exactly the closure of the request: the
  named transactions, and transitively every one that requires an invalidated marker or a marker
  that a removed transaction provides. No other transaction is touched and the queue stays
  consistent.
\<close>

theorem removal_is_dependency_closure:
  assumes "pending_wf p" "iter_law ord"
  shows "pending_wf (snd (remove_with_dependents ord hashes invalidated p)) \<and>
    waiting_queue (snd (remove_with_dependents ord hashes invalidated p)) =
      waiting_queue p |` {h. \<not> doomed p (set hashes) (set invalidated) h} \<and>
    set (fst (remove_with_dependents ord hashes invalidated p)) =
      {transaction t |h t. doomed p (set hashes) (set invalidated) h \<and> waiting_queue p h = Some t}"
  using remove_with_dependents_spec [OF assms] by (simp add: queued_def)

theorem removal_is_dependency_closure_witness:
  "waiting_queue (snd (remove_with_dependents sorted_order [1] [] sample_pending)) = Map.empty"
proof -
  have 1: "doomed sample_pending {1} {} 1"
    by (rule doomed.named) (simp_all add: sample_pending_queue)
  have "doomed sample_pending {1} {} 2"
    by (rule doomed.dependent [OF 1, where m = "[2]" and t = "sample_waiting 2 [2] [3] 5"
        and t' = "sample_waiting 1 [1] [2] 5"])
      (simp_all add: sample_pending_queue sample_waiting_def sample_tx_def)
  with 1 have "waiting_queue sample_pending |` {h. \<not> doomed sample_pending {1} {} h} = Map.empty"
    by (auto simp: restrict_map_def fun_eq_iff sample_pending_queue)
  then show ?thesis
    using removal_is_dependency_closure [OF sample_pending_wf sorted_order_law, of "[1]" "[]"] by simp
qed

text \<open>
  C32: Adding a transaction that still misses markers to a consistent queue never panics and keeps
  the queue consistent. It is refused, without any change, exactly when a queued transaction that
  provides the same markers pays at least as much; otherwise it enters the queue in place of that
  transaction.
\<close>

theorem pending_add_replaces_cheaper:
  assumes "pending_wf p" "iter_law ord" "waiting_queue p (tx_hash (transaction t)) = None"
    and "missing_markers t \<noteq> {}" "finite (missing_markers t)"
  shows "\<exists>r p'. pending_add_transaction ord t p = Some (r, p') \<and> pending_wf p' \<and>
    (case r of
       Inl e \<Rightarrow> p' = p \<and> e = ReplacementUnderpriced (tx_hash (transaction t)) \<and>
         (\<exists>h old. waiting_queue p h = Some old \<and> provides (transaction old) = provides (transaction t) \<and>
            max_fee_per_gas (transaction t) \<le> max_fee_per_gas (transaction old))
     | Inr _ \<Rightarrow>
         (\<forall>h old. waiting_queue p h = Some old \<longrightarrow> provides (transaction old) = provides (transaction t) \<longrightarrow>
            max_fee_per_gas (transaction old) < max_fee_per_gas (transaction t)) \<and>
         waiting_queue p' = (\<lambda>h. if h = tx_hash (transaction t) then Some t
           else Option.bind (waiting_queue p h) (\<lambda>old.
             if provides (transaction old) = provides (transaction t) then None else Some old)))"
proof -
  let ?tx = "transaction t"
  have ok: "entry_ok (tx_hash ?tx) t" using assms(4,5) by (simp add: entry_ok_def)
  have rv: "rival p ?tx = Some old"
    if "waiting_queue p h = Some old" "provides (transaction old) = provides ?tx" for h old
    by (rule rivalI [OF assms(1) that])
  obtain r p' where rp: "pending_add_transaction ord t p = Some (r, p')" "pending_wf p'"
    and r: "case r of
       Inl e \<Rightarrow> p' = p \<and> e = ReplacementUnderpriced (tx_hash ?tx) \<and>
         (\<exists>old. rival p ?tx = Some old \<and> max_fee_per_gas ?tx \<le> max_fee_per_gas (transaction old))
     | Inr _ \<Rightarrow>
         (\<forall>old. rival p ?tx = Some old \<longrightarrow> max_fee_per_gas (transaction old) < max_fee_per_gas ?tx) \<and>
         waiting_queue p' = (waiting_queue p |`
           {h. \<forall>old. rival p ?tx = Some old \<longrightarrow> h \<noteq> tx_hash (transaction old)}) (tx_hash ?tx \<mapsto> t)"
    using pending_add_spec [OF assms(1,2) ok assms(3)] by blast
  show ?thesis
  proof (cases r)
    case (Inl e)
    then show ?thesis using rp r rival_Some [OF assms(1)] by (simp, blast)
  next
    case (Inr u)
    have "waiting_queue p' = (\<lambda>h. if h = tx_hash ?tx then Some t else Option.bind (waiting_queue p h) (\<lambda>old.
             if provides (transaction old) = provides ?tx then None else Some old))"
    proof
      fix h
      have "(\<forall>old. rival p ?tx = Some old \<longrightarrow> h \<noteq> tx_hash (transaction old)) \<longleftrightarrow>
          provides (transaction o') \<noteq> provides ?tx" if "waiting_queue p h = Some o'" for o'
        using rv [OF that] rival_Some [OF assms(1), of ?tx] pending_wfD(2) [OF assms(1) that] that
        by (metis entry_ok_def option.inject)
      then show "waiting_queue p' h = (if h = tx_hash ?tx then Some t else Option.bind (waiting_queue p h)
          (\<lambda>old. if provides (transaction old) = provides ?tx then None else Some old))"
        using r Inr by (cases "waiting_queue p h") (auto simp: restrict_map_def)
    qed
    with Inr show ?thesis using rp r rv by simp
  qed
qed

theorem pending_add_replaces_cheaper_witness:
  "\<exists>r p'. pending_add_transaction sorted_order (sample_waiting 3 [1] [2] 6) sample_pending = Some (r, p') \<and>
     pending_wf p'"
proof -
  let ?t = "sample_waiting 3 [1] [2] 6"
  have "waiting_queue sample_pending (tx_hash (transaction ?t)) = None"
    "missing_markers ?t \<noteq> {}" "finite (missing_markers ?t)"
    by (simp_all add: sample_pending_queue sample_waiting_def sample_tx_def)
  from pending_add_replaces_cheaper [OF sample_pending_wf sorted_order_law this] show ?thesis by blast
qed

end
