(* ===== verification/Tx_Ready.thy ===== *)
theory Tx_Ready
  imports Tx_Pending "HOL-Library.Multiset"
begin

text \<open>
  The ready queue of the Anvil transaction pool (\<open>ReadyTransactions\<close>, \<open>TransactionsIterator\<close> and
  \<open>PoolTransactionRef\<close> of crates/anvil/src/eth/pool/transactions.rs). A transaction is ready when
  every marker it requires is provided by another ready transaction or was provided before; the
  links from providers to the transactions they unlock are counted, and the invariant says that the
  counts add up. From it follow the absence of panics, and that the iterator never yields a
  transaction before the ones that unlock it. In the code the map of transactions is behind a shared
  pointer with a lock; here it is a value, and \<open>Tx_Share\<close> shows that the sharing makes no difference.
\<close>

section \<open>References and their order\<close>

record PoolTransactionRef =
  ref_tx :: PoolTransaction
  ref_id :: u64

text \<open>\<open>Ord for PoolTransactionRef\<close>: by priority, and the one that came later is the smaller.\<close>

definition ref_less :: "PoolTransactionRef \<Rightarrow> PoolTransactionRef \<Rightarrow> bool" where
  "ref_less a b \<longleftrightarrow>
     priority (ref_tx a) < priority (ref_tx b) \<or>
     priority (ref_tx a) = priority (ref_tx b) \<and> ref_id b < ref_id a"

definition ref_equal :: "PoolTransactionRef \<Rightarrow> PoolTransactionRef \<Rightarrow> bool" where
  "ref_equal a b \<longleftrightarrow> priority (ref_tx a) = priority (ref_tx b) \<and> ref_id a = ref_id b"

text \<open>
  The ordered set \<open>BTreeSet\<close> of references as the list of its elements, the greatest first.
  Inserting an element equal to a present one keeps the present one.
\<close>

fun bset_insert :: "PoolTransactionRef \<Rightarrow> PoolTransactionRef list \<Rightarrow> PoolTransactionRef list" where
  "bset_insert x [] = [x]"
| "bset_insert x (y # ys) =
     (if ref_equal x y then y # ys
      else if ref_less y x then x # y # ys
      else y # bset_insert x ys)"

definition bset_remove :: "PoolTransactionRef \<Rightarrow> PoolTransactionRef list \<Rightarrow> PoolTransactionRef list" where
  "bset_remove x s = filter (\<lambda>y. \<not> ref_equal y x) s"

text \<open>\<open>Vec::swap_remove\<close> at the position of a value, as the code combines them.\<close>

fun position :: "'a \<Rightarrow> 'a list \<Rightarrow> nat option" where
  "position x [] = None"
| "position x (y # ys) = (if y = x then Some 0 else map_option Suc (position x ys))"

definition swap_remove :: "nat \<Rightarrow> 'a list \<Rightarrow> 'a list" where
  "swap_remove i xs = (if Suc i = length xs then butlast xs else butlast (xs[i := last xs]))"

definition unlink :: "'a \<Rightarrow> 'a list \<Rightarrow> 'a list" where
  "unlink x xs = (case position x xs of None \<Rightarrow> xs | Some i \<Rightarrow> swap_remove i xs)"

section \<open>The ready queue\<close>

record ReadyTransaction =
  rt_ref :: PoolTransactionRef
  unlocks :: "TxHash list"
  requires_offset :: nat

abbreviation rt_tx :: "ReadyTransaction \<Rightarrow> PoolTransaction" where
  "rt_tx t \<equiv> ref_tx (rt_ref t)"

record ReadyTransactions =
  tx_id :: u64
  provided_markers :: "TxMarker \<rightharpoonup> TxHash"
  ready_tx :: "TxHash \<rightharpoonup> ReadyTransaction"
  independent_transactions :: "PoolTransactionRef list"

definition ready_default :: ReadyTransactions where
  "ready_default = \<lparr>tx_id = 0, provided_markers = Map.empty, ready_tx = Map.empty,
     independent_transactions = []\<rparr>"

definition ready_clear :: "ReadyTransactions \<Rightarrow> ReadyTransactions" where
  "ready_clear r =
     r\<lparr>provided_markers := Map.empty, ready_tx := Map.empty, independent_transactions := []\<rparr>"

definition ready_contains :: "ReadyTransactions \<Rightarrow> TxHash \<Rightarrow> bool" where
  "ready_contains r h \<longleftrightarrow> ready_tx r h \<noteq> None"

definition ready_len :: "ReadyTransactions \<Rightarrow> nat" where
  "ready_len r = card (dom (ready_tx r))"

definition ready_is_empty :: "ReadyTransactions \<Rightarrow> bool" where
  "ready_is_empty r \<longleftrightarrow> dom (ready_tx r) = {}"

definition next_id :: "ReadyTransactions \<Rightarrow> u64 \<times> ReadyTransactions" where
  "next_id r = (tx_id r, r\<lparr>tx_id := tx_id r + 1\<rparr>)"

subsection \<open>Removing\<close>

text \<open>Take a hash out of the links of the provider of one marker.\<close>

definition unlink_mark :: "TxHash \<Rightarrow> ReadyTransactions \<Rightarrow> TxMarker \<Rightarrow> ReadyTransactions" where
  "unlink_mark h r m =
     (case Option.bind (provided_markers r m) (\<lambda>ph. map_option (Pair ph) (ready_tx r ph)) of
        None \<Rightarrow> r
      | Some (ph, t) \<Rightarrow>
          r\<lparr>ready_tx := (ready_tx r)(ph \<mapsto> t\<lparr>unlocks := unlink h (unlocks t)\<rparr>)\<rparr>)"

text \<open>
  The body of the loop of \<open>remove_with_markers\<close> for a hash that is in the queue, without the worklist:
  the result tells whether some marker was removed.
\<close>

definition remove_ready ::
    "TxMarker set option \<Rightarrow> TxHash \<Rightarrow> ReadyTransaction \<Rightarrow> ReadyTransactions \<Rightarrow> bool \<times> ReadyTransactions" where
  "remove_ready marker_filter h t r =
     (let r1 = r\<lparr>ready_tx := (ready_tx r)(h := None)\<rparr>;
          invalidated = filter (\<lambda>m. case marker_filter of None \<Rightarrow> True | Some f \<Rightarrow> m \<notin> f) (provides (rt_tx t));
          r2 = r1\<lparr>provided_markers := fold (\<lambda>m pm. pm(m := None)) invalidated (provided_markers r1)\<rparr>;
          r3 = foldl (unlink_mark h) r2 (requires (rt_tx t))
      in (invalidated \<noteq> [],
          r3\<lparr>independent_transactions := bset_remove (rt_ref t) (independent_transactions r3)\<rparr>))"

text \<open>
  \<open>remove_with_markers\<close>: the vector of hashes has its end at the head of the list. That the loop
  ends is shown below.
\<close>

partial_function (option) remove_with_markers ::
    "TxHash list \<Rightarrow> TxMarker set option \<Rightarrow> ReadyTransactions
      \<Rightarrow> (PoolTransaction list \<times> ReadyTransactions) option" where
  "remove_with_markers tx_hashes marker_filter r =
     (case tx_hashes of
        [] \<Rightarrow> Some ([], r)
      | h # hs \<Rightarrow>
          (case ready_tx r h of
             None \<Rightarrow> remove_with_markers hs marker_filter r
           | Some t \<Rightarrow>
               (let (some_marks, r') = remove_ready marker_filter h t r;
                    hs' = (if some_marks then rev (unlocks t) @ hs else hs)
                in Option.bind (remove_with_markers hs' marker_filter r')
                     (\<lambda>(removed, r''). Some (rt_tx t # removed, r'')))))"

definition clear_transactions ::
    "TxHash list \<Rightarrow> ReadyTransactions \<Rightarrow> (PoolTransaction list \<times> ReadyTransactions) option" where
  "clear_transactions hashes r = remove_with_markers (rev hashes) None r"

subsection \<open>Pruning\<close>

text \<open>
  The closure \<open>previous_markers\<close>: the provider of a required marker loses the link, and if none is
  left the markers it provides are to be pruned too.
\<close>

definition previous_markers ::
    "TxHash \<Rightarrow> TxMarker \<Rightarrow> ReadyTransactions \<Rightarrow> TxMarker list \<times> ReadyTransactions" where
  "previous_markers h m r =
     (case Option.bind (provided_markers r m) (\<lambda>ph. map_option (Pair ph) (ready_tx r ph)) of
        None \<Rightarrow> ([], r)
      | Some (ph, t) \<Rightarrow>
          (let t' = t\<lparr>unlocks := unlink h (unlocks t)\<rparr>
           in (if unlocks t' = [] then provides (rt_tx t') else [],
               r\<lparr>ready_tx := (ready_tx r)(ph \<mapsto> t')\<rparr>)))"

fun prune_previous ::
    "TxHash \<Rightarrow> TxMarker list \<Rightarrow> TxMarker list \<Rightarrow> ReadyTransactions \<Rightarrow> TxMarker list \<times> ReadyTransactions" where
  "prune_previous h [] to_prune r = (to_prune, r)"
| "prune_previous h (m # ms) to_prune r =
     (case previous_markers h m r of (tags, r') \<Rightarrow> prune_previous h ms (rev tags @ to_prune) r')"

text \<open>A transaction whose provider is pruned has one more marker that is provided for good.\<close>

definition satisfy_one :: "ReadyTransactions \<Rightarrow> TxHash \<Rightarrow> ReadyTransactions" where
  "satisfy_one r h =
     (case ready_tx r h of
        None \<Rightarrow> r
      | Some t \<Rightarrow>
          (let t' = t\<lparr>requires_offset := requires_offset t + 1\<rparr>
           in r\<lparr>ready_tx := (ready_tx r)(h \<mapsto> t'),
                independent_transactions :=
                  (if requires_offset t' = length (requires (rt_tx t'))
                   then bset_insert (rt_ref t') (independent_transactions r)
                   else independent_transactions r)\<rparr>))"

text \<open>The removal of the provided markers with its assertion; \<open>None\<close> is the panic.\<close>

fun forget_markers ::
    "TxHash \<Rightarrow> TxMarker \<Rightarrow> TxMarker list \<Rightarrow> ReadyTransactions \<Rightarrow> ReadyTransactions option" where
  "forget_markers h current [] r = Some r"
| "forget_markers h current (m # ms) r =
     (if provided_markers r m = (if current = m then None else Some h)
      then forget_markers h current ms (r\<lparr>provided_markers := (provided_markers r)(m := None)\<rparr>)
      else None)"

text \<open>
  The body of the loop of \<open>prune_tags\<close> for one marker: the removed transaction, if any, and the
  markers still to prune.
\<close>

definition prune_one ::
    "TxMarker \<Rightarrow> TxMarker list \<Rightarrow> ReadyTransactions
      \<Rightarrow> (PoolTransaction option \<times> TxMarker list \<times> ReadyTransactions) option" where
  "prune_one marker to_prune r =
     (let r1 = r\<lparr>provided_markers := (provided_markers r)(marker := None)\<rparr>
      in case provided_markers r marker of
           None \<Rightarrow> Some (None, to_prune, r1)
         | Some h \<Rightarrow>
             (case ready_tx r1 h of
                None \<Rightarrow> Some (None, to_prune, r1)
              | Some t \<Rightarrow>
                  (let r2 = r1\<lparr>ready_tx := (ready_tx r1)(h := None),
                               independent_transactions := bset_remove (rt_ref t) (independent_transactions r1)\<rparr>;
                       tx = rt_tx t;
                       (to_prune', r3) = prune_previous (tx_hash tx) (requires tx) to_prune r2;
                       r4 = foldl satisfy_one r3 (unlocks t)
                   in map_option (\<lambda>r5. (Some tx, to_prune', r5))
                        (forget_markers (tx_hash tx) marker (provides tx) r4))))"

partial_function (option) prune_loop ::
    "TxMarker list \<Rightarrow> ReadyTransactions \<Rightarrow> (PoolTransaction list \<times> ReadyTransactions) option" where
  "prune_loop to_prune r =
     (case to_prune of
        [] \<Rightarrow> Some ([], r)
      | m # ms \<Rightarrow>
          Option.bind (prune_one m ms r) (\<lambda>(tx, ms', r').
            Option.bind (prune_loop ms' r') (\<lambda>(removed, r'').
              Some ((case tx of None \<Rightarrow> removed | Some tx \<Rightarrow> tx # removed), r''))))"

definition prune_tags :: "TxMarker \<Rightarrow> ReadyTransactions \<Rightarrow> (PoolTransaction list \<times> ReadyTransactions) option" where
  "prune_tags marker r = prune_loop [marker] r"

subsection \<open>Adding\<close>

text \<open>
  \<open>replaced_transactions\<close>. The hash set of the transactions to remove is visited in the order of
  the parameter \<open>ord\<close>, and then handed over as a vector in the same order.
\<close>

fun check_replaced ::
    "PoolTransaction \<Rightarrow> ReadyTransactions \<Rightarrow> TxHash list \<Rightarrow> PoolError + TxHash list" where
  "check_replaced tx r [] = Inr []"
| "check_replaced tx r (h # hs) =
     (case ready_tx r h of
        None \<Rightarrow> check_replaced tx r hs
      | Some to_remove \<Rightarrow>
          if provides (rt_tx to_remove) = provides tx \<and>
             max_fee_per_gas tx \<le> max_fee_per_gas (rt_tx to_remove)
          then Inl (ReplacementUnderpriced (tx_hash tx))
          else (case check_replaced tx r hs of
              Inl e \<Rightarrow> Inl e
            | Inr unlocked \<Rightarrow> Inr (unlocks to_remove @ unlocked)))"

definition replaced_transactions ::
    "IterOrder \<Rightarrow> PoolTransaction \<Rightarrow> ReadyTransactions
      \<Rightarrow> ((PoolError + PoolTransaction list \<times> TxHash list) \<times> ReadyTransactions) option" where
  "replaced_transactions ord tx r =
     (let remove_hashes = set (List.map_filter (provided_markers r) (provides tx))
      in if remove_hashes = {} then Some (Inr ([], []), r)
         else (case check_replaced tx r (hash_order ord remove_hashes) of
             Inl e \<Rightarrow> Some (Inl e, r)
           | Inr unlocked_tx \<Rightarrow>
               map_option (\<lambda>(removed, r'). (Inr (removed, unlocked_tx), r'))
                 (remove_with_markers (rev (hash_order ord remove_hashes)) (Some (set (provides tx))) r)))"

text \<open>
  The loop of \<open>add_transaction\<close> over the required markers: \<open>None\<close> is the panic of \<open>expect\<close>.
\<close>

fun link_required ::
    "TxHash \<Rightarrow> TxMarker list \<Rightarrow> bool \<times> nat \<Rightarrow> ReadyTransactions \<Rightarrow> ((bool \<times> nat) \<times> ReadyTransactions) option" where
  "link_required h [] acc r = Some (acc, r)"
| "link_required h (m # ms) (independent, offset) r =
     (case provided_markers r m of
        None \<Rightarrow> link_required h ms (independent, offset + 1) r
      | Some other \<Rightarrow>
          (case ready_tx r other of
             None \<Rightarrow> None
           | Some t \<Rightarrow>
               link_required h ms (False, offset)
                 (r\<lparr>ready_tx := (ready_tx r)(other \<mapsto> t\<lparr>unlocks := unlocks t @ [h]\<rparr>)\<rparr>)))"

text \<open>The rest of \<open>add_transaction\<close>: the markers, the independent set and the queue.\<close>

definition insert_ready ::
    "PoolTransaction \<Rightarrow> u64 \<Rightarrow> TxHash list \<Rightarrow> bool \<Rightarrow> nat \<Rightarrow> ReadyTransactions \<Rightarrow> ReadyTransactions" where
  "insert_ready tx tid unlocked independent offset r =
     (let h = tx_hash tx;
          r1 = r\<lparr>provided_markers := fold (\<lambda>m pm. pm(m \<mapsto> h)) (provides tx) (provided_markers r)\<rparr>;
          tref = \<lparr>ref_tx = tx, ref_id = tid\<rparr>;
          r2 = (if independent
                then r1\<lparr>independent_transactions := bset_insert tref (independent_transactions r1)\<rparr>
                else r1)
      in r2\<lparr>ready_tx := (ready_tx r2)(h \<mapsto>
           \<lparr>rt_ref = tref, unlocks = unlocked, requires_offset = offset\<rparr>)\<rparr>)"

definition ready_add_transaction ::
    "IterOrder \<Rightarrow> PendingPoolTransaction \<Rightarrow> ReadyTransactions
      \<Rightarrow> ((PoolError + PoolTransaction list) \<times> ReadyTransactions) option" where
  "ready_add_transaction ord t r =
     (let tx = transaction t; h = tx_hash tx
      in if \<not> is_ready t \<or> ready_tx r h \<noteq> None then None
         else Option.bind (replaced_transactions ord tx r) (\<lambda>(res, r1).
           case res of
             Inl e \<Rightarrow> Some (Inl e, r1)
           | Inr (replaced_tx, unlocked) \<Rightarrow>
               (case next_id r1 of (tid, r2) \<Rightarrow>
                 Option.bind (link_required h (requires tx) (True, 0) r2) (\<lambda>((independent, offset), r3).
                   Some (Inr replaced_tx, insert_ready tx tid unlocked independent offset r3)))))"

subsection \<open>Iterating\<close>

record TransactionsIterator =
  it_all :: "TxHash \<rightharpoonup> ReadyTransaction"
  it_awaiting :: "TxHash \<rightharpoonup> nat \<times> PoolTransactionRef"
  it_independent :: "PoolTransactionRef list"

definition get_transactions :: "ReadyTransactions \<Rightarrow> TransactionsIterator" where
  "get_transactions r = \<lparr>it_all = ready_tx r, it_awaiting = Map.empty,
     it_independent = independent_transactions r\<rparr>"

definition independent_or_awaiting ::
    "nat \<Rightarrow> PoolTransactionRef \<Rightarrow> TransactionsIterator \<Rightarrow> TransactionsIterator" where
  "independent_or_awaiting satisfied tref it =
     (if length (requires (ref_tx tref)) \<le> satisfied
      then it\<lparr>it_independent := bset_insert tref (it_independent it)\<rparr>
      else it\<lparr>it_awaiting := (it_awaiting it)(tx_hash (ref_tx tref) \<mapsto> (satisfied, tref))\<rparr>)"

definition unlock_next :: "TransactionsIterator \<Rightarrow> TxHash \<Rightarrow> TransactionsIterator" where
  "unlock_next it h =
     (case it_awaiting it h of
        Some (satisfied, tref) \<Rightarrow>
          independent_or_awaiting (satisfied + 1) tref (it\<lparr>it_awaiting := (it_awaiting it)(h := None)\<rparr>)
      | None \<Rightarrow>
          (case it_all it h of
             None \<Rightarrow> it
           | Some next \<Rightarrow> independent_or_awaiting (requires_offset next + 1) (rt_ref next) it))"

fun iter_next_from ::
    "PoolTransactionRef list \<Rightarrow> TransactionsIterator \<Rightarrow> (PoolTransaction \<times> TransactionsIterator) option" where
  "iter_next_from [] it = None"
| "iter_next_from (best # rest) it =
     (let it1 = it\<lparr>it_independent := rest\<rparr>
      in case it_all it1 (tx_hash (ref_tx best)) of
           None \<Rightarrow> iter_next_from rest it1
         | Some ready \<Rightarrow> Some (ref_tx best, foldl unlock_next it1 (unlocks ready)))"

definition iter_next :: "TransactionsIterator \<Rightarrow> (PoolTransaction \<times> TransactionsIterator) option" where
  "iter_next it = iter_next_from (it_independent it) it"

text \<open>All that the iterator yields; that it ends is shown below.\<close>

partial_function (option) iter_collect :: "TransactionsIterator \<Rightarrow> PoolTransaction list option" where
  "iter_collect it =
     (case iter_next it of
        None \<Rightarrow> Some []
      | Some (tx, it') \<Rightarrow> Option.bind (iter_collect it') (\<lambda>txs. Some (tx # txs)))"

subsection \<open>Markers\<close>

definition u64_to_le_bytes :: "u64 \<Rightarrow> u8 list" where
  "u64_to_le_bytes n = map (\<lambda>i. ucast (drop_bit (8 * i) n)) [0..<8]"

definition address_bytes :: "160 word \<Rightarrow> u8 list" where
  "address_bytes a = map (\<lambda>i. ucast (drop_bit (8 * (19 - i)) a)) [0..<20]"

definition to_marker :: "u64 \<Rightarrow> 160 word \<Rightarrow> TxMarker" where
  "to_marker nonce from = u64_to_le_bytes nonce @ address_bytes from"

section \<open>Lists of links\<close>

lemma position_Some: "position x xs = Some i \<Longrightarrow> i < length xs \<and> xs ! i = x"
  by (induction xs arbitrary: i) (auto split: if_splits)

lemma position_None: "position x xs = None \<longleftrightarrow> x \<notin> set xs"
  by (induction xs) auto

lemma mset_butlast: "xs \<noteq> [] \<Longrightarrow> mset (butlast xs) = mset xs - {#last xs#}"
  by (induction xs rule: rev_induct) auto

lemma mset_swap_remove:
  assumes "i < length xs"
  shows "mset (swap_remove i xs) = mset xs - {#xs ! i#}"
proof (cases "Suc i = length xs")
  case True
  then have "xs ! i = last xs" by (metis diff_Suc_1 last_conv_nth length_0_conv nat.distinct(1))
  moreover from assms have "xs \<noteq> []" by auto
  ultimately show ?thesis using True by (simp add: swap_remove_def mset_butlast)
next
  case False
  with assms have ne: "xs \<noteq> []" "xs[i := last xs] \<noteq> []" by auto
  have "last (xs[i := last xs]) = last xs"
    using False assms ne(1) by (simp add: last_list_update)
  with False assms ne show ?thesis
    using mset_butlast [OF ne(2)] by (simp add: swap_remove_def mset_update)
qed

lemma mset_unlink: "mset (unlink x xs) = mset xs - {#x#}"
  using position_Some [of x xs] position_None [of x xs]
  by (auto simp: unlink_def mset_swap_remove split: option.split)

lemma mset_unlink_pow: "mset ((unlink x ^^ n) xs) = mset xs - replicate_mset n x"
  by (induction n) (simp_all add: mset_unlink)

lemma unlink_all:
  assumes "count (mset xs) x \<le> n"
  shows "mset ((unlink x ^^ n) xs) = filter_mset (\<lambda>y. y \<noteq> x) (mset xs)"
  using assms by (auto simp: mset_unlink_pow intro!: multiset_eqI)

section \<open>Ordered sets of references\<close>

lemma ref_less_trans: "ref_less a b \<Longrightarrow> ref_less b c \<Longrightarrow> ref_less a c"
  by (auto simp: ref_less_def)

lemma ref_trichotomy: "ref_less a b \<or> ref_equal a b \<or> ref_less b a"
  by (auto simp: ref_less_def ref_equal_def)

lemma ref_less_equal: "ref_less a b \<Longrightarrow> \<not> ref_equal a b \<and> \<not> ref_equal b a"
  by (auto simp: ref_less_def ref_equal_def)

lemma ref_less_cong: "ref_equal x y \<Longrightarrow> ref_less x z \<longleftrightarrow> ref_less y z"
  by (auto simp: ref_less_def ref_equal_def)

abbreviation bset_sorted :: "PoolTransactionRef list \<Rightarrow> bool" where
  "bset_sorted \<equiv> sorted_wrt (\<lambda>a b. ref_less b a)"

lemma set_bset_insert:
  assumes "\<And>y. y \<in> set s \<Longrightarrow> \<not> ref_equal x y \<or> x = y"
  shows "set (bset_insert x s) = insert x (set s)"
  using assms by (induction s) auto

lemma set_bset_insert_subset: "set (bset_insert x s) \<subseteq> insert x (set s)"
  by (induction s) auto

lemma bset_insert_sorted: "bset_sorted s \<Longrightarrow> bset_sorted (bset_insert x s)"
proof (induction s)
  case (Cons y s)
  consider "ref_equal x y" | "\<not> ref_equal x y" "ref_less y x" | "\<not> ref_equal x y" "\<not> ref_less y x" by blast
  then show ?case
  proof cases
    case 2
    with Cons.prems show ?thesis by (auto intro: ref_less_trans)
  next
    case 3
    then have "ref_less x y" using ref_trichotomy by blast
    with 3 Cons show ?thesis using set_bset_insert_subset [of x s] by auto
  qed (use Cons.prems in simp)
qed simp

lemma bset_remove_sorted: "bset_sorted s \<Longrightarrow> bset_sorted (bset_remove x s)"
  by (simp add: bset_remove_def sorted_wrt_filter)

lemma set_bset_remove: "set (bset_remove x s) = {y \<in> set s. \<not> ref_equal y x}"
  by (auto simp: bset_remove_def)

section \<open>The invariant\<close>

text \<open>
  Every submitted transaction provides one marker, which it does not require itself: the callers of
  the pool in crates/anvil/src/eth/api.rs build them so.
\<close>

definition single_marked :: "PoolTransaction \<Rightarrow> bool" where
  "single_marked tx \<longleftrightarrow> (\<exists>k. provides tx = [k] \<and> k \<notin> set (requires tx))"

definition the_marker :: "PoolTransaction \<Rightarrow> TxMarker" where
  "the_marker tx = hd (provides tx)"

lemma single_markedD: "single_marked tx \<Longrightarrow> provides tx = [the_marker tx] \<and> the_marker tx \<notin> set (requires tx)"
  by (auto simp: single_marked_def the_marker_def)

text \<open>How often a transaction occurs in the links of one transaction, and of all.\<close>

definition links_to :: "(TxHash \<rightharpoonup> ReadyTransaction) \<Rightarrow> TxHash \<Rightarrow> TxHash \<Rightarrow> nat" where
  "links_to q x h = (case q h of None \<Rightarrow> 0 | Some t \<Rightarrow> count (mset (unlocks t)) x)"

definition indeg :: "(TxHash \<rightharpoonup> ReadyTransaction) \<Rightarrow> TxHash \<Rightarrow> nat" where
  "indeg q x = (\<Sum>h\<in>dom q. links_to q x h)"

definition links_ok :: "(TxHash \<rightharpoonup> ReadyTransaction) \<Rightarrow> bool" where
  "links_ok q \<longleftrightarrow> (\<forall>h t x. q h = Some t \<longrightarrow> x \<in> set (unlocks t) \<longrightarrow>
     (\<exists>t'. q x = Some t' \<and>
        count (mset (unlocks t)) x \<le> count (mset (requires (rt_tx t'))) (the_marker (rt_tx t))))"

definition independent_ok :: "(TxHash \<rightharpoonup> ReadyTransaction) \<Rightarrow> PoolTransactionRef list \<Rightarrow> bool" where
  "independent_ok q s \<longleftrightarrow> bset_sorted s \<and>
     (\<forall>x. x \<in> set s \<longleftrightarrow>
        (\<exists>h t. q h = Some t \<and> requires_offset t = length (requires (rt_tx t)) \<and> x = rt_ref t))"

definition ready_entry_ok :: "u64 \<Rightarrow> TxHash \<Rightarrow> ReadyTransaction \<Rightarrow> bool" where
  "ready_entry_ok i h t \<longleftrightarrow> tx_hash (rt_tx t) = h \<and> single_marked (rt_tx t) \<and> ref_id (rt_ref t) < i"

text \<open>
  The invariant while a loop runs: the counts of the transactions in \<open>W\<close> are not claimed, and the
  links in \<open>D\<close> are taken out but not yet accounted for.
\<close>

definition ready_inv :: "TxHash set \<Rightarrow> TxHash multiset \<Rightarrow> ReadyTransactions \<Rightarrow> bool" where
  "ready_inv W D r \<longleftrightarrow>
     finite (dom (ready_tx r)) \<and>
     (\<forall>h t. ready_tx r h = Some t \<longrightarrow> ready_entry_ok (tx_id r) h t) \<and>
     (\<forall>h t. ready_tx r h = Some t \<longrightarrow> h \<notin> W \<longrightarrow>
        requires_offset t + indeg (ready_tx r) h + count D h = length (requires (rt_tx t))) \<and>
     (\<forall>k h. provided_markers r k = Some h \<longleftrightarrow>
        (\<exists>t. ready_tx r h = Some t \<and> the_marker (rt_tx t) = k)) \<and>
     links_ok (ready_tx r) \<and>
     (\<forall>h t h' t'. ready_tx r h = Some t \<longrightarrow> ready_tx r h' = Some t' \<longrightarrow>
        ref_id (rt_ref t) = ref_id (rt_ref t') \<longrightarrow> h = h') \<and>
     independent_ok (ready_tx r) (independent_transactions r)"

definition ready_wf :: "ReadyTransactions \<Rightarrow> bool" where
  "ready_wf r \<longleftrightarrow> ready_inv {} {#} r"

lemma ready_invD:
  assumes "ready_inv W D r"
  shows "finite (dom (ready_tx r))"
    and "ready_tx r h = Some t \<Longrightarrow> ready_entry_ok (tx_id r) h t"
    and "ready_tx r h = Some t \<Longrightarrow> h \<notin> W \<Longrightarrow>
      requires_offset t + indeg (ready_tx r) h + count D h = length (requires (rt_tx t))"
    and "provided_markers r k = Some h' \<longleftrightarrow> (\<exists>t. ready_tx r h' = Some t \<and> the_marker (rt_tx t) = k)"
    and "links_ok (ready_tx r)"
    and "ready_tx r h = Some t \<Longrightarrow> ready_tx r h'' = Some t' \<Longrightarrow>
      ref_id (rt_ref t) = ref_id (rt_ref t') \<Longrightarrow> h = h''"
    and "independent_ok (ready_tx r) (independent_transactions r)"
  using assms by (auto simp: ready_inv_def)

lemma ready_invI:
  assumes "finite (dom (ready_tx r))"
    and "\<And>h t. ready_tx r h = Some t \<Longrightarrow> ready_entry_ok (tx_id r) h t"
    and "\<And>h t. ready_tx r h = Some t \<Longrightarrow> h \<notin> W \<Longrightarrow>
      requires_offset t + indeg (ready_tx r) h + count D h = length (requires (rt_tx t))"
    and "\<And>k h. provided_markers r k = Some h \<longleftrightarrow> (\<exists>t. ready_tx r h = Some t \<and> the_marker (rt_tx t) = k)"
    and "links_ok (ready_tx r)"
    and "\<And>h t h' t'. ready_tx r h = Some t \<Longrightarrow> ready_tx r h' = Some t' \<Longrightarrow>
      ref_id (rt_ref t) = ref_id (rt_ref t') \<Longrightarrow> h = h'"
    and "independent_ok (ready_tx r) (independent_transactions r)"
  shows "ready_inv W D r"
  unfolding ready_inv_def by (intro conjI allI impI) (fact assms)+

lemma ready_wf_default: "ready_wf ready_default"
  by (simp add: ready_wf_def ready_inv_def ready_default_def links_ok_def independent_ok_def)

lemma ready_wf_clear: "ready_wf (ready_clear r)"
  by (simp add: ready_wf_def ready_inv_def ready_clear_def links_ok_def independent_ok_def)

lemma ready_inv_weaken:
  assumes "ready_inv W (D + M) r" "set_mset M \<subseteq> W'"
  shows "ready_inv (W \<union> W') D r"
proof -
  have "requires_offset t + indeg (ready_tx r) h + count D h = length (requires (rt_tx t))"
    if "ready_tx r h = Some t" "h \<notin> W \<union> W'" for h t
  proof -
    have "count M h = 0" using that(2) assms(2) by (auto simp: count_eq_zero_iff)
    with ready_invD(3) [OF assms(1) that(1)] that(2) show ?thesis by simp
  qed
  with assms(1) show ?thesis unfolding ready_inv_def by simp
qed

lemma ready_inv_mono:
  assumes "ready_inv W D r" "W \<inter> dom (ready_tx r) \<subseteq> W'"
  shows "ready_inv W' D r"
proof -
  have "h \<notin> W" if "ready_tx r h = Some t" "h \<notin> W'" for h t using that assms(2) by auto
  then have "requires_offset t + indeg (ready_tx r) h + count D h = length (requires (rt_tx t))"
    if "ready_tx r h = Some t" "h \<notin> W'" for h t
    using ready_invD(3) [OF assms(1) that(1)] that by auto
  with assms(1) show ?thesis unfolding ready_inv_def by simp
qed

lemma ready_marker_unique:
  assumes "ready_inv W D r" "ready_tx r h = Some t" "ready_tx r h' = Some t'"
    "the_marker (rt_tx t) = the_marker (rt_tx t')"
  shows "h = h'"
  using ready_invD(4) [OF assms(1), of "the_marker (rt_tx t)"] assms(2-) by (metis option.inject)

section \<open>Taking one transaction out\<close>

definition marks_of :: "(TxMarker \<rightharpoonup> TxHash) \<Rightarrow> TxMarker list \<Rightarrow> TxHash \<Rightarrow> nat" where
  "marks_of pm ms x = length (filter (\<lambda>m. pm m = Some x) ms)"

definition drop_links ::
    "TxHash \<Rightarrow> (TxMarker \<rightharpoonup> TxHash) \<Rightarrow> TxMarker list \<Rightarrow> (TxHash \<rightharpoonup> ReadyTransaction) \<Rightarrow> TxHash \<rightharpoonup> ReadyTransaction" where
  "drop_links h pm ms q = (\<lambda>x. map_option (\<lambda>t. t\<lparr>unlocks := (unlink h ^^ marks_of pm ms x) (unlocks t)\<rparr>) (q x))"

lemma drop_links_Nil [simp]: "drop_links h pm [] q = q"
  by (auto simp: drop_links_def marks_of_def fun_eq_iff option.map_ident)

lemma drop_links_Cons: "drop_links h pm ms (drop_links h pm [m] q) = drop_links h pm (m # ms) q"
  by (auto simp: drop_links_def marks_of_def fun_eq_iff option.map_comp comp_def funpow_swap1
    intro!: option.map_cong)

lemma unlink_mark_eq:
  "unlink_mark h r m = r\<lparr>ready_tx := drop_links h (provided_markers r) [m] (ready_tx r)\<rparr>"
proof (cases "Option.bind (provided_markers r m) (\<lambda>ph. map_option (Pair ph) (ready_tx r ph))")
  case None
  then have "drop_links h (provided_markers r) [m] (ready_tx r) = ready_tx r"
    by (auto simp: drop_links_def marks_of_def fun_eq_iff Option.bind_eq_None_conv option.map_ident)
  with None show ?thesis by (simp add: unlink_mark_def)
next
  case (Some pt)
  then obtain ph t where pt: "pt = (ph, t)" "provided_markers r m = Some ph" "ready_tx r ph = Some t"
    by (auto simp: bind_eq_Some_conv)
  then have "drop_links h (provided_markers r) [m] (ready_tx r) =
      (ready_tx r)(ph \<mapsto> t\<lparr>unlocks := unlink h (unlocks t)\<rparr>)"
    by (auto simp: drop_links_def marks_of_def fun_eq_iff option.map_ident)
  with pt show ?thesis by (simp add: unlink_mark_def)
qed

lemma foldl_unlink_mark:
  "foldl (unlink_mark h) r ms = r\<lparr>ready_tx := drop_links h (provided_markers r) ms (ready_tx r)\<rparr>"
  by (induction ms arbitrary: r) (simp_all add: unlink_mark_eq drop_links_Cons)

lemma prune_previous_state: "snd (prune_previous h ms to_prune r) = foldl (unlink_mark h) r ms"
proof (induction ms arbitrary: to_prune r)
  case (Cons m ms)
  have "snd (previous_markers h m r) = unlink_mark h r m"
    by (auto simp: previous_markers_def unlink_mark_def Let_def split: option.split)
  with Cons show ?case by (simp add: case_prod_beta)
qed simp

text \<open>The queue without a transaction and without the links to it.\<close>

definition relinked :: "TxHash \<Rightarrow> ReadyTransaction \<Rightarrow> ReadyTransaction \<Rightarrow> bool" where
  "relinked h t t' \<longleftrightarrow> rt_ref t' = rt_ref t \<and> requires_offset t' = requires_offset t \<and>
     mset (unlocks t') = filter_mset (\<lambda>y. y \<noteq> h) (mset (unlocks t))"

lemma relinkedD:
  assumes "relinked h t t'"
  shows "rt_ref t' = rt_ref t" "requires_offset t' = requires_offset t"
    "mset (unlocks t') = filter_mset (\<lambda>y. y \<noteq> h) (mset (unlocks t))"
  using assms by (simp_all add: relinked_def)

definition taken_out :: "TxHash \<Rightarrow> (TxHash \<rightharpoonup> ReadyTransaction) \<Rightarrow> (TxHash \<rightharpoonup> ReadyTransaction) \<Rightarrow> bool" where
  "taken_out h q q' \<longleftrightarrow> q' h = None \<and> (\<forall>x. x \<noteq> h \<longrightarrow> rel_option (relinked h) (q x) (q' x))"

lemma taken_outE:
  assumes "taken_out h q q'" "q' x = Some t'"
  obtains t where "x \<noteq> h" "q x = Some t" "relinked h t t'"
  using assms by (cases "x = h") (auto simp: taken_out_def option_rel_Some2 elim!: allE [of _ x])

lemma taken_outI:
  assumes "taken_out h q q'" "q x = Some t" "x \<noteq> h"
  obtains t' where "q' x = Some t'" "relinked h t t'"
  using assms by (auto simp: taken_out_def option_rel_Some1 elim!: allE [of _ x])

lemma taken_out_dom: "taken_out h q q' \<Longrightarrow> dom q' = dom q - {h}"
  by (auto elim: taken_outE taken_outI)

lemma indeg_taken_out:
  assumes "taken_out h q q'" "finite (dom q)" "q h = Some t" "x \<noteq> h"
  shows "indeg q x = indeg q' x + count (mset (unlocks t)) x"
proof -
  have "links_to q' x y = links_to q x y" if "y \<in> dom q - {h}" for y
  proof -
    from that obtain s where s: "q y = Some s" "y \<noteq> h" by auto
    then obtain s' where "q' y = Some s'" "relinked h s s'" using taken_outI [OF assms(1)] by blast
    with s assms(4) show ?thesis by (simp add: links_to_def relinked_def)
  qed
  then have "(\<Sum>y\<in>dom q'. links_to q' x y) = (\<Sum>y\<in>dom q - {h}. links_to q x y)"
    unfolding taken_out_dom [OF assms(1)] by (rule sum.cong [OF refl])
  moreover have "(\<Sum>y\<in>dom q. links_to q x y) = links_to q x h + (\<Sum>y\<in>dom q - {h}. links_to q x y)"
    using assms(2,3) by (intro sum.remove) auto
  ultimately show ?thesis using assms(3) by (simp add: indeg_def links_to_def)
qed

lemma links_ok_taken_out:
  assumes "links_ok q" "taken_out h q q'"
  shows "links_ok q'"
  unfolding links_ok_def
proof (intro allI impI)
  fix y t' x
  assume t': "q' y = Some t'" and x: "x \<in> set (unlocks t')"
  from taken_outE [OF assms(2) t'] obtain t where t: "q y = Some t" "relinked h t t'" by metis
  then have u: "mset (unlocks t') = filter_mset (\<lambda>y. y \<noteq> h) (mset (unlocks t))" by (simp add: relinked_def)
  have "x \<in># mset (unlocks t')" using x by simp
  then have nx: "x \<noteq> h" "x \<in> set (unlocks t)" unfolding u by simp_all
  with assms(1) t obtain s where s: "q x = Some s"
    "count (mset (unlocks t)) x \<le> count (mset (requires (rt_tx s))) (the_marker (rt_tx t))"
    unfolding links_ok_def by metis
  from taken_outI [OF assms(2) s(1) nx(1)] obtain s' where "q' x = Some s'" "relinked h s s'" .
  with s(2) t(2) u nx(1) show "\<exists>s'. q' x = Some s' \<and>
      count (mset (unlocks t')) x \<le> count (mset (requires (rt_tx s'))) (the_marker (rt_tx t'))"
    by (intro exI [of _ s']) (simp add: relinked_def)
qed

lemma independent_ok_taken_out:
  assumes ok: "independent_ok q s" and out: "taken_out h q q'" and t: "q h = Some t"
    and inj: "\<And>x t x' t'. q x = Some t \<Longrightarrow> q x' = Some t' \<Longrightarrow> ref_id (rt_ref t) = ref_id (rt_ref t') \<Longrightarrow> x = x'"
  shows "independent_ok q' (bset_remove (rt_ref t) s)"
proof -
  have "x \<in> set (bset_remove (rt_ref t) s) \<longleftrightarrow>
      (\<exists>y t'. q' y = Some t' \<and> requires_offset t' = length (requires (rt_tx t')) \<and> x = rt_ref t')" for x
  proof
    assume "x \<in> set (bset_remove (rt_ref t) s)"
    then obtain y u where u: "q y = Some u" "requires_offset u = length (requires (rt_tx u))" "x = rt_ref u"
      and ne: "\<not> ref_equal (rt_ref u) (rt_ref t)"
      using ok by (auto simp: set_bset_remove independent_ok_def)
    then have "y \<noteq> h" using t by (auto simp: ref_equal_def)
    from taken_outI [OF out u(1) this] obtain u' where "q' y = Some u'" "relinked h u u'" .
    with u show "\<exists>y t'. q' y = Some t' \<and> requires_offset t' = length (requires (rt_tx t')) \<and> x = rt_ref t'"
      by (intro exI [of _ y] exI [of _ u']) (simp add: relinked_def)
  next
    assume "\<exists>y t'. q' y = Some t' \<and> requires_offset t' = length (requires (rt_tx t')) \<and> x = rt_ref t'"
    then obtain y u' where u': "q' y = Some u'" "requires_offset u' = length (requires (rt_tx u'))" "x = rt_ref u'"
      by blast
    from taken_outE [OF out u'(1)] obtain u where u: "y \<noteq> h" "q y = Some u" "relinked h u u'" .
    with u' have "requires_offset u = length (requires (rt_tx u)) \<and> x = rt_ref u"
      using relinkedD [OF u(3)] by simp
    with u(2) have "x \<in> set s" using ok unfolding independent_ok_def by blast
    moreover have "\<not> ref_equal x (rt_ref t)"
      using inj [OF u(2) t] u(1) u'(3) relinkedD(1) [OF u(3)] by (auto simp: ref_equal_def)
    ultimately show "x \<in> set (bset_remove (rt_ref t) s)" by (simp add: set_bset_remove)
  qed
  with ok show ?thesis by (simp add: independent_ok_def bset_remove_sorted)
qed

lemma ready_inv_taken_out:
  assumes inv: "ready_inv W D r" and t: "ready_tx r h = Some t" and out: "taken_out h (ready_tx r) (ready_tx r')"
    and i: "tx_id r' = tx_id r"
    and s: "independent_transactions r' = bset_remove (rt_ref t) (independent_transactions r)"
    and pm: "provided_markers r' = (provided_markers r)(the_marker (rt_tx t) := None)"
  shows "ready_inv W (D + mset (unlocks t)) r'"
  unfolding ready_inv_def
proof (intro conjI allI impI)
  show "finite (dom (ready_tx r'))"
    using taken_out_dom [OF out] ready_invD(1) [OF inv] by simp
  show "links_ok (ready_tx r')" by (rule links_ok_taken_out [OF ready_invD(5) [OF inv] out])
  show "independent_ok (ready_tx r') (independent_transactions r')"
    unfolding s by (rule independent_ok_taken_out [OF ready_invD(7) [OF inv] out t ready_invD(6) [OF inv]])
next
  fix x u' assume "ready_tx r' x = Some u'"
  from taken_outE [OF out this] obtain u where u: "x \<noteq> h" "ready_tx r x = Some u" "relinked h u u'" .
  with ready_invD(2) [OF inv u(2)] show "ready_entry_ok (tx_id r') x u'"
    by (simp add: ready_entry_ok_def relinked_def i)
next
  fix x u' assume "ready_tx r' x = Some u'" and W: "x \<notin> W"
  from taken_outE [OF out this(1)] obtain u where u: "x \<noteq> h" "ready_tx r x = Some u" "relinked h u u'" .
  with ready_invD(3) [OF inv u(2) W] indeg_taken_out [OF out ready_invD(1) [OF inv] t u(1)]
  show "requires_offset u' + indeg (ready_tx r') x + count (D + mset (unlocks t)) x = length (requires (rt_tx u'))"
    by (simp add: relinked_def)
next
  fix k x
  show "provided_markers r' k = Some x \<longleftrightarrow> (\<exists>u. ready_tx r' x = Some u \<and> the_marker (rt_tx u) = k)"
  proof
    assume "provided_markers r' k = Some x"
    then have k: "k \<noteq> the_marker (rt_tx t)" "provided_markers r k = Some x" by (auto simp: pm split: if_splits)
    then obtain u where u: "ready_tx r x = Some u" "the_marker (rt_tx u) = k" using ready_invD(4) [OF inv] by blast
    with k t have "x \<noteq> h" by auto
    from taken_outI [OF out u(1) this] obtain u' where "ready_tx r' x = Some u'" "relinked h u u'" .
    with u(2) show "\<exists>u. ready_tx r' x = Some u \<and> the_marker (rt_tx u) = k" using relinkedD(1) by metis
  next
    assume "\<exists>u. ready_tx r' x = Some u \<and> the_marker (rt_tx u) = k"
    then obtain u' where u': "ready_tx r' x = Some u'" "the_marker (rt_tx u') = k" by blast
    from taken_outE [OF out u'(1)] obtain u where u: "x \<noteq> h" "ready_tx r x = Some u" "relinked h u u'" .
    with u' have m: "the_marker (rt_tx u) = k" by (simp add: relinked_def)
    with u(1) have "k \<noteq> the_marker (rt_tx t)" using ready_marker_unique [OF inv u(2) t] by auto
    with m u(2) show "provided_markers r' k = Some x" using ready_invD(4) [OF inv] by (simp add: pm)
  qed
next
  fix x u x' v assume uv: "ready_tx r' x = Some u" "ready_tx r' x' = Some v" "ref_id (rt_ref u) = ref_id (rt_ref v)"
  obtain u0 where "ready_tx r x = Some u0" "rt_ref u = rt_ref u0"
    using taken_outE [OF out uv(1)] relinkedD(1) by metis
  moreover obtain v0 where "ready_tx r x' = Some v0" "rt_ref v = rt_ref v0"
    using taken_outE [OF out uv(2)] relinkedD(1) by metis
  ultimately show "x = x'" using ready_invD(6) [OF inv] uv(3) by simp
qed

lemma drop_links_taken_out:
  assumes inv: "ready_inv W D r" and t: "ready_tx r h = Some t"
    and pm: "\<And>m. m \<noteq> the_marker (rt_tx t) \<Longrightarrow> pm m = provided_markers r m"
  shows "taken_out h (ready_tx r) (drop_links h pm (requires (rt_tx t)) ((ready_tx r)(h := None)))"
proof -
  have k: "the_marker (rt_tx t) \<notin> set (requires (rt_tx t))"
    using ready_invD(2) [OF inv t] single_markedD by (auto simp: ready_entry_ok_def)
  have "mset ((unlink h ^^ marks_of pm (requires (rt_tx t)) x) (unlocks u)) =
      filter_mset (\<lambda>y. y \<noteq> h) (mset (unlocks u))" if u: "ready_tx r x = Some u" "x \<noteq> h" for x u
  proof (rule unlink_all)
    have "pm m = Some x \<longleftrightarrow> the_marker (rt_tx u) = m" if "m \<in> set (requires (rt_tx t))" for m
    proof -
      from that k have "m \<noteq> the_marker (rt_tx t)" by blast
      then have "pm m = Some x \<longleftrightarrow> (\<exists>v. ready_tx r x = Some v \<and> the_marker (rt_tx v) = m)"
        using pm ready_invD(4) [OF inv] by simp
      then show ?thesis using u(1) by auto
    qed
    then have "marks_of pm (requires (rt_tx t)) x = length (filter ((=) (the_marker (rt_tx u))) (requires (rt_tx t)))"
      unfolding marks_of_def by (intro arg_cong [where f = length] filter_cong refl)
    then have "marks_of pm (requires (rt_tx t)) x = count (mset (requires (rt_tx t))) (the_marker (rt_tx u))"
      by (simp add: count_mset count_list_eq_length_filter)
    moreover have "count (mset (unlocks u)) h \<le> count (mset (requires (rt_tx t))) (the_marker (rt_tx u))"
    proof (cases "h \<in> set (unlocks u)")
      case True
      with ready_invD(5) [OF inv, unfolded links_ok_def, rule_format, OF u(1) True] t show ?thesis by simp
    next
      case False
      then have "count (mset (unlocks u)) h = 0" by (simp add: count_eq_zero_iff)
      then show ?thesis by (simp only: le0)
    qed
    ultimately show "count (mset (unlocks u)) h \<le> marks_of pm (requires (rt_tx t)) x" by simp
  qed
  note * = this
  show ?thesis
    unfolding taken_out_def
  proof (intro conjI allI impI)
    fix x assume "x \<noteq> h"
    with * [of x] show "rel_option (relinked h) (ready_tx r x)
        (drop_links h pm (requires (rt_tx t)) ((ready_tx r)(h := None)) x)"
      by (cases "ready_tx r x") (simp_all add: drop_links_def relinked_def)
  qed (simp add: drop_links_def)
qed

section \<open>Removing with dependents\<close>

lemma remove_ready_inv:
  assumes inv: "ready_inv W D r" and t: "ready_tx r h = Some t"
  shows "fst (remove_ready None h t r)"
    and "ready_inv W (D + mset (unlocks t)) (snd (remove_ready None h t r))"
    and "taken_out h (ready_tx r) (ready_tx (snd (remove_ready None h t r)))"
    and "tx_id (snd (remove_ready None h t r)) = tx_id r"
    and "provided_markers (snd (remove_ready None h t r)) = (provided_markers r)(the_marker (rt_tx t) := None)"
proof -
  have p: "provides (rt_tx t) = [the_marker (rt_tx t)]"
    using ready_invD(2) [OF inv t] single_markedD by (auto simp: ready_entry_ok_def)
  then show "fst (remove_ready None h t r)" by (simp add: remove_ready_def Let_def)
  let ?pm = "(provided_markers r)(the_marker (rt_tx t) := None)"
  let ?q = "drop_links h ?pm (requires (rt_tx t)) ((ready_tx r)(h := None))"
  have eq: "snd (remove_ready None h t r) = r\<lparr>provided_markers := ?pm, ready_tx := ?q,
      independent_transactions := bset_remove (rt_ref t) (independent_transactions r)\<rparr>"
    by (simp add: remove_ready_def Let_def foldl_unlink_mark p)
  have out: "taken_out h (ready_tx r) ?q" by (rule drop_links_taken_out [OF inv t]) simp
  then show "taken_out h (ready_tx r) (ready_tx (snd (remove_ready None h t r)))" by (simp add: eq)
  show "tx_id (snd (remove_ready None h t r)) = tx_id r" by (simp add: eq)
  show "provided_markers (snd (remove_ready None h t r)) = ?pm" by (simp add: eq)
  show "ready_inv W (D + mset (unlocks t)) (snd (remove_ready None h t r))"
    by (rule ready_inv_taken_out [OF inv t]) (simp_all add: eq out)
qed

text \<open>
  The transactions that hang on a set of hashes: reachable along the links.
\<close>

inductive hangs_on :: "(TxHash \<rightharpoonup> ReadyTransaction) \<Rightarrow> TxHash set \<Rightarrow> TxHash \<Rightarrow> bool" for q H where
  root: "h \<in> H \<Longrightarrow> hangs_on q H h"
| link: "hangs_on q H h \<Longrightarrow> q h = Some t \<Longrightarrow> x \<in> set (unlocks t) \<Longrightarrow> hangs_on q H x"

lemma hangs_on_skip:
  assumes "q h = None" "x \<noteq> h"
  shows "hangs_on q (insert h H) x \<longleftrightarrow> hangs_on q H x"
proof
  show "hangs_on q H x \<Longrightarrow> hangs_on q (insert h H) x"
    by (induction rule: hangs_on.induct) (auto intro: hangs_on.intros)
  have "hangs_on q (insert h H) x \<Longrightarrow> x = h \<or> hangs_on q H x"
    by (induction rule: hangs_on.induct) (use assms(1) in \<open>auto intro: hangs_on.intros\<close>)
  then show "hangs_on q (insert h H) x \<Longrightarrow> hangs_on q H x" using assms(2) by blast
qed

lemma hangs_on_taken_out1:
  assumes "taken_out h q q'" "q h = Some t" "h \<in> H" "H' \<subseteq> H \<union> set (unlocks t)" "hangs_on q' H' x"
  shows "hangs_on q H x"
  using assms(5)
proof (induction rule: hangs_on.induct)
  case (root x)
  then consider "x \<in> H" | "x \<in> set (unlocks t)" using assms(4) by blast
  then show ?case
  proof cases
    case 2
    with hangs_on.root [OF assms(3), of q] assms(2) show ?thesis by (rule hangs_on.link)
  qed (rule hangs_on.root)
next
  case (link y t' x)
  from taken_outE [OF assms(1) link(2)] obtain s where s: "q y = Some s" "relinked h s t'" .
  have "x \<in># mset (unlocks t')" using link(3) by simp
  then have "x \<in> set (unlocks s)" unfolding relinkedD(3) [OF s(2)] by simp
  with link(4) s(1) show ?case by (rule hangs_on.link)
qed

lemma hangs_on_taken_out2:
  assumes "taken_out h q q'" "q h = Some t" "H - {h} \<union> set (unlocks t) \<subseteq> H'" "hangs_on q H x"
  shows "x = h \<or> hangs_on q' H' x"
  using assms(4)
proof (induction rule: hangs_on.induct)
  case (root x)
  then show ?case using assms(3) by (auto intro: hangs_on.root)
next
  case (link y s x)
  show ?case
  proof (cases "y = h")
    case True
    with link(2,3) assms(2) have "x \<in> set (unlocks t)" by simp
    then have "x \<in> H'" using assms(3) by blast
    then show ?thesis by (blast intro: hangs_on.root)
  next
    case False
    from taken_outI [OF assms(1) link(2) False] obtain s' where s': "q' y = Some s'" "relinked h s s'" .
    show ?thesis
    proof (cases "x = h")
      case nx: False
      have "x \<in># mset (unlocks s')" unfolding relinkedD(3) [OF s'(2)] using nx link(3) by simp
      then have "x \<in> set (unlocks s')" by simp
      with s'(1) link(4) False show ?thesis by (blast intro: hangs_on.link)
    qed simp
  qed
qed

definition txs_of :: "(TxHash \<rightharpoonup> ReadyTransaction) \<Rightarrow> TxHash set \<Rightarrow> PoolTransaction set" where
  "txs_of q X = (\<lambda>x. rt_tx (the (q x))) ` X"

definition hanging :: "(TxHash \<rightharpoonup> ReadyTransaction) \<Rightarrow> TxHash set \<Rightarrow> TxHash set" where
  "hanging q H = {x \<in> dom q. hangs_on q H x}"

lemma hanging_taken_out:
  assumes "taken_out h q q'" "q h = Some t" "h \<in> H" "H - {h} \<union> set (unlocks t) \<subseteq> H'" "H' \<subseteq> H \<union> set (unlocks t)"
  shows "hanging q H = insert h (hanging q' H')"
  using hangs_on_taken_out1 [OF assms(1-3,5)] hangs_on_taken_out2 [OF assms(1,2,4)]
    taken_out_dom [OF assms(1)] assms(2,3) unfolding hanging_def
  by (auto intro: hangs_on.root)

lemma txs_of_taken_out:
  assumes "taken_out h q q'" "X \<subseteq> dom q'"
  shows "txs_of q X = txs_of q' X"
  unfolding txs_of_def
proof (rule image_cong [OF refl])
  fix x assume "x \<in> X"
  with assms(2) obtain t' where t': "q' x = Some t'" by blast
  from taken_outE [OF assms(1) t'] obtain t where "q x = Some t" "relinked h t t'" .
  with t' show "rt_tx (the (q x)) = rt_tx (the (q' x))" by (simp add: relinkedD(1))
qed

lemma remove_with_markers_None:
  assumes "ready_inv (set hs) {#} r"
  shows "\<exists>removed r'. remove_with_markers hs None r = Some (removed, r') \<and> ready_wf r' \<and> tx_id r' = tx_id r \<and>
    dom (ready_tx r') = dom (ready_tx r) - hanging (ready_tx r) (set hs) \<and>
    provided_markers r' \<subseteq>\<^sub>m provided_markers r \<and>
    set removed = txs_of (ready_tx r) (hanging (ready_tx r) (set hs))"
  using assms
proof (induction "card (dom (ready_tx r))" arbitrary: r hs rule: less_induct)
  case outer: less
  show ?case using outer.prems
  proof (induction hs)
    case Nil
    have "\<not> hangs_on (ready_tx r) {} x" for x
    proof
      assume "hangs_on (ready_tx r) {} x"
      then show False by (induction rule: hangs_on.induct) auto
    qed
    with Nil show ?case
      by (simp add: remove_with_markers.simps ready_wf_def hanging_def txs_of_def)
  next
    case (Cons h hs)
    let ?q = "ready_tx r"
    show ?case
    proof (cases "?q h")
      case None
      have "ready_inv (set hs) {#} r" by (rule ready_inv_mono [OF Cons.prems]) (use None in auto)
      moreover have "hanging ?q (set (h # hs)) = hanging ?q (set hs)"
        using hangs_on_skip [of ?q h _ "set hs"] None unfolding hanging_def
        by (intro Collect_cong) (metis domIff list.simps(15))
      ultimately show ?thesis using Cons.IH None by (simp add: remove_with_markers.simps [of "h # hs"])
    next
      case (Some t)
      let ?hs = "rev (unlocks t) @ hs"
      define r1 where "r1 = snd (remove_ready None h t r)"
      note rr = remove_ready_inv [OF Cons.prems Some, folded r1_def]
      have eq: "remove_ready None h t r = (True, r1)" using rr(1) by (simp add: r1_def prod_eq_iff)
      have dom1: "dom (ready_tx r1) = dom ?q - {h}" by (rule taken_out_dom [OF rr(3)])
      have "card (dom (ready_tx r1)) < card (dom ?q)"
        unfolding dom1 using Some ready_invD(1) [OF Cons.prems] by (intro card_Diff1_less) auto
      moreover have "ready_inv (set ?hs) {#} r1"
        by (rule ready_inv_mono [OF ready_inv_weaken [OF rr(2) subset_refl]]) (use dom1 in auto)
      ultimately obtain removed r' where IH: "remove_with_markers ?hs None r1 = Some (removed, r')" "ready_wf r'"
          "tx_id r' = tx_id r1" "dom (ready_tx r') = dom (ready_tx r1) - hanging (ready_tx r1) (set ?hs)"
          "provided_markers r' \<subseteq>\<^sub>m provided_markers r1"
          "set removed = txs_of (ready_tx r1) (hanging (ready_tx r1) (set ?hs))"
        using outer.hyps by blast
      have hang: "hanging ?q (set (h # hs)) = insert h (hanging (ready_tx r1) (set ?hs))"
        by (rule hanging_taken_out [OF rr(3) Some]) auto
      have "txs_of (ready_tx r1) (hanging (ready_tx r1) (set ?hs)) = txs_of ?q (hanging (ready_tx r1) (set ?hs))"
        by (rule txs_of_taken_out [OF rr(3), symmetric]) (auto simp: hanging_def)
      then have "set (rt_tx t # removed) = txs_of ?q (hanging ?q (set (h # hs)))"
        unfolding hang by (simp add: IH(6) txs_of_def Some)
      moreover have "provided_markers r' \<subseteq>\<^sub>m provided_markers r"
        using map_le_trans [OF IH(5)] rr(5) upd_None_map_le by metis
      moreover have "remove_with_markers (h # hs) None r = Some (rt_tx t # removed, r')"
        using IH(1) by (simp add: remove_with_markers.simps [of "h # hs"] Some eq)
      ultimately show ?thesis using IH(2-4) rr(4) dom1 hang by auto
    qed
  qed
qed

end
