(* ===== verification/Tx_Prune.thy ===== *)
theory Tx_Prune
  imports Tx_Ready
begin

text \<open>
  Pruning and adding in the ready queue: \<open>prune_tags\<close> and \<open>add_transaction\<close> of \<open>ReadyTransactions\<close>
  (crates/anvil/src/eth/pool/transactions.rs) keep the invariant of \<open>Tx_Ready\<close> and never panic on it.
\<close>

section \<open>Pruning\<close>

lemma indeg_same_unlocks:
  assumes "q x = Some t" "unlocks t' = unlocks t"
  shows "indeg (q(x \<mapsto> t')) y = indeg q y"
proof -
  have "links_to (q(x \<mapsto> t')) y h = links_to q y h" for h
    using assms by (simp add: links_to_def)
  moreover have "dom (q(x \<mapsto> t')) = dom q" using assms by auto
  ultimately show ?thesis by (simp add: indeg_def)
qed

lemma satisfy_one_independent:
  assumes ok: "independent_ok q s" and x: "q x = Some t"
    and lt: "requires_offset t < length (requires (rt_tx t))"
    and inj: "\<And>x t x' t'. q x = Some t \<Longrightarrow> q x' = Some t' \<Longrightarrow> ref_id (rt_ref t) = ref_id (rt_ref t') \<Longrightarrow> x = x'"
  shows "independent_ok (q(x \<mapsto> t\<lparr>requires_offset := requires_offset t + 1\<rparr>))
    (if requires_offset t + 1 = length (requires (rt_tx t)) then bset_insert (rt_ref t) s else s)"
proof -
  let ?t = "t\<lparr>requires_offset := requires_offset t + 1\<rparr>"
  have other: "h \<noteq> x" if "q h = Some u" "requires_offset u = length (requires (rt_tx u))" for h u
    using that x lt by auto
  have ne: "\<not> ref_equal (rt_ref t) y" if "y \<in> set s" for y
  proof -
    from that ok obtain h u where u: "q h = Some u" "requires_offset u = length (requires (rt_tx u))" "y = rt_ref u"
      unfolding independent_ok_def by metis
    with other have "h \<noteq> x" by blast
    with inj [OF x u(1)] u(3) show ?thesis by (auto simp: ref_equal_def)
  qed
  have set: "y \<in> set s \<longleftrightarrow> (\<exists>h u. h \<noteq> x \<and> q h = Some u \<and> requires_offset u = length (requires (rt_tx u)) \<and> y = rt_ref u)" for y
    using ok other unfolding independent_ok_def by metis
  have "(\<exists>h u. (q(x \<mapsto> ?t)) h = Some u \<and> requires_offset u = length (requires (rt_tx u)) \<and> y = rt_ref u) \<longleftrightarrow>
      (requires_offset t + 1 = length (requires (rt_tx t)) \<and> y = rt_ref t) \<or> y \<in> set s" (is "?l \<longleftrightarrow> ?r") for y
  proof
    assume ?l
    then obtain h u where u: "(q(x \<mapsto> ?t)) h = Some u" "requires_offset u = length (requires (rt_tx u))" "y = rt_ref u"
      by blast
    show ?r
    proof (cases "h = x")
      case True
      with u show ?thesis by auto
    next
      case False
      with u have "y \<in> set s" unfolding set by (intro exI [of _ h] exI [of _ u]) simp
      then show ?thesis ..
    qed
  next
    assume ?r
    then show ?l
    proof
      assume "requires_offset t + 1 = length (requires (rt_tx t)) \<and> y = rt_ref t"
      then show ?l by (intro exI [of _ x] exI [of _ ?t]) simp
    next
      assume "y \<in> set s"
      then obtain h u where "h \<noteq> x" "q h = Some u" "requires_offset u = length (requires (rt_tx u))" "y = rt_ref u"
        unfolding set by blast
      then show ?l by (intro exI [of _ h] exI [of _ u]) simp
    qed
  qed
  moreover have "set (bset_insert (rt_ref t) s) = insert (rt_ref t) (set s)"
    by (rule set_bset_insert) (use ne in blast)
  moreover have "bset_sorted s" using ok by (simp add: independent_ok_def)
  ultimately show ?thesis
    unfolding independent_ok_def by (simp only: bset_insert_sorted split: if_split) simp
qed

lemma links_ok_update:
  assumes "links_ok q" "q x = Some t" "unlocks t' = unlocks t" "rt_ref t' = rt_ref t"
  shows "links_ok (q(x \<mapsto> t'))"
  unfolding links_ok_def
proof (intro allI impI)
  fix h u y
  assume u: "(q(x \<mapsto> t')) h = Some u" and y: "y \<in> set (unlocks u)"
  obtain u0 where u0: "q h = Some u0" "unlocks u = unlocks u0" "rt_ref u = rt_ref u0"
    using u assms(2-4) by (cases "h = x") auto
  with assms(1) y obtain v where v: "q y = Some v"
    "count (mset (unlocks u0)) y \<le> count (mset (requires (rt_tx v))) (the_marker (rt_tx u0))"
    unfolding links_ok_def by metis
  show "\<exists>v. (q(x \<mapsto> t')) y = Some v \<and>
      count (mset (unlocks u)) y \<le> count (mset (requires (rt_tx v))) (the_marker (rt_tx u))"
    using v u0 assms(2,4) by (cases "y = x") auto
qed

lemma satisfy_one_inv:
  assumes inv: "ready_inv {} (add_mset x D) r"
  shows "ready_inv {} D (satisfy_one r x) \<and> provided_markers (satisfy_one r x) = provided_markers r \<and>
    tx_id (satisfy_one r x) = tx_id r \<and> dom (ready_tx (satisfy_one r x)) = dom (ready_tx r)"
proof (cases "ready_tx r x")
  case None
  then have "requires_offset t + indeg (ready_tx r) h + count D h = length (requires (rt_tx t))"
    if "ready_tx r h = Some t" for h t
    using ready_invD(3) [OF inv that] that by (auto split: if_splits)
  with inv have "ready_inv {} D r" unfolding ready_inv_def by simp
  with None show ?thesis by (simp add: satisfy_one_def)
next
  case (Some t)
  let ?t = "t\<lparr>requires_offset := requires_offset t + 1\<rparr>"
  let ?s = "if requires_offset t + 1 = length (requires (rt_tx t))
    then bset_insert (rt_ref t) (independent_transactions r) else independent_transactions r"
  have eq: "satisfy_one r x = r\<lparr>ready_tx := (ready_tx r)(x \<mapsto> ?t), independent_transactions := ?s\<rparr>"
    by (simp add: satisfy_one_def Some)
  have cnt: "requires_offset t + indeg (ready_tx r) x + count D x + 1 = length (requires (rt_tx t))"
    using ready_invD(3) [OF inv Some] by simp
  have sel: "ready_tx (satisfy_one r x) = (ready_tx r)(x \<mapsto> ?t)" "tx_id (satisfy_one r x) = tx_id r"
      "provided_markers (satisfy_one r x) = provided_markers r" "independent_transactions (satisfy_one r x) = ?s"
    by (simp_all add: eq)
  have old: "\<exists>v. ready_tx r h = Some v \<and> rt_ref u = rt_ref v"
    if "((ready_tx r)(x \<mapsto> ?t)) h = Some u" for h u
    using that Some by (cases "h = x") auto
  have "ready_inv {} D (satisfy_one r x)"
  proof (rule ready_invI, unfold sel)
    show "finite (dom ((ready_tx r)(x \<mapsto> ?t)))" using ready_invD(1) [OF inv] by simp
    show "independent_ok ((ready_tx r)(x \<mapsto> ?t)) ?s"
      by (rule satisfy_one_independent [OF ready_invD(7) [OF inv] Some _ ready_invD(6) [OF inv]]) (use cnt in simp)
    show "links_ok ((ready_tx r)(x \<mapsto> ?t))"
      by (rule links_ok_update [OF ready_invD(5) [OF inv] Some]) simp_all
    show "provided_markers r k = Some h \<longleftrightarrow>
        (\<exists>u. ((ready_tx r)(x \<mapsto> ?t)) h = Some u \<and> the_marker (rt_tx u) = k)" for k h
      using ready_invD(4) [OF inv, of k h] Some by (cases "h = x") simp_all
  next
    fix h u assume u: "((ready_tx r)(x \<mapsto> ?t)) h = Some u"
    show "requires_offset u + indeg ((ready_tx r)(x \<mapsto> ?t)) h + count D h = length (requires (rt_tx u))"
    proof (cases "h = x")
      case True
      with u cnt indeg_same_unlocks [of "ready_tx r" x t ?t, OF Some] show ?thesis by auto
    next
      case False
      with u ready_invD(3) [OF inv, of h u] indeg_same_unlocks [of "ready_tx r" x t ?t, OF Some]
      show ?thesis by simp
    qed
    obtain v where "ready_tx r h = Some v" "rt_ref u = rt_ref v" using old [OF u] by blast
    with ready_invD(2) [OF inv, of h v] show "ready_entry_ok (tx_id r) h u" by (simp add: ready_entry_ok_def)
  next
    fix h u h' u'
    assume u: "((ready_tx r)(x \<mapsto> ?t)) h = Some u" "((ready_tx r)(x \<mapsto> ?t)) h' = Some u'"
      "ref_id (rt_ref u) = ref_id (rt_ref u')"
    obtain v where v: "ready_tx r h = Some v" "rt_ref u = rt_ref v" using old [OF u(1)] by blast
    obtain v' where v': "ready_tx r h' = Some v'" "rt_ref u' = rt_ref v'" using old [OF u(2)] by blast
    from v v' u(3) show "h = h'" using ready_invD(6) [OF inv v(1) v'(1)] by simp
  qed
  moreover have "dom ((ready_tx r)(x \<mapsto> ?t)) = dom (ready_tx r)" using Some by auto
  ultimately show ?thesis by (simp add: sel)
qed

lemma foldl_satisfy_one_inv:
  assumes "ready_inv {} (D + mset us) r"
  shows "ready_inv {} D (foldl satisfy_one r us) \<and>
    provided_markers (foldl satisfy_one r us) = provided_markers r \<and>
    tx_id (foldl satisfy_one r us) = tx_id r \<and> dom (ready_tx (foldl satisfy_one r us)) = dom (ready_tx r)"
  using assms
proof (induction us arbitrary: r)
  case (Cons u us)
  have "ready_inv {} (add_mset u (D + mset us)) r" using Cons.prems by simp
  from satisfy_one_inv [OF this] Cons.IH [of "satisfy_one r u"] show ?case by simp
qed simp

text \<open>What has been taken out between two states, and that nothing else has changed place.\<close>

definition shrunk :: "ReadyTransactions \<Rightarrow> ReadyTransactions \<Rightarrow> bool" where
  "shrunk r r' \<longleftrightarrow> tx_id r' = tx_id r \<and> dom (ready_tx r') \<subseteq> dom (ready_tx r) \<and>
     (\<forall>x t'. ready_tx r' x = Some t' \<longrightarrow> (\<exists>t. ready_tx r x = Some t \<and> rt_ref t' = rt_ref t)) \<and>
     provided_markers r' \<subseteq>\<^sub>m provided_markers r"

lemma shrunk_refl: "shrunk r r"
  by (simp add: shrunk_def)

lemma shrunkD:
  assumes "shrunk r r'"
  shows "tx_id r' = tx_id r" "dom (ready_tx r') \<subseteq> dom (ready_tx r)"
    "ready_tx r' x = Some t' \<Longrightarrow> \<exists>t. ready_tx r x = Some t \<and> rt_ref t' = rt_ref t"
    "provided_markers r' \<subseteq>\<^sub>m provided_markers r"
  using assms by (simp_all add: shrunk_def)

lemma shrunk_trans:
  assumes "shrunk r r'" "shrunk r' r''"
  shows "shrunk r r''"
  unfolding shrunk_def
proof (intro conjI allI impI)
  fix x t'' assume "ready_tx r'' x = Some t''"
  from shrunkD(3) [OF assms(2) this] obtain t' where t': "ready_tx r' x = Some t'" "rt_ref t'' = rt_ref t'" by blast
  from shrunkD(3) [OF assms(1) t'(1)] t'(2) show "\<exists>t. ready_tx r x = Some t \<and> rt_ref t'' = rt_ref t" by auto
next
  show "provided_markers r'' \<subseteq>\<^sub>m provided_markers r"
    by (rule map_le_trans [OF shrunkD(4) [OF assms(2)] shrunkD(4) [OF assms(1)]])
qed (use shrunkD(1,2) [OF assms(1)] shrunkD(1,2) [OF assms(2)] in auto)

lemma satisfy_one_refs:
  "ready_tx (satisfy_one r y) x = Some t' \<Longrightarrow> \<exists>t. ready_tx r x = Some t \<and> rt_ref t' = rt_ref t"
  by (auto simp: satisfy_one_def Let_def split: option.splits if_splits)

lemma foldl_satisfy_one_refs:
  "ready_tx (foldl satisfy_one r us) x = Some t' \<Longrightarrow> \<exists>t. ready_tx r x = Some t \<and> rt_ref t' = rt_ref t"
proof (induction us arbitrary: r)
  case (Cons u us)
  from Cons.IH [of "satisfy_one r u"] Cons.prems obtain t1
    where "ready_tx (satisfy_one r u) x = Some t1" "rt_ref t' = rt_ref t1" by auto
  with satisfy_one_refs [of r u x t1] show ?case by auto
qed auto

lemma drop_links_refs:
  "drop_links h pm ms q x = Some t' \<Longrightarrow> \<exists>t. q x = Some t \<and> rt_ref t' = rt_ref t"
  by (auto simp: drop_links_def)

lemma prune_previous_markers:
  assumes "\<And>m x t. provided_markers r m = Some x \<Longrightarrow> ready_tx r x = Some t \<Longrightarrow> provides (rt_tx t) = [m]"
  shows "set (fst (prune_previous h ms to_prune r)) \<subseteq> set to_prune \<union> set ms"
  using assms
proof (induction ms arbitrary: to_prune r)
  case (Cons m ms)
  obtain tags r' where pm: "previous_markers h m r = (tags, r')" by (cases "previous_markers h m r")
  have "snd (previous_markers h m r) = unlink_mark h r m"
    by (auto simp: previous_markers_def unlink_mark_def Let_def split: option.split)
  then have r': "r' = r\<lparr>ready_tx := drop_links h (provided_markers r) [m] (ready_tx r)\<rparr>"
    by (simp add: pm unlink_mark_eq)
  have "provides (rt_tx t) = [m']" if "provided_markers r' m' = Some x" "ready_tx r' x = Some t" for m' x t
    using that drop_links_refs [of h "provided_markers r" "[m]" "ready_tx r" x t] Cons.prems [of m' x] by (auto simp: r')
  from Cons.IH [OF this] have "set (fst (prune_previous h ms (rev tags @ to_prune) r')) \<subseteq> set (rev tags @ to_prune) \<union> set ms" .
  moreover have "set tags \<subseteq> {m}"
    using pm Cons.prems [of m]
    by (auto simp: previous_markers_def Let_def bind_eq_Some_conv split: option.splits if_splits)
  ultimately show ?case by (auto simp: pm)
qed simp

lemma prune_one_spec:
  assumes wf: "ready_wf r"
  shows "\<exists>tx to_prune' r'. prune_one m to_prune r = Some (tx, to_prune', r') \<and> ready_wf r' \<and> shrunk r r' \<and>
    provided_markers r' = (provided_markers r)(m := None) \<and>
    (case provided_markers r m of
       None \<Rightarrow> tx = None \<and> to_prune' = to_prune \<and> r' = r
     | Some h \<Rightarrow> \<exists>t. ready_tx r h = Some t \<and> tx = Some (rt_tx t) \<and> the_marker (rt_tx t) = m \<and>
         set to_prune' \<subseteq> set to_prune \<union> set (requires (rt_tx t)) \<and>
         dom (ready_tx r') = dom (ready_tx r) - {h})"
proof (cases "provided_markers r m")
  case None
  then have "(provided_markers r)(m := None) = provided_markers r" by auto
  with None wf show ?thesis by (simp add: prune_one_def shrunk_refl)
next
  case (Some h)
  have inv: "ready_inv {} {#} r" using wf by (simp add: ready_wf_def)
  from Some obtain t where t: "ready_tx r h = Some t" "the_marker (rt_tx t) = m"
    using ready_invD(4) [OF inv] by blast
  let ?pm = "(provided_markers r)(m := None)"
  let ?q = "drop_links h ?pm (requires (rt_tx t)) ((ready_tx r)(h := None))"
  define r2 where "r2 = r\<lparr>provided_markers := ?pm, ready_tx := (ready_tx r)(h := None),
      independent_transactions := bset_remove (rt_ref t) (independent_transactions r)\<rparr>"
  define r3 where "r3 = r2\<lparr>ready_tx := ?q\<rparr>"
  define r4 where "r4 = foldl satisfy_one r3 (unlocks t)"
  have ent: "tx_hash (rt_tx t) = h" "provides (rt_tx t) = [m]"
    using ready_invD(2) [OF inv t(1)] single_markedD t(2) by (auto simp: ready_entry_ok_def)
  have out: "taken_out h (ready_tx r) ?q" by (rule drop_links_taken_out [OF inv t(1)]) (simp add: t(2))
  have "ready_inv {} ({#} + mset (unlocks t)) r3"
    by (rule ready_inv_taken_out [OF inv t(1)]) (simp_all add: r3_def r2_def out t(2))
  note r4 = foldl_satisfy_one_inv [OF this, folded r4_def]
  have pm4: "provided_markers r4 = ?pm" using r4 by (simp add: r3_def r2_def)
  have st: "snd (prune_previous h (requires (rt_tx t)) to_prune r2) = r3"
    by (simp add: prune_previous_state foldl_unlink_mark r3_def r2_def)
  have pp: "set (fst (prune_previous h (requires (rt_tx t)) to_prune r2)) \<subseteq> set to_prune \<union> set (requires (rt_tx t))"
  proof (rule prune_previous_markers)
    fix k x u assume "provided_markers r2 k = Some x" "ready_tx r2 x = Some u"
    then have u: "provided_markers r k = Some x" "ready_tx r x = Some u" by (auto simp: r2_def split: if_splits)
    with ready_invD(4) [OF inv, of k x] ready_invD(2) [OF inv u(2)] single_markedD
    show "provides (rt_tx u) = [k]" by (auto simp: ready_entry_ok_def)
  qed
  have "r4\<lparr>provided_markers := (provided_markers r4)(m := None)\<rparr> = r4" by (simp add: pm4)
  then have eq: "prune_one m to_prune r =
      Some (Some (rt_tx t), fst (prune_previous h (requires (rt_tx t)) to_prune r2), r4)"
    using Some t(1) pm4
    by (simp add: prune_one_def Let_def ent case_prod_beta r2_def [symmetric] st r4_def [symmetric])
  have sh: "shrunk r r4"
    unfolding shrunk_def
  proof (intro conjI allI impI)
    fix x u' assume "ready_tx r4 x = Some u'"
    then obtain u where u: "ready_tx r3 x = Some u" "rt_ref u' = rt_ref u"
      unfolding r4_def using foldl_satisfy_one_refs by blast
    then obtain u0 where "((ready_tx r)(h := None)) x = Some u0" "rt_ref u = rt_ref u0"
      unfolding r3_def using drop_links_refs by fastforce
    with u show "\<exists>u. ready_tx r x = Some u \<and> rt_ref u' = rt_ref u" by (auto split: if_splits)
  qed (use r4 taken_out_dom [OF out] in \<open>auto simp: r3_def r2_def pm4 upd_None_map_le\<close>)
  have "dom (ready_tx r4) = dom (ready_tx r) - {h}"
    using r4 taken_out_dom [OF out] by (simp add: r3_def)
  then show ?thesis using eq r4 sh pm4 pp t Some by (simp add: ready_wf_def)
qed

text \<open>
  The markers on the way back from a marker: it, and what the providers of such markers require.
\<close>

inductive leads_to :: "ReadyTransactions \<Rightarrow> TxMarker \<Rightarrow> TxMarker \<Rightarrow> bool" for r m where
  self: "leads_to r m m"
| prior: "leads_to r m k \<Longrightarrow> provided_markers r k = Some h \<Longrightarrow> ready_tx r h = Some t \<Longrightarrow>
    k' \<in> set (requires (rt_tx t)) \<Longrightarrow> leads_to r m k'"

definition closed_back :: "TxMarker set \<Rightarrow> ReadyTransactions \<Rightarrow> bool" where
  "closed_back P r \<longleftrightarrow> (\<forall>k h t. k \<in> P \<longrightarrow> provided_markers r k = Some h \<longrightarrow> ready_tx r h = Some t \<longrightarrow>
     set (requires (rt_tx t)) \<subseteq> P)"

lemma closed_backD:
  "closed_back P r \<Longrightarrow> k \<in> P \<Longrightarrow> provided_markers r k = Some h \<Longrightarrow> ready_tx r h = Some t \<Longrightarrow>
     set (requires (rt_tx t)) \<subseteq> P"
  by (simp add: closed_back_def)

lemma closed_back_leads_to: "closed_back {k. leads_to r m k} r"
  by (auto simp: closed_back_def intro: leads_to.prior)

lemma closed_back_shrunk:
  assumes "closed_back P r" "shrunk r r'"
  shows "closed_back P r'"
  unfolding closed_back_def
proof (intro allI impI)
  fix k h t' assume k: "k \<in> P" "provided_markers r' k = Some h" "ready_tx r' h = Some t'"
  from shrunkD(3) [OF assms(2) k(3)] obtain t where t: "ready_tx r h = Some t" "rt_ref t' = rt_ref t" by blast
  have "provided_markers r k = Some h" using shrunkD(4) [OF assms(2)] k(2) by (metis domI map_le_def)
  from closed_backD [OF assms(1) k(1) this t(1)] t(2) show "set (requires (rt_tx t')) \<subseteq> P" by simp
qed

lemma prune_loop_spec:
  assumes "ready_wf r" "set ms \<subseteq> P" "closed_back P r"
  shows "\<exists>removed r'. prune_loop ms r = Some (removed, r') \<and> ready_wf r' \<and> shrunk r r' \<and>
    (\<forall>m. ms = m # tl ms \<longrightarrow> provided_markers r' m = None) \<and>
    set removed = txs_of (ready_tx r) (dom (ready_tx r) - dom (ready_tx r')) \<and>
    (\<forall>h \<in> dom (ready_tx r) - dom (ready_tx r'). the_marker (rt_tx (the (ready_tx r h))) \<in> P)"
  using assms
proof (induction "card (dom (ready_tx r))" arbitrary: r ms rule: less_induct)
  case outer: less
  show ?case using outer.prems
  proof (induction ms)
    case Nil
    then show ?case by (simp add: prune_loop.simps shrunk_refl txs_of_def)
  next
    case (Cons m ms)
    from prune_one_spec [OF Cons.prems(1), of m ms] obtain tx ms' r1 where
      one: "prune_one m ms r = Some (tx, ms', r1)" "ready_wf r1" "shrunk r r1"
        "provided_markers r1 = (provided_markers r)(m := None)"
      and c: "case provided_markers r m of
       None \<Rightarrow> tx = None \<and> ms' = ms \<and> r1 = r
     | Some h \<Rightarrow> \<exists>t. ready_tx r h = Some t \<and> tx = Some (rt_tx t) \<and> the_marker (rt_tx t) = m \<and>
         set ms' \<subseteq> set ms \<union> set (requires (rt_tx t)) \<and> dom (ready_tx r1) = dom (ready_tx r) - {h}" by blast
    note unfold = prune_loop.simps [of "m # ms"]
    show ?case
    proof (cases "provided_markers r m")
      case None
      then have eq: "tx = None" "ms' = ms" "r1 = r" using c by simp_all
      have "set ms \<subseteq> P" using Cons.prems(2) by simp
      from Cons.IH [OF Cons.prems(1) this Cons.prems(3)] obtain removed r' where
        IH: "prune_loop ms r = Some (removed, r')" "ready_wf r'" "shrunk r r'"
          "set removed = txs_of (ready_tx r) (dom (ready_tx r) - dom (ready_tx r'))"
          "\<forall>h \<in> dom (ready_tx r) - dom (ready_tx r'). the_marker (rt_tx (the (ready_tx r h))) \<in> P" by blast
      have "prune_loop (m # ms) r = Some (removed, r')" using one(1) IH(1) by (simp add: unfold eq)
      moreover have "provided_markers r' m = None"
        using None shrunkD(4) [OF IH(3)] by (metis domIff map_le_def)
      ultimately show ?thesis using IH by simp
    next
      case (Some h)
      then obtain t where t: "ready_tx r h = Some t" "tx = Some (rt_tx t)" "the_marker (rt_tx t) = m"
        "set ms' \<subseteq> set ms \<union> set (requires (rt_tx t))" and d1: "dom (ready_tx r1) = dom (ready_tx r) - {h}"
        using c by auto
      have fin: "finite (dom (ready_tx r))" using ready_invD(1) Cons.prems(1) by (auto simp: ready_wf_def)
      have less: "card (dom (ready_tx r1)) < card (dom (ready_tx r))"
        unfolding d1 using t(1) fin by (intro card_Diff1_less) auto
      have mP: "m \<in> P" using Cons.prems(2) by simp
      have sub: "set ms' \<subseteq> P"
        using t(4) closed_backD [OF Cons.prems(3) mP Some t(1)] Cons.prems(2) by auto
      from outer.hyps [OF less one(2) sub closed_back_shrunk [OF Cons.prems(3) one(3)]] obtain removed r' where
        IH: "prune_loop ms' r1 = Some (removed, r')" "ready_wf r'" "shrunk r1 r'"
          "set removed = txs_of (ready_tx r1) (dom (ready_tx r1) - dom (ready_tx r'))"
          "\<forall>h \<in> dom (ready_tx r1) - dom (ready_tx r'). the_marker (rt_tx (the (ready_tx r1 h))) \<in> P" by blast
      have "prune_loop (m # ms) r = Some (rt_tx t # removed, r')"
        using one(1) IH(1) by (simp add: unfold t(2))
      moreover have "provided_markers r' m = None"
        using one(4) shrunkD(4) [OF IH(3)] by (metis domIff fun_upd_same map_le_def)
      moreover have "dom (ready_tx r) - dom (ready_tx r') = insert h (dom (ready_tx r1) - dom (ready_tx r'))"
        using d1 t(1) shrunkD(2) [OF IH(3)] by blast
      moreover have same: "rt_ref (the (ready_tx r1 x)) = rt_ref (the (ready_tx r x))" if "x \<in> dom (ready_tx r1)" for x
        using that shrunkD(3) [OF one(3), of x] by auto
      have "txs_of (ready_tx r1) (dom (ready_tx r1) - dom (ready_tx r')) =
          txs_of (ready_tx r) (dom (ready_tx r1) - dom (ready_tx r'))"
        unfolding txs_of_def by (rule image_cong) (use same in auto)
      ultimately show ?thesis
        using IH(2,4,5) shrunk_trans [OF one(3) IH(3)] t(1,3) mP same by (auto simp: txs_of_def)
    qed
  qed
qed

section \<open>Adding\<close>

definition add_links ::
    "TxHash \<Rightarrow> (TxMarker \<rightharpoonup> TxHash) \<Rightarrow> TxMarker list \<Rightarrow> (TxHash \<rightharpoonup> ReadyTransaction) \<Rightarrow> TxHash \<rightharpoonup> ReadyTransaction" where
  "add_links h pm ms q =
     (\<lambda>x. map_option (\<lambda>t. t\<lparr>unlocks := unlocks t @ replicate (marks_of pm ms x) h\<rparr>) (q x))"

lemma add_links_Nil [simp]: "add_links h pm [] q = q"
  by (auto simp: add_links_def marks_of_def fun_eq_iff option.map_ident)

lemma add_links_None: "pm m = None \<Longrightarrow> add_links h pm (m # ms) q = add_links h pm ms q"
  by (simp add: add_links_def marks_of_def)

lemma replicate_Suc_append: "x # replicate n x = replicate n x @ [x]"
  by (induction n) auto

lemma add_links_Some:
  assumes "pm m = Some y" "q y = Some t"
  shows "add_links h pm ms (q(y \<mapsto> t\<lparr>unlocks := unlocks t @ [h]\<rparr>)) = add_links h pm (m # ms) q"
proof
  fix x
  show "add_links h pm ms (q(y \<mapsto> t\<lparr>unlocks := unlocks t @ [h]\<rparr>)) x = add_links h pm (m # ms) q x"
    using assms by (cases "x = y") (simp_all add: add_links_def marks_of_def)
qed

lemma dom_add_links [simp]: "dom (add_links h pm ms q) = dom q"
  by (auto simp: add_links_def)

lemma link_required_eq:
  assumes "\<forall>m x. m \<in> set ms \<longrightarrow> provided_markers r m = Some x \<longrightarrow> ready_tx r x \<noteq> None"
  shows "link_required h ms (ind, off) r =
    Some ((ind \<and> (\<forall>m \<in> set ms. provided_markers r m = None),
           off + length (filter (\<lambda>m. provided_markers r m = None) ms)),
          r\<lparr>ready_tx := add_links h (provided_markers r) ms (ready_tx r)\<rparr>)"
  using assms
proof (induction ms arbitrary: ind off r)
  case (Cons m ms)
  show ?case
  proof (cases "provided_markers r m")
    case None
    have "\<forall>m' x. m' \<in> set ms \<longrightarrow> provided_markers r m' = Some x \<longrightarrow> ready_tx r x \<noteq> None"
      using Cons.prems by simp
    from Cons.IH [OF this] None show ?thesis by (simp add: add_links_None)
  next
    case (Some y)
    with Cons.prems obtain t where t: "ready_tx r y = Some t" by fastforce
    let ?r = "r\<lparr>ready_tx := (ready_tx r)(y \<mapsto> t\<lparr>unlocks := unlocks t @ [h]\<rparr>)\<rparr>"
    have "\<forall>m' x. m' \<in> set ms \<longrightarrow> provided_markers ?r m' = Some x \<longrightarrow> ready_tx ?r x \<noteq> None"
      using Cons.prems by simp
    from Cons.IH [OF this]
    have "link_required h ms (False, off) ?r =
        Some ((False, off + length (filter (\<lambda>m. provided_markers r m = None) ms)),
          r\<lparr>ready_tx := add_links h (provided_markers r) ms (ready_tx ?r)\<rparr>)"
      by (simp add: fun_upd_def)
    moreover have "add_links h (provided_markers r) ms (ready_tx ?r) =
        add_links h (provided_markers r) (m # ms) (ready_tx r)"
      using add_links_Some [where pm = "provided_markers r" and q = "ready_tx r", OF Some t] by simp
    ultimately show ?thesis by (simp add: Some t fun_upd_def)
  qed
qed simp

lemma sum_marks_of:
  assumes "finite X" "\<And>m x. m \<in> set ms \<Longrightarrow> pm m = Some x \<Longrightarrow> x \<in> X"
  shows "(\<Sum>x\<in>X. marks_of pm ms x) = length (filter (\<lambda>m. pm m \<noteq> None) ms)"
  using assms(2)
proof (induction ms)
  case (Cons m ms)
  have step: "marks_of pm (m # ms) x = (if pm m = Some x then 1 else 0) + marks_of pm ms x" for x
    by (simp add: marks_of_def)
  have "(\<Sum>x\<in>X. if pm m = Some x then 1 else 0) = (if pm m \<noteq> None then 1 else (0::nat))"
  proof (cases "pm m")
    case (Some y)
    then have "y \<in> X" using Cons.prems [of m y] by simp
    then show ?thesis using assms(1) by (simp add: Some sum.delta)
  qed simp
  moreover have "(\<Sum>x\<in>X. marks_of pm ms x) = length (filter (\<lambda>m. pm m \<noteq> None) ms)"
    by (rule Cons.IH) (use Cons.prems in \<open>meson list.set_intros(2)\<close>)
  ultimately show ?case by (simp add: step sum.distrib)
qed (simp add: marks_of_def)

text \<open>The queue with a new transaction, which takes over the links of the one it replaces.\<close>

definition with_tx ::
    "PoolTransactionRef \<Rightarrow> TxHash list \<Rightarrow> nat \<Rightarrow> (TxMarker \<rightharpoonup> TxHash) \<Rightarrow> (TxHash \<rightharpoonup> ReadyTransaction) \<Rightarrow> TxHash \<rightharpoonup> ReadyTransaction" where
  "with_tx tref us off pm q = (add_links (tx_hash (ref_tx tref)) pm (requires (ref_tx tref)) q)
     (tx_hash (ref_tx tref) \<mapsto> \<lparr>rt_ref = tref, unlocks = us, requires_offset = off\<rparr>)"

lemma with_tx_other:
  assumes "x \<noteq> tx_hash (ref_tx tref)"
  shows "with_tx tref us off pm q x = map_option (\<lambda>t. t\<lparr>unlocks := unlocks t @
    replicate (marks_of pm (requires (ref_tx tref)) x) (tx_hash (ref_tx tref))\<rparr>) (q x)"
  using assms by (simp add: with_tx_def add_links_def)

lemma with_tx_new [simp]:
  "with_tx tref us off pm q (tx_hash (ref_tx tref)) = Some \<lparr>rt_ref = tref, unlocks = us, requires_offset = off\<rparr>"
  by (simp add: with_tx_def)

lemma with_tx_dom: "dom (with_tx tref us off pm q) = insert (tx_hash (ref_tx tref)) (dom q)"
  by (auto simp: with_tx_def)

lemma with_tx_cases:
  assumes "with_tx tref us off pm q x = Some t'"
  obtains "x = tx_hash (ref_tx tref)" "t' = \<lparr>rt_ref = tref, unlocks = us, requires_offset = off\<rparr>"
  | t where "x \<noteq> tx_hash (ref_tx tref)" "q x = Some t" "rt_ref t' = rt_ref t" "requires_offset t' = requires_offset t"
      "unlocks t' = unlocks t @ replicate (marks_of pm (requires (ref_tx tref)) x) (tx_hash (ref_tx tref))"
proof (cases "x = tx_hash (ref_tx tref)")
  case True
  with assms that(1) show thesis by (simp add: with_tx_def)
next
  case False
  with assms that(2) show thesis by (auto simp: with_tx_other)
qed

lemma marks_of_marker:
  assumes "\<And>m. m \<in> set ms \<Longrightarrow> pm m = Some x \<longleftrightarrow> k = m"
  shows "marks_of pm ms x = count (mset ms) k"
proof -
  have "filter (\<lambda>m. pm m = Some x) ms = filter ((=) k) ms" by (rule filter_cong [OF refl assms])
  then show ?thesis by (simp add: marks_of_def count_mset count_list_eq_length_filter)
qed

lemma indeg_with_tx_other:
  assumes "finite (dom q)" "q (tx_hash (ref_tx tref)) = None" "x \<noteq> tx_hash (ref_tx tref)"
  shows "indeg (with_tx tref us off pm q) x = indeg q x + count (mset us) x"
proof -
  let ?h = "tx_hash (ref_tx tref)" let ?q = "with_tx tref us off pm q"
  have "links_to ?q x y = links_to q x y" if "y \<in> dom q" for y
  proof -
    from that assms(2) have "y \<noteq> ?h" by auto
    with that assms(3) show ?thesis by (auto simp: links_to_def with_tx_other)
  qed
  then have "(\<Sum>y\<in>dom q. links_to ?q x y) = indeg q x"
    unfolding indeg_def by (rule sum.cong [OF refl])
  moreover have "links_to ?q x ?h = count (mset us) x" by (simp add: links_to_def)
  moreover have "?h \<notin> dom q" using assms(2) by auto
  ultimately show ?thesis using assms(1) by (simp add: indeg_def [of ?q] with_tx_dom)
qed

lemma links_fresh:
  assumes "links_ok q" "q y = Some t" "q h = None"
  shows "h \<notin> set (unlocks t)"
  using assms unfolding links_ok_def by (metis option.distinct(1))

lemma indeg_with_tx_new:
  assumes "finite (dom q)" "q (tx_hash (ref_tx tref)) = None" "links_ok q" "tx_hash (ref_tx tref) \<notin> set us"
    and "\<And>m x. m \<in> set (requires (ref_tx tref)) \<Longrightarrow> pm m = Some x \<Longrightarrow> x \<in> dom q"
  shows "indeg (with_tx tref us off pm q) (tx_hash (ref_tx tref)) =
    length (filter (\<lambda>m. pm m \<noteq> None) (requires (ref_tx tref)))"
proof -
  let ?h = "tx_hash (ref_tx tref)" let ?q = "with_tx tref us off pm q"
  have "links_to ?q ?h y = marks_of pm (requires (ref_tx tref)) y" if "y \<in> dom q" for y
  proof -
    from that obtain t where t: "q y = Some t" by auto
    have "?h \<notin> set (unlocks t)" using links_fresh [OF assms(3) t assms(2)] .
    then have "count (mset (unlocks t)) ?h = 0" by (simp add: count_eq_zero_iff)
    moreover have "y \<noteq> ?h" using assms(2) t by auto
    ultimately show ?thesis by (simp add: links_to_def with_tx_other t)
  qed
  then have "(\<Sum>y\<in>dom q. links_to ?q ?h y) = (\<Sum>y\<in>dom q. marks_of pm (requires (ref_tx tref)) y)"
    by (rule sum.cong [OF refl])
  also have "\<dots> = length (filter (\<lambda>m. pm m \<noteq> None) (requires (ref_tx tref)))"
    by (rule sum_marks_of [OF assms(1,5)])
  finally have "(\<Sum>y\<in>dom q. links_to ?q ?h y) = length (filter (\<lambda>m. pm m \<noteq> None) (requires (ref_tx tref)))" .
  moreover have "links_to ?q ?h ?h = 0" using assms(4) by (simp add: links_to_def count_eq_zero_iff)
  moreover have "?h \<notin> dom q" using assms(2) by auto
  ultimately show ?thesis using assms(1) by (simp add: indeg_def [of ?q] with_tx_dom)
qed

lemma links_ok_with_tx:
  assumes ok: "links_ok q" and fresh: "q (tx_hash (ref_tx tref)) = None"
    and us: "\<And>x. x \<in> set us \<Longrightarrow> \<exists>t. q x = Some t \<and>
      count (mset us) x \<le> count (mset (requires (rt_tx t))) (the_marker (ref_tx tref))"
    and pm: "\<And>y t m. q y = Some t \<Longrightarrow> m \<in> set (requires (ref_tx tref)) \<Longrightarrow> pm m = Some y \<longleftrightarrow> the_marker (rt_tx t) = m"
  shows "links_ok (with_tx tref us off pm q)"
  unfolding links_ok_def
proof (intro allI impI)
  let ?h = "tx_hash (ref_tx tref)" let ?q = "with_tx tref us off pm q"
  fix y t' x assume t': "?q y = Some t'" and x: "x \<in> set (unlocks t')"
  have keep: "\<exists>s'. ?q x = Some s' \<and> rt_ref s' = rt_ref s" if "q x = Some s" for s
    using that fresh by (cases "x = ?h") (auto simp: with_tx_other)
  show "\<exists>s. ?q x = Some s \<and> count (mset (unlocks t')) x \<le> count (mset (requires (rt_tx s))) (the_marker (rt_tx t'))"
    using t'
  proof (cases rule: with_tx_cases)
    case 1
    with x obtain s where s: "q x = Some s"
      "count (mset us) x \<le> count (mset (requires (rt_tx s))) (the_marker (ref_tx tref))" using us by auto
    from keep [OF s(1)] s(2) 1 show ?thesis by auto
  next
    case (2 t)
    have none: "?h \<notin> set (unlocks t)" using links_fresh [OF ok 2(2) fresh] .
    show ?thesis
    proof (cases "x = ?h")
      case True
      have "count (mset (unlocks t')) x = marks_of pm (requires (ref_tx tref)) y"
        using none by (simp add: True 2(5) count_eq_zero_iff)
      also have "\<dots> = count (mset (requires (ref_tx tref))) (the_marker (rt_tx t))"
        by (rule marks_of_marker [OF pm [OF 2(2)]])
      finally show ?thesis using True 2(3) by simp
    next
      case False
      with x 2(5) have "x \<in> set (unlocks t)" by auto
      with ok 2(2) obtain s where s: "q x = Some s"
        "count (mset (unlocks t)) x \<le> count (mset (requires (rt_tx s))) (the_marker (rt_tx t))"
        unfolding links_ok_def by metis
      moreover have "count (mset (unlocks t')) x = count (mset (unlocks t)) x" using False by (simp add: 2(5))
      ultimately show ?thesis using keep [OF s(1)] 2(3) by auto
    qed
  qed
qed

lemma independent_ok_with_tx:
  assumes ok: "independent_ok q s" and fresh: "q (tx_hash (ref_tx tref)) = None"
    and ids: "\<And>x t. q x = Some t \<Longrightarrow> ref_id (rt_ref t) \<noteq> ref_id tref"
  shows "independent_ok (with_tx tref us off pm q)
    (if off = length (requires (ref_tx tref)) then bset_insert tref s else s)"
proof -
  let ?h = "tx_hash (ref_tx tref)" let ?q = "with_tx tref us off pm q"
  have "\<not> ref_equal tref y" if "y \<in> set s" for y
    using that ok ids unfolding independent_ok_def ref_equal_def by metis
  then have set: "set (bset_insert tref s) = insert tref (set s)" by (intro set_bset_insert) blast
  have "(\<exists>x t'. ?q x = Some t' \<and> requires_offset t' = length (requires (rt_tx t')) \<and> y = rt_ref t') \<longleftrightarrow>
      (off = length (requires (ref_tx tref)) \<and> y = tref) \<or> y \<in> set s" (is "?l \<longleftrightarrow> ?r") for y
  proof
    assume ?l
    then obtain x t' where t': "?q x = Some t'" "requires_offset t' = length (requires (rt_tx t'))" "y = rt_ref t'" by blast
    from t'(1) show ?r
    proof (cases rule: with_tx_cases)
      case 1
      with t' show ?thesis by simp
    next
      case (2 t)
      with t' have "requires_offset t = length (requires (rt_tx t)) \<and> y = rt_ref t" by simp
      with 2(2) ok show ?thesis unfolding independent_ok_def by blast
    qed
  next
    assume ?r
    then show ?l
    proof
      assume "off = length (requires (ref_tx tref)) \<and> y = tref"
      then show ?l by (intro exI [of _ ?h] exI [of _ "\<lparr>rt_ref = tref, unlocks = us, requires_offset = off\<rparr>"]) simp
    next
      assume "y \<in> set s"
      with ok obtain x t where t: "q x = Some t" "requires_offset t = length (requires (rt_tx t))" "y = rt_ref t"
        unfolding independent_ok_def by blast
      with fresh have "x \<noteq> ?h" by auto
      with t have "?q x = Some (t\<lparr>unlocks := unlocks t @ replicate (marks_of pm (requires (ref_tx tref)) x) ?h\<rparr>)"
        by (simp add: with_tx_other)
      with t(2,3) show ?l by (intro exI [of _ x] exI) (rule conjI, assumption, simp)
    qed
  qed
  moreover have "bset_sorted s" using ok by (simp add: independent_ok_def)
  ultimately show ?thesis
    unfolding independent_ok_def using set by (simp only: bset_insert_sorted split: if_split) simp
qed

lemma ready_inv_with_tx:
  assumes inv: "ready_inv {} (mset us) r" and fresh: "ready_tx r (tx_hash tx) = None"
    and sm: "single_marked tx" and free: "provided_markers r (the_marker tx) = None"
    and us: "\<And>x. x \<in> set us \<Longrightarrow> \<exists>t. ready_tx r x = Some t \<and>
      count (mset us) x \<le> count (mset (requires (rt_tx t))) (the_marker tx)"
    and i: "tx_id r < tx_id r + 1"
  defines "tref \<equiv> \<lparr>ref_tx = tx, ref_id = tx_id r\<rparr>"
  defines "off \<equiv> length (filter (\<lambda>m. provided_markers r m = None) (requires tx))"
  assumes r': "ready_tx r' = with_tx tref us off (provided_markers r) (ready_tx r)" "tx_id r' = tx_id r + 1"
    "provided_markers r' = (provided_markers r)(the_marker tx \<mapsto> tx_hash tx)"
    "independent_transactions r' =
      (if off = length (requires tx) then bset_insert tref (independent_transactions r) else independent_transactions r)"
  shows "ready_wf r'"
  unfolding ready_wf_def
proof (rule ready_invI, unfold r')
  let ?h = "tx_hash tx" let ?q = "with_tx tref us off (provided_markers r) (ready_tx r)"
  have tx: "ref_tx tref = tx" "ref_id tref = tx_id r" by (simp_all add: tref_def)
  have fr: "ready_tx r (tx_hash (ref_tx tref)) = None" by (simp add: tx fresh)
  have prov: "provided_markers r m = Some y \<longleftrightarrow> the_marker (rt_tx t) = m" if "ready_tx r y = Some t" for y t m
    using ready_invD(4) [OF inv, of m y] that by auto
  have nus: "tx_hash (ref_tx tref) \<notin> set us" using us [of "tx_hash tx"] fresh by (auto simp: tx)
  show "finite (dom ?q)" using ready_invD(1) [OF inv] by (simp add: with_tx_dom)
  show "links_ok ?q"
    by (rule links_ok_with_tx [OF ready_invD(5) [OF inv] fr]) (use us prov in \<open>simp_all add: tx\<close>)
  have ids: "ref_id (rt_ref t) \<noteq> ref_id tref" if "ready_tx r x = Some t" for x t
    using ready_invD(2) [OF inv that] by (auto simp: ready_entry_ok_def tx)
  show "independent_ok ?q (if off = length (requires tx) then bset_insert tref (independent_transactions r)
      else independent_transactions r)"
    using independent_ok_with_tx [OF ready_invD(7) [OF inv] fr ids] by (simp add: tx)
  { fix k x
    show "((provided_markers r)(the_marker tx \<mapsto> ?h)) k = Some x \<longleftrightarrow> (\<exists>t. ?q x = Some t \<and> the_marker (rt_tx t) = k)"
    proof (cases "x = ?h")
      case True
      have "provided_markers r k \<noteq> Some ?h" using ready_invD(4) [OF inv, of k ?h] fresh by simp
      moreover have "?q x = Some \<lparr>rt_ref = tref, unlocks = us, requires_offset = off\<rparr>"
        using True by (simp add: with_tx_def tx)
      ultimately show ?thesis using True by (auto simp: tx)
    next
      case False
      then have "(\<exists>t. ?q x = Some t \<and> the_marker (rt_tx t) = k) \<longleftrightarrow> provided_markers r k = Some x"
        using ready_invD(4) [OF inv, of k x] by (auto simp: with_tx_other tx)
      then show ?thesis using False free by (auto split: if_splits)
    qed }
  { fix x t' assume "?q x = Some t'"
    then show "ready_entry_ok (tx_id r + 1) x t'"
    proof (cases rule: with_tx_cases)
      case 1
      then show ?thesis using sm i by (simp add: ready_entry_ok_def tx)
    next
      case (2 t)
      with ready_invD(2) [OF inv 2(2)] i show ?thesis by (auto simp: ready_entry_ok_def)
    qed }
  { fix x t' assume "?q x = Some t'"
    then show "requires_offset t' + indeg ?q x + count {#} x = length (requires (rt_tx t'))"
    proof (cases rule: with_tx_cases)
      case 1
      have "indeg ?q (tx_hash (ref_tx tref)) = length (filter (\<lambda>m. provided_markers r m \<noteq> None) (requires (ref_tx tref)))"
        by (rule indeg_with_tx_new [OF ready_invD(1) [OF inv] fr ready_invD(5) [OF inv] nus])
          (use ready_invD(4) [OF inv] in auto)
      moreover have "off + length (filter (\<lambda>m. provided_markers r m \<noteq> None) (requires tx)) = length (requires tx)"
        unfolding off_def by (rule sum_length_filter_compl)
      ultimately show ?thesis using 1 by (simp add: tx)
    next
      case (2 t)
      with ready_invD(3) [OF inv 2(2)] indeg_with_tx_other [OF ready_invD(1) [OF inv] fr 2(1)] show ?thesis by simp
    qed }
  { fix x t y u assume t: "?q x = Some t" and u: "?q y = Some u" and eq: "ref_id (rt_ref t) = ref_id (rt_ref u)"
    from t show "x = y"
    proof (cases rule: with_tx_cases)
      case x: 1
      from u show ?thesis by (cases rule: with_tx_cases) (use x eq ids in \<open>auto simp: tx\<close>)
    next
      case x: (2 t0)
      from u show ?thesis
      proof (cases rule: with_tx_cases)
        case 1
        with x ids [OF x(2)] eq show ?thesis by simp
      next
        case (2 u0)
        with x eq show ?thesis using ready_invD(6) [OF inv x(2) 2(2)] by simp
      qed
    qed }
qed

text \<open>The transaction that a new one replaces, and whether the fee permits it.\<close>

definition ready_rival :: "ReadyTransactions \<Rightarrow> PoolTransaction \<Rightarrow> ReadyTransaction option" where
  "ready_rival r tx = Option.bind (provided_markers r (the_marker tx)) (ready_tx r)"

definition underpriced :: "ReadyTransactions \<Rightarrow> PoolTransaction \<Rightarrow> bool" where
  "underpriced r tx \<longleftrightarrow> (\<exists>t. ready_rival r tx = Some t \<and> max_fee_per_gas tx \<le> max_fee_per_gas (rt_tx t))"

lemma replaced_None:
  assumes "single_marked tx" "provided_markers r (the_marker tx) = None"
  shows "replaced_transactions ord tx r = Some (Inr ([], []), r)"
  using assms(2) single_markedD [OF assms(1)] by (simp add: replaced_transactions_def List.map_filter_def)

lemma replaced_Some:
  assumes wf: "ready_wf r" and law: "iter_law ord" and sm: "single_marked tx"
    and A: "provided_markers r (the_marker tx) = Some a" and t: "ready_tx r a = Some t"
  defines "r' \<equiv> r\<lparr>ready_tx := drop_links a (provided_markers r) (requires (rt_tx t)) ((ready_tx r)(a := None)),
    independent_transactions := bset_remove (rt_ref t) (independent_transactions r)\<rparr>"
  shows "replaced_transactions ord tx r =
    (if max_fee_per_gas tx \<le> max_fee_per_gas (rt_tx t)
     then Some (Inl (ReplacementUnderpriced (tx_hash tx)), r)
     else Some (Inr ([rt_tx t], unlocks t), r'))"
proof -
  have inv: "ready_inv {} {#} r" using wf by (simp add: ready_wf_def)
  have p: "provides tx = [the_marker tx]" using single_markedD [OF sm] by simp
  have m: "the_marker (rt_tx t) = the_marker tx" using ready_invD(4) [OF inv, of "the_marker tx" a] A t by simp
  have pt: "provides (rt_tx t) = [the_marker tx]"
    using ready_invD(2) [OF inv t] single_markedD m by (auto simp: ready_entry_ok_def)
  have "set (hash_order ord {a}) = {a}" "distinct (hash_order ord {a})"
    using iter_lawD [OF law, of "{a}"] by simp_all
  then have "length (hash_order ord {a}) = 1" using distinct_card by fastforce
  with \<open>set (hash_order ord {a}) = {a}\<close> have o: "hash_order ord {a} = [a]"
    by (auto simp: length_Suc_conv)
  have rr: "remove_ready (Some {the_marker tx}) a t r = (False, r')"
    by (simp add: remove_ready_def Let_def pt foldl_unlink_mark r'_def)
  have "remove_with_markers [a] (Some {the_marker tx}) r = Some ([rt_tx t], r')"
    by (simp add: remove_with_markers.simps [of "[a]"] remove_with_markers.simps [of "[]"] t rr)
  then show ?thesis
    by (simp add: replaced_transactions_def p List.map_filter_def A o Let_def t pt)
qed

text \<open>What adding a transaction to the state after a replacement gives.\<close>

definition grown :: "PoolTransaction \<Rightarrow> ReadyTransactions \<Rightarrow> ReadyTransactions \<Rightarrow> bool" where
  "grown tx r r' \<longleftrightarrow> tx_id r' = tx_id r + 1 \<and>
     dom (ready_tx r') = insert (tx_hash tx) (dom (ready_tx r)) \<and>
     (\<exists>t. ready_tx r' (tx_hash tx) = Some t \<and> rt_tx t = tx) \<and>
     (\<forall>x \<in> dom (ready_tx r). rt_tx (the (ready_tx r' x)) = rt_tx (the (ready_tx r x))) \<and>
     provided_markers r' = (provided_markers r)(the_marker tx \<mapsto> tx_hash tx)"

lemma insert_ready_eq:
  assumes "provides tx = [the_marker tx]" "ind \<longleftrightarrow> off = length (requires tx)"
  shows "insert_ready tx tid us ind off (r\<lparr>ready_tx := add_links (tx_hash tx) pm (requires tx) (ready_tx r)\<rparr>) =
    \<lparr>tx_id = tx_id r, provided_markers = (provided_markers r)(the_marker tx \<mapsto> tx_hash tx),
     ready_tx = with_tx \<lparr>ref_tx = tx, ref_id = tid\<rparr> us off pm (ready_tx r),
     independent_transactions = (if off = length (requires tx)
       then bset_insert \<lparr>ref_tx = tx, ref_id = tid\<rparr> (independent_transactions r) else independent_transactions r)\<rparr>"
  using assms by (cases r) (simp add: insert_ready_def Let_def with_tx_def)

lemma with_tx_cong:
  assumes "\<And>m. m \<in> set (requires (ref_tx tref)) \<Longrightarrow> pm m = pm' m"
  shows "with_tx tref us off pm q = with_tx tref us off pm' q"
proof -
  have "marks_of pm (requires (ref_tx tref)) x = marks_of pm' (requires (ref_tx tref)) x" for x
    unfolding marks_of_def by (rule arg_cong [where f = length], rule filter_cong) (simp_all add: assms)
  then show ?thesis by (simp add: with_tx_def add_links_def)
qed

lemma link_and_insert:
  assumes wf: "ready_inv {} (mset us) (r1\<lparr>provided_markers := (provided_markers r1)(the_marker tx := None)\<rparr>)"
    and fresh: "ready_tx r1 (tx_hash tx) = None" and sm: "single_marked tx"
    and us: "\<And>x. x \<in> set us \<Longrightarrow> \<exists>t. ready_tx r1 x = Some t \<and>
      count (mset us) x \<le> count (mset (requires (rt_tx t))) (the_marker tx)"
    and i: "tx_id r1 < tx_id r1 + 1"
  shows "\<exists>ind off r3. link_required (tx_hash tx) (requires tx) (True, 0) (r1\<lparr>tx_id := tx_id r1 + 1\<rparr>) =
      Some ((ind, off), r3) \<and>
    ready_wf (insert_ready tx (tx_id r1) us ind off r3) \<and> grown tx r1 (insert_ready tx (tx_id r1) us ind off r3)"
proof -
  let ?r = "r1\<lparr>provided_markers := (provided_markers r1)(the_marker tx := None)\<rparr>"
  let ?tref = "\<lparr>ref_tx = tx, ref_id = tx_id r1\<rparr>" let ?h = "tx_hash tx"
  let ?r2 = "r1\<lparr>tx_id := tx_id r1 + 1\<rparr>" let ?pm = "provided_markers r1" let ?pm' = "?pm(the_marker tx := None)"
  have p: "provides tx = [the_marker tx]" and nr: "the_marker tx \<notin> set (requires tx)"
    using single_markedD [OF sm] by auto
  have pm: "?pm m = ?pm' m" if "m \<in> set (requires tx)" for m
    using nr that by auto
  have "\<forall>m x. m \<in> set (requires tx) \<longrightarrow> provided_markers ?r2 m = Some x \<longrightarrow> ready_tx ?r2 x \<noteq> None"
  proof (intro allI impI)
    fix m x assume m: "m \<in> set (requires tx)" "provided_markers ?r2 m = Some x"
    then have "provided_markers ?r m = Some x" using nr by auto
    then show "ready_tx ?r2 x \<noteq> None" using ready_invD(4) [OF wf, of m x] by simp blast
  qed
  note link = link_required_eq [OF this, of ?h True 0]
  let ?off = "length (filter (\<lambda>m. ?pm m = None) (requires tx))"
  have off: "?off = length (filter (\<lambda>m. ?pm' m = None) (requires tx))"
    by (rule arg_cong [where f = length], rule filter_cong) (simp_all add: pm)
  have ind: "(\<forall>m \<in> set (requires tx). ?pm m = None) \<longleftrightarrow> ?off = length (requires tx)"
    by (metis (mono_tags, lifting) filter_True length_filter_less less_irrefl)
  let ?q = "with_tx ?tref us ?off ?pm' (ready_tx r1)"
  let ?r6 = "\<lparr>tx_id = tx_id r1 + 1, provided_markers = ?pm(the_marker tx \<mapsto> ?h), ready_tx = ?q,
    independent_transactions = (if ?off = length (requires tx)
      then bset_insert ?tref (independent_transactions r1) else independent_transactions r1)\<rparr>"
  have q: "with_tx ?tref us ?off ?pm (ready_tx r1) = ?q" by (rule with_tx_cong) (simp add: pm)
  have eq: "insert_ready tx (tx_id r1) us (\<forall>m \<in> set (requires tx). ?pm m = None) ?off
      (?r2\<lparr>ready_tx := add_links ?h ?pm (requires tx) (ready_tx r1)\<rparr>) = ?r6"
    using insert_ready_eq [OF p ind, where tid = "tx_id r1" and us = us and r = ?r2 and pm = ?pm] by (simp add: q)
  have "ready_wf ?r6"
    by (rule ready_inv_with_tx [OF wf _ sm]) (use us fresh i off in \<open>simp_all\<close>)
  moreover have "grown tx r1 ?r6"
    unfolding grown_def
  proof (intro conjI ballI)
    fix x assume x: "x \<in> dom (ready_tx r1)"
    with fresh have "x \<noteq> ?h" by auto
    with x show "rt_tx (the (ready_tx ?r6 x)) = rt_tx (the (ready_tx r1 x))" by (auto simp: with_tx_other)
  next
    show "\<exists>t. ready_tx ?r6 (tx_hash tx) = Some t \<and> rt_tx t = tx" by (simp add: with_tx_def)
  qed (simp_all add: with_tx_dom)
  ultimately show ?thesis
    using link by (intro exI conjI) (assumption | simp add: eq)+
qed

lemma taken_out_unlocks:
  assumes "links_ok q" "taken_out h q q'" "q h = Some t" "h \<notin> set (unlocks t)" "x \<in> set (unlocks t)"
  shows "\<exists>t'. q' x = Some t' \<and> count (mset (unlocks t)) x \<le> count (mset (requires (rt_tx t'))) (the_marker (rt_tx t))"
proof -
  from assms(1,3,5) obtain s where s: "q x = Some s"
    "count (mset (unlocks t)) x \<le> count (mset (requires (rt_tx s))) (the_marker (rt_tx t))"
    unfolding links_ok_def by metis
  from assms(4,5) have "x \<noteq> h" by auto
  from taken_outI [OF assms(2) s(1) this] obtain s' where "q' x = Some s'" "relinked h s s'" .
  with s(2) show ?thesis by (auto simp: relinkedD(1))
qed

lemma no_self_link:
  assumes "ready_inv W D r" "ready_tx r h = Some t"
  shows "h \<notin> set (unlocks t)"
proof
  assume h: "h \<in> set (unlocks t)"
  have "the_marker (rt_tx t) \<notin> set (requires (rt_tx t))"
    using ready_invD(2) [OF assms] single_markedD by (auto simp: ready_entry_ok_def)
  then have "count (mset (requires (rt_tx t))) (the_marker (rt_tx t)) = 0" by (simp add: count_eq_zero_iff)
  moreover have "count (mset (unlocks t)) h \<le> count (mset (requires (rt_tx t))) (the_marker (rt_tx t))"
    using ready_invD(5) [OF assms(1), unfolded links_ok_def, rule_format, OF assms(2) h] assms(2) by simp
  ultimately have "count (mset (unlocks t)) h = 0" by (simp only: le_zero_eq)
  with h show False by (simp add: count_eq_zero_iff)
qed

text \<open>
  \<open>add_transaction\<close> of the ready queue: refused without change when underpriced, and otherwise the
  queue without the replaced transaction and with the new one.
\<close>

lemma ready_add_spec:
  assumes wf: "ready_wf r" and law: "iter_law ord" and rdy: "is_ready pt"
    and fresh: "ready_tx r (tx_hash (transaction pt)) = None" and sm: "single_marked (transaction pt)"
    and i: "tx_id r < tx_id r + 1"
  shows "if underpriced r (transaction pt)
    then ready_add_transaction ord pt r = Some (Inl (ReplacementUnderpriced (tx_hash (transaction pt))), r)
    else \<exists>replaced r1 r'. ready_add_transaction ord pt r = Some (Inr replaced, r') \<and> ready_wf r' \<and>
      grown (transaction pt) r1 r' \<and>
      (case ready_rival r (transaction pt) of
         None \<Rightarrow> replaced = [] \<and> r1 = r
       | Some t \<Rightarrow> replaced = [rt_tx t] \<and> tx_id r1 = tx_id r \<and> provided_markers r1 = provided_markers r \<and>
           taken_out (tx_hash (rt_tx t)) (ready_tx r) (ready_tx r1))"
proof -
  let ?tx = "transaction pt" let ?k = "the_marker ?tx"
  have inv: "ready_inv {} {#} r" using wf by (simp add: ready_wf_def)
  note add = ready_add_transaction_def [of ord pt r]
  show ?thesis
  proof (cases "provided_markers r ?k")
    case None
    then have rv: "ready_rival r ?tx = None" by (simp add: ready_rival_def)
    have "r\<lparr>provided_markers := (provided_markers r)(?k := None)\<rparr> = r" using None by (simp add: fun_upd_idem)
    then have wf': "ready_inv {} (mset []) (r\<lparr>provided_markers := (provided_markers r)(?k := None)\<rparr>)"
      using inv by simp
    obtain ind off r3 where
      l: "link_required (tx_hash ?tx) (requires ?tx) (True, 0) (r\<lparr>tx_id := tx_id r + 1\<rparr>) = Some ((ind, off), r3)"
      and w: "ready_wf (insert_ready ?tx (tx_id r) [] ind off r3)" "grown ?tx r (insert_ready ?tx (tx_id r) [] ind off r3)"
      using link_and_insert [OF wf' fresh sm _ i] by auto
    have "ready_add_transaction ord pt r = Some (Inr [], insert_ready ?tx (tx_id r) [] ind off r3)"
      using rdy fresh l by (simp add: add replaced_None [OF sm None] next_id_def Let_def)
    then show ?thesis using w rv by (auto simp: underpriced_def)
  next
    case (Some a)
    then obtain t where t: "ready_tx r a = Some t" "the_marker (rt_tx t) = ?k"
      using ready_invD(4) [OF inv] by blast
    then have rv: "ready_rival r ?tx = Some t" using Some by (simp add: ready_rival_def)
    then have up: "underpriced r ?tx \<longleftrightarrow> max_fee_per_gas ?tx \<le> max_fee_per_gas (rt_tx t)" by (simp add: underpriced_def)
    define r1 where "r1 = r\<lparr>ready_tx := drop_links a (provided_markers r) (requires (rt_tx t)) ((ready_tx r)(a := None)),
      independent_transactions := bset_remove (rt_ref t) (independent_transactions r)\<rparr>"
    note rep = replaced_Some [OF wf law sm Some t(1), folded r1_def]
    have "taken_out a (ready_tx r) (drop_links a (provided_markers r) (requires (rt_tx t)) ((ready_tx r)(a := None)))"
      using drop_links_taken_out [where pm = "provided_markers r", OF inv t(1) refl] .
    then have out: "taken_out a (ready_tx r) (ready_tx r1)" by (simp add: r1_def fun_upd_def)
    have sel: "tx_id r1 = tx_id r" "provided_markers r1 = provided_markers r"
        "independent_transactions r1 = bset_remove (rt_ref t) (independent_transactions r)"
      by (simp_all add: r1_def)
    have ha: "tx_hash (rt_tx t) = a" using ready_invD(2) [OF inv t(1)] by (simp add: ready_entry_ok_def)
    have "ready_inv {} ({#} + mset (unlocks t)) (r1\<lparr>provided_markers := (provided_markers r1)(?k := None)\<rparr>)"
      by (rule ready_inv_taken_out [OF inv t(1)]) (simp_all add: out t(2) sel)
    then have wf': "ready_inv {} (mset (unlocks t)) (r1\<lparr>provided_markers := (provided_markers r1)(?k := None)\<rparr>)" by simp
    have f1: "ready_tx r1 (tx_hash ?tx) = None"
      using taken_out_dom [OF out] fresh by blast
    have us: "\<exists>t'. ready_tx r1 x = Some t' \<and> count (mset (unlocks t)) x \<le> count (mset (requires (rt_tx t'))) ?k"
      if "x \<in> set (unlocks t)" for x
      using taken_out_unlocks [OF ready_invD(5) [OF inv] out t(1) no_self_link [OF inv t(1)] that] by (simp add: t(2))
    obtain ind off r3 where
      l: "link_required (tx_hash ?tx) (requires ?tx) (True, 0) (r1\<lparr>tx_id := tx_id r1 + 1\<rparr>) = Some ((ind, off), r3)"
      and w: "ready_wf (insert_ready ?tx (tx_id r1) (unlocks t) ind off r3)"
        "grown ?tx r1 (insert_ready ?tx (tx_id r1) (unlocks t) ind off r3)"
      using link_and_insert [OF wf' f1 sm us] i sel(1) by auto
    have "ready_add_transaction ord pt r =
      (if underpriced r ?tx then Some (Inl (ReplacementUnderpriced (tx_hash ?tx)), r)
       else Some (Inr [rt_tx t], insert_ready ?tx (tx_id r1) (unlocks t) ind off r3))"
      using rdy fresh l by (simp add: add rep up next_id_def Let_def)
    then show ?thesis using w rv out sel ha by auto
  qed
qed

end
