(* ===== verification/Tx_Iter.thy ===== *)
theory Tx_Iter
  imports Tx_Prune
begin

text \<open>
  The iterator over the ready transactions (\<open>TransactionsIterator\<close> of
  crates/anvil/src/eth/pool/transactions.rs): on a consistent ready queue it ends, yields no
  transaction twice and none before those that unlock it, and always the best of those available.
\<close>

section \<open>The invariant of the iteration\<close>

text \<open>
  \<open>Y\<close> are the hashes yielded so far and \<open>E\<close> the unlocking events so far. A transaction is available
  when its offset and its events reach the number of markers it requires.
\<close>

definition satisfied :: "TxHash multiset \<Rightarrow> TxHash \<Rightarrow> ReadyTransaction \<Rightarrow> nat" where
  "satisfied E x t = requires_offset t + count E x"

definition iter_inv ::
    "(TxHash \<rightharpoonup> ReadyTransaction) \<Rightarrow> TxHash multiset \<Rightarrow> TxHash set \<Rightarrow> TransactionsIterator \<Rightarrow> bool" where
  "iter_inv q E Y it \<longleftrightarrow>
     it_all it = q \<and>
     (\<forall>x n tref. it_awaiting it x = Some (n, tref) \<longleftrightarrow>
        (\<exists>t. q x = Some t \<and> tref = rt_ref t \<and> n = satisfied E x t \<and> x \<in># E \<and> n < length (requires (rt_tx t)))) \<and>
     bset_sorted (it_independent it) \<and>
     (\<forall>y. y \<in> set (it_independent it) \<longleftrightarrow>
        (\<exists>x t. q x = Some t \<and> x \<notin> Y \<and> satisfied E x t = length (requires (rt_tx t)) \<and> y = rt_ref t)) \<and>
     (\<forall>x \<in> Y. \<exists>t. q x = Some t \<and> satisfied E x t = length (requires (rt_tx t)))"

text \<open>What the iterator needs of the queue it runs over.\<close>

definition iter_queue :: "(TxHash \<rightharpoonup> ReadyTransaction) \<Rightarrow> bool" where
  "iter_queue q \<longleftrightarrow> finite (dom q) \<and> links_ok q \<and>
     (\<forall>x t. q x = Some t \<longrightarrow> tx_hash (rt_tx t) = x \<and> requires_offset t + indeg q x = length (requires (rt_tx t))) \<and>
     (\<forall>x t x' t'. q x = Some t \<longrightarrow> q x' = Some t' \<longrightarrow> ref_id (rt_ref t) = ref_id (rt_ref t') \<longrightarrow> x = x')"

lemma iter_queueD:
  assumes "iter_queue q"
  shows "finite (dom q)" "links_ok q"
    "q x = Some t \<Longrightarrow> tx_hash (rt_tx t) = x"
    "q x = Some t \<Longrightarrow> requires_offset t + indeg q x = length (requires (rt_tx t))"
    "q x = Some t \<Longrightarrow> q x' = Some t' \<Longrightarrow> ref_id (rt_ref t) = ref_id (rt_ref t') \<Longrightarrow> x = x'"
  using assms by (simp_all add: iter_queue_def)

lemma ready_wf_iter_queue: "ready_wf r \<Longrightarrow> iter_queue (ready_tx r)"
  unfolding ready_wf_def iter_queue_def
proof (intro conjI allI impI)
  assume inv: "ready_inv {} {#} r"
  show "finite (dom (ready_tx r))" "links_ok (ready_tx r)" by (fact ready_invD [OF inv])+
  fix x t assume t: "ready_tx r x = Some t"
  show "tx_hash (rt_tx t) = x" using ready_invD(2) [OF inv t] by (simp add: ready_entry_ok_def)
  show "requires_offset t + indeg (ready_tx r) x = length (requires (rt_tx t))"
    using ready_invD(3) [OF inv t] by simp
  fix x' t' assume "ready_tx r x' = Some t'" "ref_id (rt_ref t) = ref_id (rt_ref t')"
  with t show "x = x'" using ready_invD(6) [OF inv] by simp
qed

lemma iter_invD:
  assumes "iter_inv q E Y it"
  shows "it_all it = q"
    "it_awaiting it x = Some (n, tref) \<longleftrightarrow>
      (\<exists>t. q x = Some t \<and> tref = rt_ref t \<and> n = satisfied E x t \<and> x \<in># E \<and> n < length (requires (rt_tx t)))"
    "bset_sorted (it_independent it)"
    "y \<in> set (it_independent it) \<longleftrightarrow>
      (\<exists>x t. q x = Some t \<and> x \<notin> Y \<and> satisfied E x t = length (requires (rt_tx t)) \<and> y = rt_ref t)"
    "x' \<in> Y \<Longrightarrow> \<exists>t. q x' = Some t \<and> satisfied E x' t = length (requires (rt_tx t))"
  using assms by (simp_all add: iter_inv_def)

lemma iter_inv_start: "ready_wf r \<Longrightarrow> iter_inv (ready_tx r) {#} {} (get_transactions r)"
  using ready_invD(7) [of "{}" "{#}" r]
  by (simp add: ready_wf_def iter_inv_def get_transactions_def satisfied_def independent_ok_def)

section \<open>One unlocking event\<close>

lemma satisfied_add: "satisfied (add_mset h E) x t = satisfied E x t + (if x = h then 1 else 0)"
  by (simp add: satisfied_def)

text \<open>The event moves the transaction to the awaiting ones or makes it available.\<close>

definition event_result :: "nat \<Rightarrow> TxHash \<Rightarrow> ReadyTransaction \<Rightarrow> TransactionsIterator \<Rightarrow> TransactionsIterator" where
  "event_result n h t it =
     (if length (requires (rt_tx t)) \<le> n
      then it\<lparr>it_awaiting := (it_awaiting it)(h := None), it_independent := bset_insert (rt_ref t) (it_independent it)\<rparr>
      else it\<lparr>it_awaiting := (it_awaiting it)(h \<mapsto> (n, rt_ref t))\<rparr>)"

lemma unlock_next_eq:
  assumes inv: "iter_inv q E Y it" and q: "iter_queue q" and t: "q h = Some t"
    and lt: "satisfied E h t < length (requires (rt_tx t))"
  shows "unlock_next it h = event_result (satisfied E h t + 1) h t it"
proof -
  have hash: "tx_hash (rt_tx t) = h" by (rule iter_queueD(3) [OF q t])
  show ?thesis
  proof (cases "it_awaiting it h")
    case None
    have "h \<notin># E"
      using iter_invD(2) [OF inv, of h "satisfied E h t" "rt_ref t"] t lt None by auto
    then have "satisfied E h t = requires_offset t" by (simp add: satisfied_def not_in_iff)
    moreover have "(it_awaiting it)(h := None) = it_awaiting it" using None by auto
    ultimately show ?thesis using None iter_invD(1) [OF inv] t hash
      by (simp add: unlock_next_def event_result_def independent_or_awaiting_def)
  next
    case (Some p)
    obtain n tref where p: "p = (n, tref)" by (cases p)
    with Some iter_invD(2) [OF inv, of h n tref] t have "n = satisfied E h t" "tref = rt_ref t" by auto
    with Some p hash show ?thesis
      by (simp add: unlock_next_def event_result_def independent_or_awaiting_def)
  qed
qed

lemma event_independent:
  assumes inv: "iter_inv q E Y it" and q: "iter_queue q" and t: "q h = Some t"
    and lt: "satisfied E h t < length (requires (rt_tx t))"
  shows "y \<in> set (it_independent (event_result (satisfied E h t + 1) h t it)) \<longleftrightarrow>
    (\<exists>x u. q x = Some u \<and> x \<notin> Y \<and> satisfied (add_mset h E) x u = length (requires (rt_tx u)) \<and> y = rt_ref u)"
    (is "?l \<longleftrightarrow> ?r")
proof -
  have hY: "h \<notin> Y" using iter_invD(5) [OF inv, of h] t lt by auto
  have ne: "\<not> ref_equal (rt_ref t) z" if "z \<in> set (it_independent it)" for z
  proof -
    from that iter_invD(4) [OF inv, of z] obtain x u where u: "q x = Some u"
      "satisfied E x u = length (requires (rt_tx u))" "z = rt_ref u" by blast
    with t lt have "x \<noteq> h" by auto
    with iter_queueD(5) [OF q t u(1)] u(3) show ?thesis by (auto simp: ref_equal_def)
  qed
  have set: "set (it_independent (event_result (satisfied E h t + 1) h t it)) =
      (if satisfied E h t + 1 = length (requires (rt_tx t)) then {rt_ref t} else {}) \<union> set (it_independent it)"
    using lt set_bset_insert [of "it_independent it" "rt_ref t"] ne by (auto simp: event_result_def)
  show ?thesis
  proof
    assume ?l
    then consider "satisfied E h t + 1 = length (requires (rt_tx t))" "y = rt_ref t" | "y \<in> set (it_independent it)"
      unfolding set by (auto split: if_splits)
    then show ?r
    proof cases
      case 1
      with t hY show ?thesis by (intro exI [of _ h] exI [of _ t]) (simp add: satisfied_add)
    next
      case 2
      then obtain x u where u: "q x = Some u" "x \<notin> Y" "satisfied E x u = length (requires (rt_tx u))" "y = rt_ref u"
        using iter_invD(4) [OF inv] by blast
      with t lt have "x \<noteq> h" by auto
      with u show ?thesis by (intro exI [of _ x] exI [of _ u]) (simp add: satisfied_add)
    qed
  next
    assume ?r
    then obtain x u where u: "q x = Some u" "x \<notin> Y" "satisfied (add_mset h E) x u = length (requires (rt_tx u))"
      "y = rt_ref u" by blast
    show ?l
    proof (cases "x = h")
      case True
      with u t show ?thesis unfolding set by (simp add: satisfied_add)
    next
      case False
      with u have "satisfied E x u = length (requires (rt_tx u))" by (simp add: satisfied_add)
      with u have "y \<in> set (it_independent it)" using iter_invD(4) [OF inv] by blast
      then show ?thesis unfolding set by simp
    qed
  qed
qed

lemma unlock_next_inv:
  assumes inv: "iter_inv q E Y it" and q: "iter_queue q" and t: "q h = Some t"
    and lt: "satisfied E h t < length (requires (rt_tx t))"
  shows "iter_inv q (add_mset h E) Y (unlock_next it h)"
proof -
  let ?it = "event_result (satisfied E h t + 1) h t it"
  have hY: "h \<notin> Y" using iter_invD(5) [OF inv, of h] t lt by auto
  have aw: "it_awaiting ?it x = Some (n, tref) \<longleftrightarrow>
      (\<exists>u. q x = Some u \<and> tref = rt_ref u \<and> n = satisfied (add_mset h E) x u \<and> x \<in># add_mset h E \<and>
        n < length (requires (rt_tx u)))" for x n tref
  proof (cases "x = h")
    case True
    then show ?thesis using t by (auto simp: event_result_def satisfied_add)
  next
    case False
    then have "it_awaiting ?it x = it_awaiting it x" by (simp add: event_result_def)
    then show ?thesis using iter_invD(2) [OF inv, of x n tref] False by (simp add: satisfied_add)
  qed
  have so: "bset_sorted (it_independent ?it)"
    using iter_invD(3) [OF inv] by (simp add: event_result_def bset_insert_sorted)
  have Y: "\<exists>u. q x = Some u \<and> satisfied (add_mset h E) x u = length (requires (rt_tx u))" if "x \<in> Y" for x
    using iter_invD(5) [OF inv that] that hY by (auto simp: satisfied_add)
  have all: "it_all ?it = q" using iter_invD(1) [OF inv] by (simp add: event_result_def)
  show ?thesis
    unfolding unlock_next_eq [OF assms] iter_inv_def
    using all aw so event_independent [OF assms] Y by simp
qed

lemma foldl_unlock_next_inv:
  assumes "iter_inv q E Y it" "iter_queue q"
    and "\<And>x t. q x = Some t \<Longrightarrow> satisfied (E + mset us) x t \<le> length (requires (rt_tx t))"
    and "\<And>x. x \<in> set us \<Longrightarrow> x \<in> dom q"
  shows "iter_inv q (E + mset us) Y (foldl unlock_next it us)"
  using assms
proof (induction us arbitrary: E it)
  case (Cons u us)
  from Cons.prems(4) [of u] obtain t where t: "q u = Some t" by auto
  have "satisfied E u t < length (requires (rt_tx t))"
    using Cons.prems(3) [OF t] by (simp add: satisfied_def)
  from unlock_next_inv [OF Cons.prems(1,2) t this]
  have "iter_inv q (add_mset u E + mset us) Y (foldl unlock_next (unlock_next it u) us)"
  proof (rule Cons.IH [OF _ Cons.prems(2)])
    show "satisfied (add_mset u E + mset us) x t \<le> length (requires (rt_tx t))" if "q x = Some t" for x t
      using Cons.prems(3) [OF that] by simp
    show "x \<in> dom q" if "x \<in> set us" for x using Cons.prems(4) [of x] that by simp
  qed
  then show ?case by simp
qed simp

section \<open>One step of the iterator\<close>

text \<open>A transaction is available once all transactions that unlock it have been yielded.\<close>

definition available :: "(TxHash \<rightharpoonup> ReadyTransaction) \<Rightarrow> TxHash set \<Rightarrow> TxHash \<Rightarrow> bool" where
  "available q Y x \<longleftrightarrow> x \<in> dom q \<and> x \<notin> Y \<and> (\<forall>h t. q h = Some t \<longrightarrow> x \<in> set (unlocks t) \<longrightarrow> h \<in> Y)"

definition events :: "(TxHash \<rightharpoonup> ReadyTransaction) \<Rightarrow> TxHash set \<Rightarrow> TxHash multiset" where
  "events q Y = (\<Sum>h\<in>Y. mset (unlocks (the (q h))))"

lemma count_events: "Y \<subseteq> dom q \<Longrightarrow> count (events q Y) x = (\<Sum>h\<in>Y. links_to q x h)"
  unfolding events_def count_sum by (rule sum.cong [OF refl]) (auto simp: links_to_def)

lemma events_insert: "finite Y \<Longrightarrow> q x = Some t \<Longrightarrow> x \<notin> Y \<Longrightarrow> events q (insert x Y) = events q Y + mset (unlocks t)"
  by (simp add: events_def add.commute)

lemma satisfied_le:
  assumes "iter_queue q" "Y \<subseteq> dom q" "q x = Some t"
  shows "satisfied (events q Y) x t \<le> length (requires (rt_tx t))"
proof -
  have "(\<Sum>h\<in>Y. links_to q x h) \<le> indeg q x"
    unfolding indeg_def by (rule sum_mono2) (use iter_queueD(1) [OF assms(1)] assms(2) in auto)
  with iter_queueD(4) [OF assms(1,3)] show ?thesis
    by (simp add: satisfied_def count_events [OF assms(2)])
qed

lemma satisfied_available:
  assumes q: "iter_queue q" and Y: "Y \<subseteq> dom q" and t: "q x = Some t"
  shows "satisfied (events q Y) x t = length (requires (rt_tx t)) \<longleftrightarrow>
    (\<forall>h s. q h = Some s \<longrightarrow> x \<in> set (unlocks s) \<longrightarrow> h \<in> Y)"
proof -
  have fin: "finite (dom q)" by (rule iter_queueD(1) [OF q])
  have "indeg q x = (\<Sum>h\<in>Y. links_to q x h) + (\<Sum>h\<in>dom q - Y. links_to q x h)"
    unfolding indeg_def using sum.subset_diff [OF Y fin, of "links_to q x"] by simp
  then have "satisfied (events q Y) x t = length (requires (rt_tx t)) \<longleftrightarrow> (\<Sum>h\<in>dom q - Y. links_to q x h) = 0"
    using iter_queueD(4) [OF q t] unfolding satisfied_def count_events [OF Y] by linarith
  also have "\<dots> \<longleftrightarrow> (\<forall>h \<in> dom q - Y. links_to q x h = 0)" using fin by simp
  also have "\<dots> \<longleftrightarrow> (\<forall>h s. q h = Some s \<longrightarrow> x \<in> set (unlocks s) \<longrightarrow> h \<in> Y)"
  proof -
    have "links_to q x h = 0 \<longleftrightarrow> (\<forall>s. q h = Some s \<longrightarrow> x \<notin> set (unlocks s))" for h
      by (cases "q h") (simp_all add: links_to_def count_eq_zero_iff)
    then show ?thesis by auto
  qed
  finally show ?thesis .
qed

lemma independent_available:
  assumes "iter_inv q (events q Y) Y it" "iter_queue q" "Y \<subseteq> dom q"
  shows "y \<in> set (it_independent it) \<longleftrightarrow> (\<exists>x. available q Y x \<and> y = rt_ref (the (q x)))"
proof -
  have av: "available q Y x \<longleftrightarrow> (\<exists>t. q x = Some t \<and> x \<notin> Y \<and> satisfied (events q Y) x t = length (requires (rt_tx t)))" for x
    using satisfied_available [OF assms(2,3), of x] unfolding available_def by (cases "q x") auto
  show ?thesis
  proof
    assume "y \<in> set (it_independent it)"
    then obtain x t where "q x = Some t" "x \<notin> Y" "satisfied (events q Y) x t = length (requires (rt_tx t))" "y = rt_ref t"
      using iter_invD(4) [OF assms(1)] by blast
    then show "\<exists>x. available q Y x \<and> y = rt_ref (the (q x))"
      by (intro exI [of _ x]) (simp add: av)
  next
    assume "\<exists>x. available q Y x \<and> y = rt_ref (the (q x))"
    then obtain x t where "q x = Some t" "x \<notin> Y" "satisfied (events q Y) x t = length (requires (rt_tx t))" "y = rt_ref t"
      using av by auto
    then show "y \<in> set (it_independent it)" using iter_invD(4) [OF assms(1)] by blast
  qed
qed

lemma ref_less_irrefl: "\<not> ref_less a a"
  by (simp add: ref_less_def)

lemma take_best_inv:
  assumes inv: "iter_inv q E Y it" and q: "iter_queue q" and it: "it_independent it = best # rest"
    and t: "q x = Some t" "best = rt_ref t" "satisfied E x t = length (requires (rt_tx t))"
  shows "iter_inv q E (insert x Y) (it\<lparr>it_independent := rest\<rparr>)"
proof -
  have so: "bset_sorted (best # rest)" using iter_invD(3) [OF inv] it by simp
  then have nb: "best \<notin> set rest" using ref_less_irrefl by auto
  have "y \<in> set rest \<longleftrightarrow> (\<exists>z u. q z = Some u \<and> z \<notin> insert x Y \<and>
      satisfied E z u = length (requires (rt_tx u)) \<and> y = rt_ref u)" for y
  proof
    assume "y \<in> set rest"
    then obtain z u where u: "q z = Some u" "z \<notin> Y" "satisfied E z u = length (requires (rt_tx u))" "y = rt_ref u"
      using iter_invD(4) [OF inv, of y] it by auto
    moreover have "z \<noteq> x" using nb \<open>y \<in> set rest\<close> u t by auto
    ultimately show "\<exists>z u. q z = Some u \<and> z \<notin> insert x Y \<and> satisfied E z u = length (requires (rt_tx u)) \<and> y = rt_ref u"
      by (intro exI [of _ z] exI [of _ u]) simp
  next
    assume "\<exists>z u. q z = Some u \<and> z \<notin> insert x Y \<and> satisfied E z u = length (requires (rt_tx u)) \<and> y = rt_ref u"
    then obtain z u where u: "q z = Some u" "z \<noteq> x" "z \<notin> Y" "satisfied E z u = length (requires (rt_tx u))" "y = rt_ref u"
      by auto
    then have "y \<in> set (best # rest)" using iter_invD(4) [OF inv, of y] it by auto
    moreover have "y \<noteq> best" using iter_queueD(5) [OF q u(1) t(1)] u t by auto
    ultimately show "y \<in> set rest" by simp
  qed
  with inv so t show ?thesis by (simp add: iter_inv_def)
qed

lemma iter_next_step:
  assumes inv: "iter_inv q (events q Y) Y it" and q: "iter_queue q" and Y: "Y \<subseteq> dom q"
    and it: "it_independent it = best # rest"
  obtains x it' where "available q Y x" "iter_next it = Some (rt_tx (the (q x)), it')"
    "iter_inv q (events q (insert x Y)) (insert x Y) it'"
    "\<forall>z. available q Y z \<longrightarrow> z = x \<or> ref_less (rt_ref (the (q z))) (rt_ref (the (q x)))"
proof -
  have "best \<in> set (it_independent it)" using it by simp
  then obtain x t where t: "q x = Some t" "x \<notin> Y" "satisfied (events q Y) x t = length (requires (rt_tx t))"
      "best = rt_ref t"
    using iter_invD(4) [OF inv] by blast
  let ?it1 = "it\<lparr>it_independent := rest\<rparr>" let ?it' = "foldl unlock_next ?it1 (unlocks t)"
  have fin: "finite Y" using Y iter_queueD(1) [OF q] finite_subset by blast
  have xY: "insert x Y \<subseteq> dom q" using Y t(1) by auto
  have av: "available q Y x"
    using satisfied_available [OF q Y t(1)] t by (auto simp: available_def)
  have "iter_next it = Some (rt_tx t, ?it')"
    using iter_invD(1) [OF inv] iter_queueD(3) [OF q t(1)] t(1,4) by (simp add: iter_next_def it)
  moreover have "iter_inv q (events q Y + mset (unlocks t)) (insert x Y) ?it'"
  proof (rule foldl_unlock_next_inv [OF take_best_inv [OF inv q it t(1,4,3)] q])
    show "satisfied (events q Y + mset (unlocks t)) z u \<le> length (requires (rt_tx u))" if "q z = Some u" for z u
      using satisfied_le [OF q xY that] by (simp add: events_insert [where q = q, OF fin t(1,2)])
    show "z \<in> dom q" if "z \<in> set (unlocks t)" for z
      using iter_queueD(2) [OF q, unfolded links_ok_def, rule_format, OF t(1) that] by blast
  qed
  moreover have "z = x \<or> ref_less (rt_ref (the (q z))) (rt_ref (the (q x)))" if "available q Y z" for z
  proof -
    have "rt_ref (the (q z)) \<in> set (best # rest)"
      using independent_available [OF inv q Y] that it by auto
    moreover have "z = x" if "rt_ref (the (q z)) = best"
      using \<open>available q Y z\<close> that iter_queueD(5) [OF q _ t(1)] t(4) by (auto simp: available_def)
    ultimately show ?thesis using iter_invD(3) [OF inv] it t(1,4) by auto
  qed
  ultimately show thesis using that [of x ?it'] av t(1) events_insert [where q = q, OF fin t(1,2)] by simp
qed

section \<open>The whole iteration\<close>

text \<open>
  The abstract specification: at every point the best of the available transactions comes next, and
  the sequence ends when none is available.
\<close>

fun best_first :: "(TxHash \<rightharpoonup> ReadyTransaction) \<Rightarrow> TxHash set \<Rightarrow> PoolTransaction list \<Rightarrow> bool" where
  "best_first q Y [] \<longleftrightarrow> (\<forall>x. \<not> available q Y x)"
| "best_first q Y (tx # txs) \<longleftrightarrow>
     available q Y (tx_hash tx) \<and> rt_tx (the (q (tx_hash tx))) = tx \<and>
     (\<forall>z. available q Y z \<longrightarrow>
        z = tx_hash tx \<or> ref_less (rt_ref (the (q z))) (rt_ref (the (q (tx_hash tx))))) \<and>
     best_first q (insert (tx_hash tx) Y) txs"

lemma best_first_distinct:
  "best_first q Y txs \<Longrightarrow> distinct (map tx_hash txs) \<and> tx_hash ` set txs \<subseteq> dom q - Y"
  by (induction txs arbitrary: Y) (auto simp: available_def)

text \<open>Where the links have no cycle, everything is yielded.\<close>

lemma best_first_end:
  assumes "best_first q Y txs"
  shows "\<not> available q (Y \<union> tx_hash ` set txs) x"
  using assms
proof (induction txs arbitrary: Y)
  case (Cons tx txs)
  from Cons.IH [of "insert (tx_hash tx) Y"] Cons.prems show ?case by simp
qed simp

lemma best_first_complete:
  assumes "best_first q {} txs"
    and rank: "\<And>h t x. q h = Some t \<Longrightarrow> x \<in> set (unlocks t) \<Longrightarrow> (rank h :: nat) < rank x"
  shows "tx_hash ` set txs = dom q"
proof -
  let ?Y = "tx_hash ` set txs"
  have "x \<in> ?Y" if "x \<in> dom q" for x
    using that
  proof (induction "rank x" arbitrary: x rule: less_induct)
    case less
    have "h \<in> ?Y" if "q h = Some t" "x \<in> set (unlocks t)" for h t
      using less.hyps [OF rank [OF that]] that(1) by auto
    then show ?case
      using best_first_end [OF assms(1), of x] less.prems by (auto simp: available_def)
  qed
  then show ?thesis using best_first_distinct [OF assms(1)] by auto
qed

lemma iter_collect_best_first:
  assumes q: "iter_queue q" and inv: "iter_inv q (events q Y) Y it" and Y: "Y \<subseteq> dom q"
  shows "\<exists>txs. iter_collect it = Some txs \<and> best_first q Y txs"
  using inv Y
proof (induction "card (dom q - Y)" arbitrary: Y it rule: less_induct)
  case less
  show ?case
  proof (cases "it_independent it")
    case Nil
    then have "\<not> available q Y x" for x
      using independent_available [OF less.prems(1) q less.prems(2)] by auto
    with Nil show ?thesis by (simp add: iter_collect.simps iter_next_def)
  next
    case (Cons best rest)
    obtain x it' where x: "available q Y x" "iter_next it = Some (rt_tx (the (q x)), it')"
      "iter_inv q (events q (insert x Y)) (insert x Y) it'"
      and best: "\<forall>z. available q Y z \<longrightarrow> z = x \<or> ref_less (rt_ref (the (q z))) (rt_ref (the (q x)))"
      by (rule iter_next_step [OF less.prems(1) q less.prems(2) Cons])
    from x(1) have dom: "x \<in> dom q" "x \<notin> Y" by (simp_all add: available_def)
    have "dom q - insert x Y \<subset> dom q - Y" using dom by auto
    then have "card (dom q - insert x Y) < card (dom q - Y)"
      using iter_queueD(1) [OF q] by (intro psubset_card_mono) auto
    moreover have "insert x Y \<subseteq> dom q" using dom less.prems(2) by simp
    ultimately obtain txs where txs: "iter_collect it' = Some txs" "best_first q (insert x Y) txs"
      using less.hyps [OF _ x(3)] by blast
    have "tx_hash (rt_tx (the (q x))) = x" using dom(1) iter_queueD(3) [OF q] by auto
    with x best txs have "best_first q Y (rt_tx (the (q x)) # txs)" by simp
    moreover have "iter_collect it = Some (rt_tx (the (q x)) # txs)"
      by (simp add: iter_collect.simps [of it] x(2) txs(1))
    ultimately show ?thesis by blast
  qed
qed

lemma get_transactions_best_first:
  assumes "ready_wf r"
  shows "\<exists>txs. iter_collect (get_transactions r) = Some txs \<and> best_first (ready_tx r) {} txs"
  using iter_collect_best_first [OF ready_wf_iter_queue [OF assms], of "{}"] iter_inv_start [OF assms]
  by (simp add: events_def)

section \<open>Properties of the ready queue\<close>

text \<open>A sample queue: transaction 1 unlocks transaction 2.\<close>

definition sample_ready :: ReadyTransactions where
  "sample_ready = \<lparr>tx_id = 2, provided_markers = [[1] \<mapsto> 1, [2] \<mapsto> 2],
     ready_tx = [1 \<mapsto> \<lparr>rt_ref = \<lparr>ref_tx = sample_tx 1 [] [[1]] 5, ref_id = 0\<rparr>, unlocks = [2], requires_offset = 0\<rparr>,
       2 \<mapsto> \<lparr>rt_ref = \<lparr>ref_tx = sample_tx 2 [[1]] [[2]] 9, ref_id = 1\<rparr>, unlocks = [], requires_offset = 0\<rparr>],
     independent_transactions = [\<lparr>ref_tx = sample_tx 1 [] [[1]] 5, ref_id = 0\<rparr>]\<rparr>"

lemma sample_tx_sel [simp]:
  "tx_hash (sample_tx h rq pv fee) = h" "requires (sample_tx h rq pv fee) = rq"
  "provides (sample_tx h rq pv fee) = pv" "max_fee_per_gas (sample_tx h rq pv fee) = fee"
  "the_marker (sample_tx h rq pv fee) = hd pv"
  by (simp_all add: sample_tx_def the_marker_def)

lemma sample_ready_dom: "dom (ready_tx sample_ready) = {1, 2}"
  by (auto simp: sample_ready_def)

lemma sample_ready_cases:
  assumes "ready_tx sample_ready x = Some t"
  obtains "x = 1" "t = \<lparr>rt_ref = \<lparr>ref_tx = sample_tx 1 [] [[1]] 5, ref_id = 0\<rparr>, unlocks = [2], requires_offset = 0\<rparr>"
  | "x = 2" "t = \<lparr>rt_ref = \<lparr>ref_tx = sample_tx 2 [[1]] [[2]] 9, ref_id = 1\<rparr>, unlocks = [], requires_offset = 0\<rparr>"
  using assms by (auto simp: sample_ready_def split: if_splits)

lemma sample_ready_indeg: "indeg (ready_tx sample_ready) 1 = 0" "indeg (ready_tx sample_ready) 2 = 1"
  by (simp_all add: indeg_def sample_ready_dom links_to_def) (simp_all add: sample_ready_def)

lemma sample_ready_wf: "ready_wf sample_ready"
  unfolding ready_wf_def
proof (rule ready_invI)
  show "finite (dom (ready_tx sample_ready))" by (simp add: sample_ready_dom)
  show "links_ok (ready_tx sample_ready)"
    unfolding links_ok_def
  proof (intro allI impI)
    fix h t x assume "ready_tx sample_ready h = Some t" "x \<in> set (unlocks t)"
    then have "x = 2" "unlocks t = [2]" "the_marker (rt_tx t) = [1]" by (auto elim!: sample_ready_cases)
    then show "\<exists>t'. ready_tx sample_ready x = Some t' \<and>
        count (mset (unlocks t)) x \<le> count (mset (requires (rt_tx t'))) (the_marker (rt_tx t))"
      by (simp add: sample_ready_def)
  qed
  show "independent_ok (ready_tx sample_ready) (independent_transactions sample_ready)"
  proof -
    have "x \<in> set (independent_transactions sample_ready) \<longleftrightarrow> (\<exists>h t. ready_tx sample_ready h = Some t \<and>
        requires_offset t = length (requires (rt_tx t)) \<and> x = rt_ref t)" for x
    proof
      assume "x \<in> set (independent_transactions sample_ready)"
      then show "\<exists>h t. ready_tx sample_ready h = Some t \<and> requires_offset t = length (requires (rt_tx t)) \<and> x = rt_ref t"
        by (intro exI [of _ 1]) (simp add: sample_ready_def)
    next
      assume "\<exists>h t. ready_tx sample_ready h = Some t \<and> requires_offset t = length (requires (rt_tx t)) \<and> x = rt_ref t"
      then obtain h t where "ready_tx sample_ready h = Some t" "requires_offset t = length (requires (rt_tx t))" "x = rt_ref t"
        by blast
      then show "x \<in> set (independent_transactions sample_ready)"
        by (cases rule: sample_ready_cases) (simp_all add: sample_ready_def)
    qed
    then show ?thesis by (simp add: independent_ok_def) (simp add: sample_ready_def)
  qed
next
  fix k h
  show "provided_markers sample_ready k = Some h \<longleftrightarrow> (\<exists>t. ready_tx sample_ready h = Some t \<and> the_marker (rt_tx t) = k)"
    by (auto simp: sample_ready_def split: if_splits)
next
  fix h t assume "ready_tx sample_ready h = Some t"
  then show "ready_entry_ok (tx_id sample_ready) h t"
    "requires_offset t + indeg (ready_tx sample_ready) h + count {#} h = length (requires (rt_tx t))"
    by (auto elim!: sample_ready_cases simp: sample_ready_indeg ready_entry_ok_def single_marked_def)
      (simp_all add: sample_ready_def)
next
  fix h t h' t' assume "ready_tx sample_ready h = Some t" "ready_tx sample_ready h' = Some t'"
    "ref_id (rt_ref t) = ref_id (rt_ref t')"
  then show "h = h'" by (auto elim!: sample_ready_cases)
qed

text \<open>
  C27: Adding a ready transaction to a consistent ready queue never panics and keeps the queue
  consistent, as long as the counter of submissions does not wrap. It is refused, without any
  change, exactly when a ready transaction with the same marker pays at least as much; otherwise
  that transaction is replaced, and nothing else leaves the queue.
\<close>

theorem ready_add_keeps_invariant:
  assumes "ready_wf r" "iter_law ord" "is_ready pt" "ready_tx r (tx_hash (transaction pt)) = None"
    "single_marked (transaction pt)" "tx_id r < tx_id r + 1"
  shows "\<exists>res r'. ready_add_transaction ord pt r = Some (res, r') \<and> ready_wf r' \<and>
    (case res of
       Inl e \<Rightarrow> underpriced r (transaction pt) \<and> r' = r \<and> e = ReplacementUnderpriced (tx_hash (transaction pt))
     | Inr replaced \<Rightarrow> \<not> underpriced r (transaction pt) \<and>
         replaced = (case ready_rival r (transaction pt) of None \<Rightarrow> [] | Some t \<Rightarrow> [rt_tx t]) \<and>
         dom (ready_tx r') = insert (tx_hash (transaction pt)) (dom (ready_tx r) - tx_hash ` set replaced) \<and>
         provided_markers r' = (provided_markers r)(the_marker (transaction pt) \<mapsto> tx_hash (transaction pt)))"
  using ready_add_spec [OF assms] assms(1)
  by (auto simp: grown_def taken_out_dom split: if_splits option.splits)

theorem ready_add_keeps_invariant_witness:
  "\<exists>res r'. ready_add_transaction sorted_order \<lparr>transaction = sample_tx 3 [[1]] [[2]] 10, missing_markers = {}\<rparr> sample_ready =
     Some (res, r') \<and> ready_wf r'"
proof -
  have "is_ready \<lparr>transaction = sample_tx 3 [[1]] [[2]] 10, missing_markers = {}\<rparr>" by (simp add: is_ready_def)
  from ready_add_keeps_invariant [OF sample_ready_wf sorted_order_law this] show ?thesis
    by (auto simp: sample_ready_def single_marked_def)
qed

lemma txs_of_Collect: "txs_of q {x \<in> dom q. P x} = {rt_tx t |x t. q x = Some t \<and> P x}"
proof (rule set_eqI)
  fix y
  show "y \<in> txs_of q {x \<in> dom q. P x} \<longleftrightarrow> y \<in> {rt_tx t |x t. q x = Some t \<and> P x}"
    unfolding txs_of_def image_iff mem_Collect_eq Bex_def by (metis domD domI option.sel)
qed

text \<open>
  C31: Clearing transactions from a consistent ready queue ends, keeps the queue consistent and takes
  out exactly the named transactions and those that hang on them along the links, returning each.
\<close>

theorem clearing_takes_dependents:
  assumes "ready_wf r"
  shows "\<exists>removed r'. clear_transactions hashes r = Some (removed, r') \<and> ready_wf r' \<and>
    dom (ready_tx r') = {x \<in> dom (ready_tx r). \<not> hangs_on (ready_tx r) (set hashes) x} \<and>
    set removed = {rt_tx t |x t. ready_tx r x = Some t \<and> hangs_on (ready_tx r) (set hashes) x}"
proof -
  have "ready_inv (set (rev hashes)) {#} r"
    using assms unfolding ready_wf_def by (rule ready_inv_mono) simp
  from remove_with_markers_None [OF this] obtain removed r' where
    r': "remove_with_markers (rev hashes) None r = Some (removed, r')" "ready_wf r'"
      "dom (ready_tx r') = dom (ready_tx r) - hanging (ready_tx r) (set hashes)"
      "set removed = txs_of (ready_tx r) (hanging (ready_tx r) (set hashes))" by auto
  have "txs_of (ready_tx r) (hanging (ready_tx r) (set hashes)) =
      {rt_tx t |x t. ready_tx r x = Some t \<and> hangs_on (ready_tx r) (set hashes) x}"
    unfolding hanging_def by (rule txs_of_Collect)
  with r' show ?thesis by (auto simp: clear_transactions_def hanging_def)
qed

theorem clearing_takes_dependents_witness:
  "\<exists>removed r'. clear_transactions [1] sample_ready = Some (removed, r') \<and> ready_wf r' \<and> ready_tx r' = Map.empty"
proof -
  have 1: "hangs_on (ready_tx sample_ready) {1} 1" by (rule hangs_on.root) simp
  have "hangs_on (ready_tx sample_ready) {1} 2"
    by (rule hangs_on.link [OF 1, where t = "the (ready_tx sample_ready 1)"]) (simp_all add: sample_ready_def)
  with 1 have "{x \<in> dom (ready_tx sample_ready). \<not> hangs_on (ready_tx sample_ready) (set [1]) x} = {}"
    by (auto simp: sample_ready_dom)
  with clearing_takes_dependents [OF sample_ready_wf, of "[1]"] show ?thesis by (metis dom_eq_empty_conv)
qed

text \<open>
  C30: Pruning a marker from a consistent ready queue ends and never trips the assertion on the
  provided markers. The queue stays consistent, the marker is no longer provided, each removed
  transaction is returned, and it provides the marker or one on the way back from it.
\<close>

theorem pruning_stays_on_the_way_back:
  assumes "ready_wf r"
  shows "\<exists>removed r'. prune_tags marker r = Some (removed, r') \<and> ready_wf r' \<and>
    provided_markers r' marker = None \<and> dom (ready_tx r') \<subseteq> dom (ready_tx r) \<and>
    set removed = {rt_tx t |x t. ready_tx r x = Some t \<and> x \<notin> dom (ready_tx r')} \<and>
    list_all (\<lambda>tx. leads_to r marker (the_marker tx)) removed"
proof -
  obtain removed r' where r': "prune_loop [marker] r = Some (removed, r')" "ready_wf r'" "shrunk r r'"
    "provided_markers r' marker = None"
    and rm: "set removed = txs_of (ready_tx r) (dom (ready_tx r) - dom (ready_tx r'))"
    and lead: "\<forall>h \<in> dom (ready_tx r) - dom (ready_tx r'). the_marker (rt_tx (the (ready_tx r h))) \<in> {k. leads_to r marker k}"
    using prune_loop_spec [OF assms, of "[marker]", OF _ closed_back_leads_to [of r marker]] leads_to.self [of r marker]
    by auto
  have "list_all (\<lambda>tx. leads_to r marker (the_marker tx)) removed"
    using rm lead by (auto simp: list_all_iff txs_of_def)
  moreover have "set removed = {rt_tx t |x t. ready_tx r x = Some t \<and> x \<notin> dom (ready_tx r')}"
    unfolding rm set_diff_eq by (rule txs_of_Collect)
  ultimately show ?thesis using r' shrunkD(2) [OF r'(3)] by (auto simp: prune_tags_def)
qed

theorem pruning_stays_on_the_way_back_witness:
  "\<exists>removed r'. prune_tags [1] sample_ready = Some (removed, r') \<and> ready_wf r' \<and> provided_markers r' [1] = None"
  using pruning_stays_on_the_way_back [OF sample_ready_wf, of "[1]"] by blast

text \<open>
  C26: The iterator over a consistent ready queue ends. It yields no transaction twice; each one it
  yields comes after all that unlock it and is the best of those then available, by priority and
  then by age; and where the links have no cycle it yields every ready transaction.
\<close>

theorem iterator_is_best_first:
  assumes "ready_wf r"
  shows "\<exists>txs. iter_collect (get_transactions r) = Some txs \<and> best_first (ready_tx r) {} txs \<and>
    distinct (map tx_hash txs) \<and>
    ((\<exists>rank. \<forall>h t x. ready_tx r h = Some t \<longrightarrow> x \<in> set (unlocks t) \<longrightarrow> (rank h :: nat) < rank x) \<longrightarrow>
      tx_hash ` set txs = dom (ready_tx r))"
  using get_transactions_best_first [OF assms] best_first_distinct best_first_complete by metis

theorem iterator_is_best_first_witness:
  "\<exists>txs. iter_collect (get_transactions sample_ready) = Some txs \<and> tx_hash ` set txs = {1, 2}"
proof -
  have "\<exists>rank. \<forall>h t x. ready_tx sample_ready h = Some t \<longrightarrow> x \<in> set (unlocks t) \<longrightarrow> (rank h :: nat) < rank x"
    by (rule exI [of _ unat]) (auto elim!: sample_ready_cases)
  with iterator_is_best_first [OF sample_ready_wf] show ?thesis by (auto simp: sample_ready_dom)
qed

lemma byte_bits:
  fixes a b :: "'a::len word"
  assumes "\<And>i. i < k \<Longrightarrow> (ucast (drop_bit (8 * i) a) :: u8) = ucast (drop_bit (8 * i) b)" "LENGTH('a) \<le> 8 * k"
  shows "a = b"
proof (rule bit_word_eqI)
  fix n assume n: "n < LENGTH('a)"
  have i: "n div 8 < k" "8 * (n div 8) + n mod 8 = n" using n assms(2) by auto
  have "bit (ucast (drop_bit (8 * (n div 8)) a) :: u8) (n mod 8) = bit (ucast (drop_bit (8 * (n div 8)) b) :: u8) (n mod 8)"
    using assms(1) [OF i(1)] by simp
  then show "bit a n \<longleftrightarrow> bit b n"
    by (simp add: bit_ucast_iff bit_drop_bit_eq i(2))
qed

lemma u64_to_le_bytes_inj: "u64_to_le_bytes a = u64_to_le_bytes b \<Longrightarrow> a = b"
  by (rule byte_bits [of 8]) (auto simp: u64_to_le_bytes_def)

lemma address_bytes_inj:
  assumes "address_bytes a = address_bytes b"
  shows "a = b"
proof (rule byte_bits [of 20])
  fix i :: nat assume "i < 20"
  then have "19 - i < 20" "19 - (19 - i) = i" by auto
  moreover have "\<forall>j < 20. (ucast (drop_bit (8 * (19 - j)) a) :: u8) = ucast (drop_bit (8 * (19 - j)) b)"
    using assms by (auto simp: address_bytes_def)
  ultimately show "(ucast (drop_bit (8 * i) a) :: u8) = ucast (drop_bit (8 * i) b)" by metis
qed simp

text \<open>
  C37: The marker of a nonce and a sender has 28 bytes and determines both: two transactions of the
  pool share a marker exactly when they have the same sender and nonce.
\<close>

theorem marker_identifies_sender_and_nonce:
  "length (to_marker n a) = 28 \<and> (to_marker n a = to_marker n' a' \<longleftrightarrow> n = n' \<and> a = a')"
proof -
  have "length (u64_to_le_bytes m) = 8" for m by (simp add: u64_to_le_bytes_def)
  moreover have "length (address_bytes b) = 20" for b by (simp add: address_bytes_def)
  ultimately show ?thesis
    using u64_to_le_bytes_inj address_bytes_inj by (auto simp: to_marker_def)
qed

end
