(* ===== verification/Tx_Pool.thy ===== *)
theory Tx_Pool
  imports Tx_Iter
begin

text \<open>
  The transaction pool of Anvil (crates/anvil/src/eth/pool/mod.rs): the ready and the waiting queue
  together. Promotion chains are shown to end, no operation panics, the two queues stay consistent
  with each other under every sequence of operations, and a refused transaction changes nothing.
\<close>

section \<open>The pool\<close>

record PoolInner =
  inner_ready :: ReadyTransactions
  inner_pending :: PendingTransactions

definition pool_default :: PoolInner where
  "pool_default = \<lparr>inner_ready = ready_default, inner_pending = pending_default\<rparr>"

text \<open>The struct \<open>ReadyTransaction\<close> of mod.rs, the outcome of adding to the ready queue.\<close>

record AddedReadyTransaction =
  ar_hash :: TxHash
  ar_promoted :: "TxHash list"
  ar_discarded :: "TxHash list"
  ar_removed :: "PoolTransaction list"

definition AddedReadyTransaction_new :: "TxHash \<Rightarrow> AddedReadyTransaction" where
  "AddedReadyTransaction_new h = \<lparr>ar_hash = h, ar_promoted = [], ar_discarded = [], ar_removed = []\<rparr>"

datatype AddedTransaction = AddedReady AddedReadyTransaction | AddedPending TxHash

fun added_hash :: "AddedTransaction \<Rightarrow> TxHash" where
  "added_hash (AddedReady t) = ar_hash t"
| "added_hash (AddedPending h) = h"

record PruneResult =
  pr_promoted :: "AddedTransaction list"
  pr_failed :: "TxHash list"
  pr_pruned :: "PoolTransaction list"

section \<open>Reading\<close>

definition inner_clear :: "PoolInner \<Rightarrow> PoolInner" where
  "inner_clear s = \<lparr>inner_ready = ready_clear (inner_ready s), inner_pending = pending_clear (inner_pending s)\<rparr>"

definition inner_contains :: "PoolInner \<Rightarrow> TxHash \<Rightarrow> bool" where
  "inner_contains s h \<longleftrightarrow> pending_contains (inner_pending s) h \<or> ready_contains (inner_ready s) h"

text \<open>
  Where the code chains the waiting transactions with those of the ready iterator; \<open>None\<close> would be
  an iterator that does not end.
\<close>

definition chained_transactions :: "IterOrder \<Rightarrow> PoolInner \<Rightarrow> PoolTransaction list option" where
  "chained_transactions ord s =
     map_option (\<lambda>ready. pending_transactions ord (inner_pending s) @ ready)
       (iter_collect (get_transactions (inner_ready s)))"

definition transactions_by_sender :: "IterOrder \<Rightarrow> PoolInner \<Rightarrow> 160 word \<Rightarrow> PoolTransaction list option" where
  "transactions_by_sender ord s sender =
     map_option (filter (\<lambda>tx. tx_sender tx = sender)) (chained_transactions ord s)"

definition contains_sender_nonce :: "IterOrder \<Rightarrow> PoolInner \<Rightarrow> 160 word \<Rightarrow> u64 \<Rightarrow> bool option" where
  "contains_sender_nonce ord s sender nonce =
     map_option (list_ex (\<lambda>tx. tx_nonce tx = nonce)) (transactions_by_sender ord s sender)"

definition transaction_with_markers ::
    "IterOrder \<Rightarrow> PoolInner \<Rightarrow> 160 word \<Rightarrow> TxMarker list \<Rightarrow> PoolTransaction option option" where
  "transaction_with_markers ord s sender markers =
     map_option (find (\<lambda>tx. provides tx = markers)) (transactions_by_sender ord s sender)"

definition inner_get_transaction :: "PoolInner \<Rightarrow> TxHash \<Rightarrow> PoolTransaction option" where
  "inner_get_transaction s h =
     (case waiting_queue (inner_pending s) h of
        Some t \<Rightarrow> Some (transaction t)
      | None \<Rightarrow> map_option rt_tx (ready_tx (inner_ready s) h))"

definition usize_to_u64_or_0 :: "nat \<Rightarrow> nat" where
  "usize_to_u64_or_0 n = (if n < 2 ^ 64 then n else 0)"

definition txpool_status :: "PoolInner \<Rightarrow> nat \<times> nat" where
  "txpool_status s =
     (usize_to_u64_or_0 (ready_len (inner_ready s)), usize_to_u64_or_0 (pending_len (inner_pending s)))"

section \<open>Removing\<close>

definition inner_remove_invalid ::
    "IterOrder \<Rightarrow> TxHash list \<Rightarrow> PoolInner \<Rightarrow> (PoolTransaction list \<times> PoolInner) option" where
  "inner_remove_invalid ord tx_hashes s =
     (if tx_hashes = [] then Some ([], s)
      else Option.bind (remove_with_markers (rev tx_hashes) None (inner_ready s)) (\<lambda>(removed, r).
        let (removed', p) = pending_remove ord tx_hashes (inner_pending s)
        in Some (removed @ removed', \<lparr>inner_ready = r, inner_pending = p\<rparr>)))"

definition inner_remove_transactions_by_address ::
    "IterOrder \<Rightarrow> 160 word \<Rightarrow> PoolInner \<Rightarrow> (PoolTransaction list \<times> PoolInner) option" where
  "inner_remove_transactions_by_address ord sender s =
     Option.bind (transactions_by_sender ord s sender) (\<lambda>txs.
       let tx_hashes = map tx_hash txs
       in if tx_hashes = [] then Some ([], s)
          else Option.bind (remove_with_markers (rev tx_hashes) None (inner_ready s)) (\<lambda>(removed, r).
            let (removed', p) = pending_remove ord tx_hashes (inner_pending s)
            in Some (removed @ removed', \<lparr>inner_ready = r, inner_pending = p\<rparr>)))"

definition drop_transaction ::
    "IterOrder \<Rightarrow> TxHash \<Rightarrow> PoolInner \<Rightarrow> (PoolTransaction option \<times> PoolInner) option" where
  "drop_transaction ord h s =
     Option.bind (remove_with_markers [h] None (inner_ready s)) (\<lambda>(removed, r).
       let invalidated = concat (map provides removed);
           (removed', p) = remove_with_dependents ord [h] invalidated (inner_pending s);
           all = removed @ removed'
       in Some (if all = [] then None else find (\<lambda>t. tx_hash t = h) all,
                \<lparr>inner_ready = r, inner_pending = p\<rparr>))"

definition clear_transaction_type ::
    "IterOrder \<Rightarrow> u8 \<Rightarrow> PoolInner \<Rightarrow> (PoolTransaction list \<times> PoolInner) option" where
  "clear_transaction_type ord ty s =
     Option.bind (chained_transactions ord s) (\<lambda>txs.
       inner_remove_invalid ord (map tx_hash (filter (\<lambda>tx. tx_type tx = ty) txs)) s)"

section \<open>Adding\<close>

text \<open>
  The queue of \<open>add_ready_transaction\<close>: the head of the list is the front of the deque. The outer
  option is a panic or a loop that does not end.
\<close>

partial_function (option) add_ready_loop ::
    "IterOrder \<Rightarrow> PendingPoolTransaction list \<Rightarrow> bool \<Rightarrow> AddedReadyTransaction \<Rightarrow> PoolInner
      \<Rightarrow> ((PoolError + AddedReadyTransaction) \<times> PoolInner) option" where
  "add_ready_loop ord tx_queue is_new_tx ready s =
     (case tx_queue of
        [] \<Rightarrow> Some (Inr ready, s)
      | current # rest \<Rightarrow>
          Option.bind (mark_and_unlock ord (provides (transaction current)) (inner_pending s)) (\<lambda>(unlocked, p).
          Option.bind (ready_add_transaction ord current (inner_ready s)) (\<lambda>(res, r).
            let s' = \<lparr>inner_ready = r, inner_pending = p\<rparr>;
                h = tx_hash (transaction current)
            in case res of
                 Inr replaced \<Rightarrow>
                   add_ready_loop ord (rest @ unlocked) False
                     (ready\<lparr>ar_promoted := (if is_new_tx then ar_promoted ready else ar_promoted ready @ [h]),
                            ar_removed := ar_removed ready @ replaced\<rparr>) s'
               | Inl err \<Rightarrow>
                   if is_new_tx then Some (Inl err, s')
                   else add_ready_loop ord (rest @ unlocked) False
                     (ready\<lparr>ar_discarded := ar_discarded ready @ [h]\<rparr>) s')))"

definition add_ready_transaction ::
    "IterOrder \<Rightarrow> PendingPoolTransaction \<Rightarrow> PoolInner \<Rightarrow> ((PoolError + AddedTransaction) \<times> PoolInner) option" where
  "add_ready_transaction ord t s =
     (let h = tx_hash (transaction t)
      in Option.bind (add_ready_loop ord [t] True (AddedReadyTransaction_new h) s) (\<lambda>(res, s').
        case res of
          Inl err \<Rightarrow> Some (Inl err, s')
        | Inr ready \<Rightarrow>
            if list_ex (\<lambda>tx. tx_hash tx = h) (ar_removed ready)
            then Option.bind (clear_transactions (ar_promoted ready) (inner_ready s')) (\<lambda>(_, r).
              Some (Inl CyclicTransaction, s'\<lparr>inner_ready := r\<rparr>))
            else Some (Inr (AddedReady ready), s')))"

definition inner_add_transaction ::
    "IterOrder \<Rightarrow> PoolTransaction \<Rightarrow> PoolInner \<Rightarrow> ((PoolError + AddedTransaction) \<times> PoolInner) option" where
  "inner_add_transaction ord tx s =
     (if inner_contains s (tx_hash tx) then Some (Inl (AlreadyImported (tx_hash tx)), s)
      else (let t = PendingPoolTransaction_new tx (provided_markers (inner_ready s))
        in if \<not> is_ready t
           then Option.bind (pending_add_transaction ord t (inner_pending s)) (\<lambda>(res, p).
             Some (case res of Inl e \<Rightarrow> Inl e | Inr _ \<Rightarrow> Inr (AddedPending (tx_hash tx)),
                   s\<lparr>inner_pending := p\<rparr>))
           else add_ready_transaction ord t s))"

section \<open>Pruning\<close>

fun prune_collect ::
    "IterOrder \<Rightarrow> TxMarker list \<Rightarrow> PendingPoolTransaction list \<Rightarrow> PoolTransaction list \<Rightarrow> PoolInner
      \<Rightarrow> (PendingPoolTransaction list \<times> PoolTransaction list \<times> PoolInner) option" where
  "prune_collect ord [] imports pruned s = Some (imports, pruned, s)"
| "prune_collect ord (m # ms) imports pruned s =
     Option.bind (mark_and_unlock ord [m] (inner_pending s)) (\<lambda>(unlocked, p).
     Option.bind (prune_tags m (inner_ready s)) (\<lambda>(removed, r).
       prune_collect ord ms (imports @ unlocked) (pruned @ removed) \<lparr>inner_ready = r, inner_pending = p\<rparr>))"

fun import_all ::
    "IterOrder \<Rightarrow> PendingPoolTransaction list \<Rightarrow> AddedTransaction list \<Rightarrow> TxHash list \<Rightarrow> PoolInner
      \<Rightarrow> (AddedTransaction list \<times> TxHash list \<times> PoolInner) option" where
  "import_all ord [] promoted failed s = Some (promoted, failed, s)"
| "import_all ord (t # ts) promoted failed s =
     Option.bind (add_ready_transaction ord t s) (\<lambda>(res, s').
       case res of
         Inr added \<Rightarrow> import_all ord ts (promoted @ [added]) failed s'
       | Inl _ \<Rightarrow> import_all ord ts promoted (failed @ [tx_hash (transaction t)]) s')"

definition inner_prune_markers ::
    "IterOrder \<Rightarrow> TxMarker list \<Rightarrow> PoolInner \<Rightarrow> (PruneResult \<times> PoolInner) option" where
  "inner_prune_markers ord markers s =
     Option.bind (prune_collect ord markers [] [] s) (\<lambda>(imports, pruned, s1).
     Option.bind (import_all ord imports [] [] s1) (\<lambda>(promoted, failed, s2).
       Some (\<lparr>pr_promoted = promoted, pr_failed = failed, pr_pruned = pruned\<rparr>, s2)))"

section \<open>The pool with its listeners\<close>

text \<open>
  A listener is the sending half of a channel of another library, here of any type \<open>'c\<close>. Sending is
  the parameter \<open>try_send\<close>: it gives the channel after the attempt and how the attempt ended.
\<close>

datatype SendOutcome = Sent | ChannelFull | Disconnected

type_synonym 'c TrySend = "'c \<Rightarrow> TxHash \<Rightarrow> 'c \<times> SendOutcome"

record 'c Pool =
  pool_inner :: PoolInner
  transaction_listener :: "'c list"

definition pool_new :: "'c Pool" where
  "pool_new = \<lparr>pool_inner = pool_default, transaction_listener = []\<rparr>"

text \<open>The sending half of a new channel comes from the channel library.\<close>

definition add_ready_listener :: "'c \<Rightarrow> 'c Pool \<Rightarrow> 'c Pool" where
  "add_ready_listener tx pool = pool\<lparr>transaction_listener := transaction_listener pool @ [tx]\<rparr>"

text \<open>\<open>Vec::swap_remove\<close>, which panics past the end.\<close>

definition swap_remove :: "nat \<Rightarrow> 'a list \<Rightarrow> ('a \<times> 'a list) option" where
  "swap_remove n xs =
     (if n < length xs then Some (xs ! n, butlast (xs[n := last xs])) else None)"

fun notify_loop :: "'c TrySend \<Rightarrow> TxHash \<Rightarrow> nat \<Rightarrow> 'c list \<Rightarrow> 'c list option" where
  "notify_loop try_send h 0 listener = Some listener"
| "notify_loop try_send h (Suc n) listener =
     Option.bind (swap_remove n listener) (\<lambda>(listener_tx, listener').
       let (listener_tx', res) = try_send listener_tx h;
           retain = (case res of Sent \<Rightarrow> True | ChannelFull \<Rightarrow> True | Disconnected \<Rightarrow> False)
       in notify_loop try_send h n (if retain then listener' @ [listener_tx'] else listener'))"

definition notify_listener :: "'c TrySend \<Rightarrow> TxHash \<Rightarrow> 'c Pool \<Rightarrow> 'c Pool option" where
  "notify_listener try_send h pool =
     map_option (\<lambda>l. pool\<lparr>transaction_listener := l\<rparr>)
       (notify_loop try_send h (length (transaction_listener pool)) (transaction_listener pool))"

fun notify_hashes :: "'c TrySend \<Rightarrow> TxHash list \<Rightarrow> 'c Pool \<Rightarrow> 'c Pool option" where
  "notify_hashes try_send [] pool = Some pool"
| "notify_hashes try_send (h # hs) pool = Option.bind (notify_listener try_send h pool) (notify_hashes try_send hs)"

fun notify_ready :: "'c TrySend \<Rightarrow> AddedTransaction \<Rightarrow> 'c Pool \<Rightarrow> 'c Pool option" where
  "notify_ready try_send (AddedReady t) pool =
     Option.bind (notify_listener try_send (ar_hash t) pool) (notify_hashes try_send (ar_promoted t))"
| "notify_ready try_send (AddedPending h) pool = Some pool"

fun notify_ready_each :: "'c TrySend \<Rightarrow> AddedTransaction list \<Rightarrow> 'c Pool \<Rightarrow> 'c Pool option" where
  "notify_ready_each try_send [] pool = Some pool"
| "notify_ready_each try_send (t # ts) pool = Option.bind (notify_ready try_send t pool) (notify_ready_each try_send ts)"

definition pool_restore :: "'c TrySend \<Rightarrow> PoolInner \<Rightarrow> 'c Pool \<Rightarrow> 'c Pool option" where
  "pool_restore try_send snapshot pool =
     Option.bind (iter_collect (get_transactions (inner_ready snapshot))) (\<lambda>txs.
       notify_hashes try_send (map tx_hash txs) (pool\<lparr>pool_inner := snapshot\<rparr>))"

definition pool_add_transaction ::
    "'c TrySend \<Rightarrow> IterOrder \<Rightarrow> PoolTransaction \<Rightarrow> 'c Pool \<Rightarrow> ((PoolError + AddedTransaction) \<times> 'c Pool) option" where
  "pool_add_transaction try_send ord tx pool =
     Option.bind (inner_add_transaction ord tx (pool_inner pool)) (\<lambda>(res, s).
       let pool' = pool\<lparr>pool_inner := s\<rparr>
       in case res of
            Inl e \<Rightarrow> Some (Inl e, pool')
          | Inr added \<Rightarrow> map_option (\<lambda>pool''. (Inr added, pool'')) (notify_ready try_send added pool'))"

definition pool_prune_markers ::
    "'c TrySend \<Rightarrow> IterOrder \<Rightarrow> TxMarker list \<Rightarrow> 'c Pool \<Rightarrow> (PruneResult \<times> 'c Pool) option" where
  "pool_prune_markers try_send ord markers pool =
     Option.bind (inner_prune_markers ord markers (pool_inner pool)) (\<lambda>(res, s).
       map_option (\<lambda>pool'. (res, pool')) (notify_ready_each try_send (pr_promoted res) (pool\<lparr>pool_inner := s\<rparr>)))"

record MinedBlockOutcome =
  block_number :: u64
  included :: "PoolTransaction list"
  stale :: "PoolTransaction list"
  invalid :: "PoolTransaction list"
  not_yet_valid :: "PoolTransaction list"

text \<open>
  \<open>on_mined_block\<close> up to the task it spawns: the hashes which that task sends a second later, those
  of the transactions that are not yet valid, are returned, and \<open>notify_hashes\<close> is its body.
\<close>

definition on_mined_block ::
    "'c TrySend \<Rightarrow> IterOrder \<Rightarrow> MinedBlockOutcome \<Rightarrow> 'c Pool \<Rightarrow> (bool \<times> TxHash list \<times> 'c Pool) option" where
  "on_mined_block try_send ord outcome pool =
     (let made_progress = included outcome \<noteq> [] \<or> stale outcome \<noteq> [] \<or> invalid outcome \<noteq> [];
          retry_ready = (made_progress \<and> not_yet_valid outcome = [])
      in Option.bind (inner_remove_invalid ord (map tx_hash (invalid outcome)) (pool_inner pool)) (\<lambda>(_, s).
         Option.bind (pool_prune_markers try_send ord (concat (map provides (included outcome @ stale outcome)))
             (pool\<lparr>pool_inner := s\<rparr>)) (\<lambda>(_, pool').
           Some (retry_ready \<and> \<not> ready_is_empty (inner_ready (pool_inner pool')),
                 map tx_hash (not_yet_valid outcome), pool'))))"

section \<open>The invariant of the pool\<close>

text \<open>
  Both queues are consistent, they share no transaction, every waiting transaction provides one
  marker, and what a waiting transaction misses is not provided by a ready one. The counter of
  submissions and the waiting transactions are bounded by the number of operations so far.
\<close>

definition pending_marked :: "PendingTransactions \<Rightarrow> bool" where
  "pending_marked p \<longleftrightarrow> (\<forall>h t. waiting_queue p h = Some t \<longrightarrow> single_marked (transaction t))"

definition missing_unprovided :: "PendingTransactions \<Rightarrow> ReadyTransactions \<Rightarrow> bool" where
  "missing_unprovided p r \<longleftrightarrow>
     (\<forall>h t m. waiting_queue p h = Some t \<longrightarrow> m \<in> missing_markers t \<longrightarrow> provided_markers r m = None)"

definition queues_ok :: "ReadyTransactions \<Rightarrow> PendingTransactions \<Rightarrow> bool" where
  "queues_ok r p \<longleftrightarrow> ready_wf r \<and> pending_wf p \<and> pending_marked p \<and>
     dom (waiting_queue p) \<inter> dom (ready_tx r) = {} \<and> missing_unprovided p r"

definition pool_inv :: "nat \<Rightarrow> PoolInner \<Rightarrow> bool" where
  "pool_inv n s \<longleftrightarrow> queues_ok (inner_ready s) (inner_pending s) \<and>
     unat (tx_id (inner_ready s)) + pending_len (inner_pending s) \<le> n"

lemma queues_okD:
  assumes "queues_ok r p"
  shows "ready_wf r" "pending_wf p" "pending_marked p" "dom (waiting_queue p) \<inter> dom (ready_tx r) = {}"
    "missing_unprovided p r"
  using assms by (simp_all add: queues_ok_def)

lemma pool_inv_default: "pool_inv 0 pool_default"
  by (simp add: pool_inv_def pool_default_def queues_ok_def ready_wf_default pending_wf_default
      pending_marked_def missing_unprovided_def pending_len_def)
    (simp add: pending_default_def ready_default_def)

text \<open>A consistent waiting queue is determined by its entries.\<close>

lemma pending_wf_ext:
  assumes "pending_wf p" "pending_wf p'" "waiting_queue p = waiting_queue p'"
  shows "p = p'"
proof -
  have "misses p = misses p'" using assms(3) by (simp add: misses_def fun_eq_iff)
  then have "required_markers p m = required_markers p' m" for m
    using pending_wfD(3) [OF assms(1), of m] pending_wfD(3) [OF assms(2), of m] by simp
  moreover have "waiting_markers p k = waiting_markers p' k" for k
  proof -
    have "waiting_markers p k = Some h \<longleftrightarrow> waiting_markers p' k = Some h" for h
      using pending_wfD(4) [OF assms(1), of k h] pending_wfD(4) [OF assms(2), of k h] assms(3) by simp
    then show ?thesis by (metis not_None_eq)
  qed
  ultimately show ?thesis using assms(3) by (cases p; cases p') (auto simp: fun_eq_iff)
qed

section \<open>Shrinking one of the queues\<close>

definition pending_sub :: "PendingTransactions \<Rightarrow> PendingTransactions \<Rightarrow> bool" where
  "pending_sub p' p \<longleftrightarrow> (\<forall>h t'. waiting_queue p' h = Some t' \<longrightarrow>
     (\<exists>t. waiting_queue p h = Some t \<and> transaction t' = transaction t \<and> missing_markers t' \<subseteq> missing_markers t))"

lemma pending_subD:
  "pending_sub p' p \<Longrightarrow> waiting_queue p' h = Some t' \<Longrightarrow>
    \<exists>t. waiting_queue p h = Some t \<and> transaction t' = transaction t \<and> missing_markers t' \<subseteq> missing_markers t"
  by (simp add: pending_sub_def)

lemma pending_sub_dom: "pending_sub p' p \<Longrightarrow> dom (waiting_queue p') \<subseteq> dom (waiting_queue p)"
  using pending_subD by fastforce

lemma pending_sub_refl: "pending_sub p p"
  by (simp add: pending_sub_def)

lemma pending_sub_trans:
  assumes "pending_sub p'' p'" "pending_sub p' p"
  shows "pending_sub p'' p"
  unfolding pending_sub_def
proof (intro allI impI)
  fix h t'' assume "waiting_queue p'' h = Some t''"
  from pending_subD [OF assms(1) this] obtain t' where t': "waiting_queue p' h = Some t'"
    "transaction t'' = transaction t'" "missing_markers t'' \<subseteq> missing_markers t'" by blast
  from pending_subD [OF assms(2) t'(1)] obtain t where "waiting_queue p h = Some t"
    "transaction t' = transaction t" "missing_markers t' \<subseteq> missing_markers t" by blast
  with t' show "\<exists>t. waiting_queue p h = Some t \<and> transaction t'' = transaction t \<and> missing_markers t'' \<subseteq> missing_markers t"
    by (intro exI [of _ t]) auto
qed

lemma pending_sub_restrict: "waiting_queue p' = waiting_queue p |` A \<Longrightarrow> pending_sub p' p"
  by (auto simp: pending_sub_def restrict_map_def split: if_splits)

lemma pending_sub_unlock:
  assumes "waiting_queue p' = (\<lambda>h. Option.bind (waiting_queue p h) (unlock_by ms))"
  shows "pending_sub p' p"
  unfolding pending_sub_def
proof (intro allI impI)
  fix h t' assume "waiting_queue p' h = Some t'"
  then obtain t where "waiting_queue p h = Some t" "unlock_by ms t = Some t'"
    by (auto simp: assms bind_eq_Some_conv)
  then show "\<exists>t. waiting_queue p h = Some t \<and> transaction t' = transaction t \<and> missing_markers t' \<subseteq> missing_markers t"
    by (intro exI [of _ t]) (auto simp: unlock_by_def split: if_splits)
qed

lemma queues_ok_sub:
  assumes ok: "queues_ok r p" and "ready_wf r'" "pending_wf p'" and sub: "pending_sub p' p"
    and "dom (ready_tx r') \<subseteq> dom (ready_tx r)" and pm: "provided_markers r' \<subseteq>\<^sub>m provided_markers r"
  shows "queues_ok r' p'"
  unfolding queues_ok_def
proof (intro conjI)
  show "pending_marked p'"
    using queues_okD(3) [OF ok] pending_subD [OF sub] unfolding pending_marked_def by metis
  show "dom (waiting_queue p') \<inter> dom (ready_tx r') = {}"
    using queues_okD(4) [OF ok] pending_sub_dom [OF sub] assms(5) by blast
  show "missing_unprovided p' r'"
    unfolding missing_unprovided_def
  proof (intro allI impI)
    fix h t' m assume t': "waiting_queue p' h = Some t'" "m \<in> missing_markers t'"
    from pending_subD [OF sub t'(1)] obtain t where "waiting_queue p h = Some t" "missing_markers t' \<subseteq> missing_markers t"
      by blast
    with t'(2) queues_okD(5) [OF ok] have "provided_markers r m = None"
      unfolding missing_unprovided_def by blast
    with pm show "provided_markers r' m = None" by (metis domIff map_le_def)
  qed
qed (use assms in simp_all)

lemma pending_len_sub:
  assumes "pending_sub p' p" "pending_wf p"
  shows "pending_len p' \<le> pending_len p"
  unfolding pending_len_def by (rule card_mono [OF pending_wfD(1) [OF assms(2)] pending_sub_dom [OF assms(1)]])

lemma ready_shrink_inv:
  assumes "ready_wf r"
  obtains removed r' where "remove_with_markers hs None r = Some (removed, r')" "ready_wf r'" "tx_id r' = tx_id r"
    "dom (ready_tx r') \<subseteq> dom (ready_tx r)" "provided_markers r' \<subseteq>\<^sub>m provided_markers r"
proof -
  have "ready_inv (set hs) {#} r" using assms unfolding ready_wf_def by (rule ready_inv_mono) simp
  from remove_with_markers_None [OF this] show thesis using that by blast
qed

lemma pending_shrink_inv:
  assumes "pending_wf p" "iter_law ord"
  shows "pending_wf (snd (pending_remove ord hs p))" "pending_sub (snd (pending_remove ord hs p)) p"
    "pending_wf (snd (remove_with_dependents ord hs ms p))" "pending_sub (snd (remove_with_dependents ord hs ms p)) p"
  using pending_remove_spec [OF assms, of hs] remove_with_dependents_spec [OF assms, of hs ms]
  by (auto intro: pending_sub_restrict)

lemma shrink_both_inv:
  assumes inv: "pool_inv n s" and "ready_wf r'" "tx_id r' = tx_id (inner_ready s)"
    "dom (ready_tx r') \<subseteq> dom (ready_tx (inner_ready s))" "provided_markers r' \<subseteq>\<^sub>m provided_markers (inner_ready s)"
    and p: "pending_wf p'" "pending_sub p' (inner_pending s)"
  shows "pool_inv n \<lparr>inner_ready = r', inner_pending = p'\<rparr>"
proof -
  have ok: "queues_ok (inner_ready s) (inner_pending s)" using inv by (simp add: pool_inv_def)
  have "queues_ok r' p'" by (rule queues_ok_sub [OF ok]) (use assms in simp_all)
  moreover have "pending_len p' \<le> pending_len (inner_pending s)"
    by (rule pending_len_sub [OF p(2) queues_okD(2) [OF ok]])
  ultimately show ?thesis using inv assms(3) by (simp add: pool_inv_def)
qed

lemma inner_remove_invalid_inv:
  assumes inv: "pool_inv n s" and law: "iter_law ord"
  shows "\<exists>removed s'. inner_remove_invalid ord hs s = Some (removed, s') \<and> pool_inv n s'"
proof -
  have ok: "queues_ok (inner_ready s) (inner_pending s)" using inv by (simp add: pool_inv_def)
  obtain removed r' where r': "remove_with_markers (rev hs) None (inner_ready s) = Some (removed, r')" "ready_wf r'"
    "tx_id r' = tx_id (inner_ready s)" "dom (ready_tx r') \<subseteq> dom (ready_tx (inner_ready s))"
    "provided_markers r' \<subseteq>\<^sub>m provided_markers (inner_ready s)"
    by (rule ready_shrink_inv [OF queues_okD(1) [OF ok]])
  note p = pending_shrink_inv [OF queues_okD(2) [OF ok] law, of hs]
  show ?thesis
    using inv r'(1) shrink_both_inv [OF inv r'(2-5) p(1,2)]
    by (simp add: inner_remove_invalid_def case_prod_beta Let_def)
qed

lemma drop_transaction_inv:
  assumes inv: "pool_inv n s" and law: "iter_law ord"
  shows "\<exists>res s'. drop_transaction ord h s = Some (res, s') \<and> pool_inv n s'"
proof -
  have ok: "queues_ok (inner_ready s) (inner_pending s)" using inv by (simp add: pool_inv_def)
  obtain removed r' where r': "remove_with_markers [h] None (inner_ready s) = Some (removed, r')" "ready_wf r'"
    "tx_id r' = tx_id (inner_ready s)" "dom (ready_tx r') \<subseteq> dom (ready_tx (inner_ready s))"
    "provided_markers r' \<subseteq>\<^sub>m provided_markers (inner_ready s)"
    by (rule ready_shrink_inv [OF queues_okD(1) [OF ok]])
  note p = pending_shrink_inv(3,4) [OF queues_okD(2) [OF ok] law, of "[h]" "concat (map provides removed)"]
  show ?thesis
    using r'(1) shrink_both_inv [OF inv r'(2-5) p]
    by (simp add: drop_transaction_def case_prod_beta Let_def)
qed

lemma chained_transactions_Some:
  assumes "pool_inv n s"
  obtains txs where "chained_transactions ord s = Some txs"
proof -
  have "ready_wf (inner_ready s)" using assms by (simp add: pool_inv_def queues_ok_def)
  from get_transactions_best_first [OF this] that show thesis by (auto simp: chained_transactions_def)
qed

lemma remove_by_address_inv:
  assumes inv: "pool_inv n s" and law: "iter_law ord"
  shows "\<exists>removed s'. inner_remove_transactions_by_address ord sender s = Some (removed, s') \<and> pool_inv n s'"
proof -
  obtain txs where txs: "chained_transactions ord s = Some txs" by (rule chained_transactions_Some [OF inv])
  have "inner_remove_transactions_by_address ord sender s =
      inner_remove_invalid ord (map tx_hash (filter (\<lambda>tx. tx_sender tx = sender) txs)) s"
    by (simp add: inner_remove_transactions_by_address_def transactions_by_sender_def txs inner_remove_invalid_def Let_def)
  then show ?thesis using inner_remove_invalid_inv [OF inv law] by simp
qed

lemma clear_transaction_type_inv:
  assumes inv: "pool_inv n s" and law: "iter_law ord"
  shows "\<exists>removed s'. clear_transaction_type ord ty s = Some (removed, s') \<and> pool_inv n s'"
proof -
  obtain txs where txs: "chained_transactions ord s = Some txs" by (rule chained_transactions_Some [OF inv])
  then show ?thesis using inner_remove_invalid_inv [OF inv law] by (simp add: clear_transaction_type_def)
qed

lemma inner_clear_inv: "pool_inv n s \<Longrightarrow> pool_inv n (inner_clear s)"
  by (auto simp: pool_inv_def inner_clear_def queues_ok_def ready_wf_clear pending_wf_clear)
    (auto simp: pending_clear_def ready_clear_def pending_marked_def missing_unprovided_def pending_len_def)

end
