(* ===== verification/Tx_Promote.thy ===== *)
theory Tx_Promote
  imports Tx_Pool
begin

text \<open>
  Promotion in the pool: \<open>add_transaction\<close>, \<open>add_ready_transaction\<close> and \<open>prune_markers\<close> of
  \<open>PoolInner\<close> and \<open>on_mined_block\<close> of \<open>Pool\<close> (crates/anvil/src/eth/pool/mod.rs) end, never panic and
  keep the invariant of \<open>Tx_Pool\<close>; every sequence of operations on the pool does.
\<close>

section \<open>Promotion\<close>

text \<open>The transactions on their way from the waiting to the ready queue.\<close>

abbreviation pt_hash :: "PendingPoolTransaction \<Rightarrow> TxHash" where
  "pt_hash t \<equiv> tx_hash (transaction t)"

definition import_ok :: "ReadyTransactions \<Rightarrow> PendingTransactions \<Rightarrow> PendingPoolTransaction list \<Rightarrow> bool" where
  "import_ok r p Q \<longleftrightarrow> distinct (map pt_hash Q) \<and>
     (\<forall>t \<in> set Q. is_ready t \<and> single_marked (transaction t)) \<and>
     pt_hash ` set Q \<inter> (dom (waiting_queue p) \<union> dom (ready_tx r)) = {}"

lemma import_ok_Cons:
  "import_ok r p (t # Q) \<longleftrightarrow> is_ready t \<and> single_marked (transaction t) \<and> pt_hash t \<notin> dom (waiting_queue p) \<and>
     pt_hash t \<notin> dom (ready_tx r) \<and> pt_hash t \<notin> pt_hash ` set Q \<and> import_ok r p Q"
  by (auto simp: import_ok_def)

lemma import_ok_sub:
  assumes "import_ok r p Q" "dom (ready_tx r') \<subseteq> dom (ready_tx r)" "dom (waiting_queue p') \<subseteq> dom (waiting_queue p)"
  shows "import_ok r' p' Q"
proof -
  let ?H = "pt_hash ` set Q"
  have "?H \<inter> (dom (waiting_queue p') \<union> dom (ready_tx r')) \<subseteq> ?H \<inter> (dom (waiting_queue p) \<union> dom (ready_tx r))"
    by (intro Int_mono Un_mono subset_refl assms(2,3))
  also have "\<dots> = {}" using assms(1) by (simp add: import_ok_def)
  finally have "?H \<inter> (dom (waiting_queue p') \<union> dom (ready_tx r')) = {}" by (simp only: subset_empty)
  with assms(1) show ?thesis by (simp add: import_ok_def)
qed

text \<open>What checking off the marker of a transaction gives.\<close>

lemma unlocked_import:
  assumes ok: "queues_ok r p"
    and q': "waiting_queue p' = (\<lambda>h. Option.bind (waiting_queue p h) (unlock_by ms))"
    and new: "set new = unlocked_by ms p" and dist: "distinct (map pt_hash new)"
  shows "import_ok r p' new" "pt_hash ` set new \<subseteq> dom (waiting_queue p)"
    "pending_len p' + length new = pending_len p"
proof -
  have entry: "entry_ok h t" if "waiting_queue p h = Some t" for h t
    using pending_wfD(2) [OF queues_okD(2) [OF ok] that] .
  have u: "\<exists>t. waiting_queue p (pt_hash u) = Some t \<and> missing_markers t \<subseteq> set ms \<and> u = t\<lparr>missing_markers := {}\<rparr>"
    if "u \<in> set new" for u
  proof -
    from that obtain h t where t: "waiting_queue p h = Some t" "missing_markers t \<subseteq> set ms" "u = t\<lparr>missing_markers := {}\<rparr>"
      unfolding new unlocked_by_def by blast
    moreover have "pt_hash u = h" using entry [OF t(1)] t(3) by (simp add: entry_ok_def)
    ultimately show ?thesis by blast
  qed
  show sub: "pt_hash ` set new \<subseteq> dom (waiting_queue p)" using u by blast
  have out: "pt_hash u \<notin> dom (waiting_queue p')" if "u \<in> set new" for u
    using u [OF that] by (auto simp: q' unlock_by_def bind_eq_Some_conv)
  have "is_ready v \<and> single_marked (transaction v)" if "v \<in> set new" for v
    using u [OF that] queues_okD(3) [OF ok] by (auto simp: is_ready_def pending_marked_def)
  moreover have "pt_hash ` set new \<inter> (dom (waiting_queue p') \<union> dom (ready_tx r)) = {}"
    using sub out queues_okD(4) [OF ok] by blast
  ultimately show "import_ok r p' new" using dist by (simp add: import_ok_def)
  have "dom (waiting_queue p) = dom (waiting_queue p') \<union> pt_hash ` set new"
  proof
    show "dom (waiting_queue p) \<subseteq> dom (waiting_queue p') \<union> pt_hash ` set new"
    proof
      fix h assume "h \<in> dom (waiting_queue p)"
      then obtain t where t: "waiting_queue p h = Some t" by blast
      show "h \<in> dom (waiting_queue p') \<union> pt_hash ` set new"
      proof (cases "missing_markers t \<subseteq> set ms")
        case True
        with t have "t\<lparr>missing_markers := {}\<rparr> \<in> set new" unfolding new unlocked_by_def by blast
        moreover have "pt_hash (t\<lparr>missing_markers := {}\<rparr>) = h" using entry [OF t] by (simp add: entry_ok_def)
        ultimately show ?thesis by (metis UnI2 imageI)
      next
        case False
        with t show ?thesis by (auto simp: q' unlock_by_def)
      qed
    qed
    show "dom (waiting_queue p') \<union> pt_hash ` set new \<subseteq> dom (waiting_queue p)"
      using sub pending_sub_dom [OF pending_sub_unlock [OF q']] by blast
  qed
  moreover have "dom (waiting_queue p') \<inter> pt_hash ` set new = {}" using out by blast
  moreover have "finite (dom (waiting_queue p))" by (rule pending_wfD(1) [OF queues_okD(2) [OF ok]])
  ultimately have "pending_len p = pending_len p' + card (pt_hash ` set new)"
    unfolding pending_len_def by (metis card_Un_disjoint finite_Un)
  moreover have "card (pt_hash ` set new) = length new"
    using distinct_card [OF dist] by simp
  ultimately show "pending_len p' + length new = pending_len p" by simp
qed

lemma unlock_unprovided:
  assumes ok: "queues_ok r p" and k: "provided_markers r k \<noteq> None"
  shows "(\<lambda>h. Option.bind (waiting_queue p h) (unlock_by [k])) = waiting_queue p" "unlocked_by [k] p = {}"
proof -
  have e: "unlock_by [k] t = Some t \<and> \<not> missing_markers t \<subseteq> set [k]" if "waiting_queue p h = Some t" for h t
  proof -
    have "k \<notin> missing_markers t" using queues_okD(5) [OF ok] that k by (auto simp: missing_unprovided_def)
    moreover have "missing_markers t \<noteq> {}"
      using pending_wfD(2) [OF queues_okD(2) [OF ok] that] by (simp add: entry_ok_def)
    ultimately have "\<not> missing_markers t \<subseteq> set [k]" "missing_markers t - {k} = missing_markers t" by auto
    then show ?thesis by (simp add: unlock_by_def)
  qed
  show "(\<lambda>h. Option.bind (waiting_queue p h) (unlock_by [k])) = waiting_queue p"
  proof
    fix h show "Option.bind (waiting_queue p h) (unlock_by [k]) = waiting_queue p h"
      using e by (cases "waiting_queue p h") auto
  qed
  show "unlocked_by [k] p = {}" using e unfolding unlocked_by_def by blast
qed

lemma import_okD:
  assumes "import_ok r p Q"
  shows "distinct (map pt_hash Q)" "\<forall>t \<in> set Q. is_ready t \<and> single_marked (transaction t)"
    "pt_hash ` set Q \<inter> (dom (waiting_queue p) \<union> dom (ready_tx r)) = {}"
  using assms by (simp_all add: import_ok_def)

lemma disjoint_mono: "A \<inter> (B \<union> C) = {} \<Longrightarrow> D \<subseteq> B \<Longrightarrow> A \<inter> D = {}"
  by blast

lemma disjoint_grow:
  "A \<inter> (B \<union> C) = {} \<Longrightarrow> x \<notin> A \<Longrightarrow> B' \<subseteq> B \<Longrightarrow> C' \<subseteq> insert x C \<Longrightarrow> A \<inter> (B' \<union> C') = {}"
  by blast

lemma import_ok_join:
  assumes "import_ok r p A" "import_ok r p B" "pt_hash ` set A \<inter> pt_hash ` set B = {}"
  shows "import_ok r p (A @ B)"
  using import_okD [OF assms(1)] import_okD [OF assms(2)] assms(3)
  unfolding import_ok_def map_append distinct_append set_append set_map image_Un Int_Un_distrib2 ball_Un by simp

lemma import_ok_append: "import_ok r p (A @ B) \<Longrightarrow> import_ok r p B"
  by (auto simp: import_ok_def)

section \<open>One promotion\<close>

lemma promote_refused:
  assumes ok: "queues_ok r p" and law: "iter_law ord" and i: "tx_id r < tx_id r + 1"
    and Q: "import_ok r p (t # Q)" and up: "underpriced r (transaction t)"
  shows "mark_and_unlock ord (provides (transaction t)) p = Some ([], p)"
    "ready_add_transaction ord t r = Some (Inl (ReplacementUnderpriced (pt_hash t)), r)"
proof -
  have sm: "single_marked (transaction t)" and rdy: "is_ready t" and fr: "ready_tx r (pt_hash t) = None"
    using Q by (auto simp: import_ok_Cons)
  let ?k = "the_marker (transaction t)"
  have p: "provides (transaction t) = [?k]" using single_markedD [OF sm] by simp
  have "provided_markers r ?k \<noteq> None" using up by (auto simp: underpriced_def ready_rival_def bind_eq_Some_conv)
  note un = unlock_unprovided [OF ok this]
  obtain new p' where m: "mark_and_unlock_loop ord [?k] [] p = Some ([] @ new, p')" "pending_wf p'"
      "waiting_queue p' = (\<lambda>h. Option.bind (waiting_queue p h) (unlock_by [?k]))" "set new = unlocked_by [?k] p"
    using mark_and_unlock_loop_spec [OF queues_okD(2) [OF ok] law, of "[?k]" "[]"] by blast
  have "p' = p" using pending_wf_ext [OF m(2) queues_okD(2) [OF ok]] m(3) un(1) by simp
  moreover have "new = []" using m(4) un(2) by simp
  ultimately show "mark_and_unlock ord (provides (transaction t)) p = Some ([], p)"
    using m(1) by (simp add: mark_and_unlock_def p)
  show "ready_add_transaction ord t r = Some (Inl (ReplacementUnderpriced (pt_hash t)), r)"
    using ready_add_spec [OF queues_okD(1) [OF ok] law rdy fr sm i] up by simp
qed

lemma promote_accepted:
  assumes ok: "queues_ok r p" and law: "iter_law ord" and i: "tx_id r < tx_id r + 1"
    and Q: "import_ok r p (t # Q)" and up: "\<not> underpriced r (transaction t)"
  shows "\<exists>unlocked p' replaced r'. mark_and_unlock ord (provides (transaction t)) p = Some (unlocked, p') \<and>
    ready_add_transaction ord t r = Some (Inr replaced, r') \<and> queues_ok r' p' \<and> import_ok r' p' (Q @ unlocked) \<and>
    tx_id r' = tx_id r + 1 \<and> pending_len p' + length unlocked = pending_len p \<and> pending_sub p' p"
proof -
  let ?tx = "transaction t" let ?k = "the_marker ?tx" let ?h = "tx_hash ?tx"
  have sm: "single_marked ?tx" and rdy: "is_ready t" and fr: "ready_tx r ?h = None" and fp: "?h \<notin> dom (waiting_queue p)"
    and nQ: "?h \<notin> pt_hash ` set Q" and imQ: "import_ok r p Q"
    using Q by (auto simp: import_ok_Cons)
  have pv: "provides ?tx = [?k]" using single_markedD [OF sm] by simp
  obtain new p' where m: "mark_and_unlock_loop ord [?k] [] p = Some ([] @ new, p')" and wf': "pending_wf p'"
      and q': "waiting_queue p' = (\<lambda>h. Option.bind (waiting_queue p h) (unlock_by [?k]))"
      and new: "set new = unlocked_by [?k] p" "distinct (map pt_hash new)"
    using mark_and_unlock_loop_spec [OF queues_okD(2) [OF ok] law, of "[?k]" "[]"] by blast
  note imp = unlocked_import [OF ok q' new] and sub = pending_sub_unlock [OF q']
  obtain replaced r1 r' where add: "ready_add_transaction ord t r = Some (Inr replaced, r')" "ready_wf r'"
    and grown: "grown ?tx r1 r'"
    and rv: "case ready_rival r ?tx of None \<Rightarrow> replaced = [] \<and> r1 = r
       | Some t \<Rightarrow> replaced = [rt_tx t] \<and> tx_id r1 = tx_id r \<and> provided_markers r1 = provided_markers r \<and>
           taken_out (tx_hash (rt_tx t)) (ready_tx r) (ready_tx r1)"
    using ready_add_spec [OF queues_okD(1) [OF ok] law rdy fr sm i] up by auto
  have r1: "tx_id r1 = tx_id r" "provided_markers r1 = provided_markers r" "dom (ready_tx r1) \<subseteq> dom (ready_tx r)"
    using rv by (simp_all split: option.splits) (elim conjE, drule taken_out_dom, blast)
  have r': "dom (ready_tx r') \<subseteq> insert ?h (dom (ready_tx r))" "provided_markers r' = (provided_markers r)(?k \<mapsto> ?h)"
      "tx_id r' = tx_id r + 1"
    using grown r1 by (auto simp: grown_def)
  have "dom (waiting_queue p') \<inter> dom (ready_tx r') = {}"
    using queues_okD(4) [OF ok] fp r'(1) pending_sub_dom [OF sub] by blast
  moreover have "pending_marked p'"
    using queues_okD(3) [OF ok] pending_subD [OF sub] unfolding pending_marked_def by metis
  moreover have "missing_unprovided p' r'"
    unfolding missing_unprovided_def
  proof (intro allI impI)
    fix h u' m assume u': "waiting_queue p' h = Some u'" and m: "m \<in> missing_markers u'"
    from u' obtain u where u: "waiting_queue p h = Some u" "unlock_by [?k] u = Some u'"
      by (auto simp: q' bind_eq_Some_conv)
    with m have "m \<noteq> ?k" "m \<in> missing_markers u" by (auto simp: unlock_by_def split: if_splits)
    with u(1) queues_okD(5) [OF ok] show "provided_markers r' m = None" by (auto simp: r'(2) missing_unprovided_def)
  qed
  ultimately have ok': "queues_ok r' p'" using add(2) wf' by (simp add: queues_ok_def)
  have "import_ok r' p' (Q @ new)"
  proof (rule import_ok_join)
    show "import_ok r' p' Q"
      using imQ disjoint_grow [OF import_okD(3) [OF imQ] nQ pending_sub_dom [OF sub] r'(1)] by (simp add: import_ok_def)
    have "?h \<notin> pt_hash ` set new" using imp(2) fp by blast
    from disjoint_grow [OF import_okD(3) [OF imp(1)] this subset_refl r'(1)] imp(1)
    show "import_ok r' p' new" by (simp add: import_ok_def)
    show "pt_hash ` set Q \<inter> pt_hash ` set new = {}"
      by (rule disjoint_mono [OF import_okD(3) [OF imQ] imp(2)])
  qed
  moreover have "mark_and_unlock ord (provides ?tx) p = Some (new, p')" using m by (simp add: mark_and_unlock_def pv)
  ultimately show ?thesis using add(1) ok' r'(3) imp(3) sub by blast
qed

section \<open>The chain of promotions\<close>

lemma import_ok_perm: "import_ok r p A \<Longrightarrow> mset A = mset B \<Longrightarrow> import_ok r p B"
  using mset_eq_setD [of A B] mset_eq_imp_distinct_iff [of "map pt_hash A" "map pt_hash B"]
  by (simp add: import_ok_def)

lemma inner_eta: "\<lparr>inner_ready = inner_ready s, inner_pending = inner_pending s\<rparr> = s"
  by simp

lemma counter_room: "unat (i :: u64) + 1 < 2 ^ 64 \<Longrightarrow> i < i + 1 \<and> unat (i + 1) = unat i + 1"
  by (simp add: word_less_nat_alt unat_word_ariths)

definition room :: "nat \<Rightarrow> nat \<Rightarrow> PoolInner \<Rightarrow> bool" where
  "room n k s \<longleftrightarrow> n < 2 ^ 64 \<and> unat (tx_id (inner_ready s)) + pending_len (inner_pending s) + k \<le> n"

text \<open>
  The loop ends: each turn takes one transaction from the queue and moves the unlocked ones out of
  the waiting queue. The transactions \<open>X\<close> are those the caller still has to import.
\<close>

lemma add_ready_loop_spec:
  assumes "iter_law ord" "queues_ok (inner_ready s) (inner_pending s)"
    "import_ok (inner_ready s) (inner_pending s) (Q @ X)" "room n (length Q + length X) s"
  shows "\<exists>res s'. add_ready_loop ord Q is_new ready s = Some (res, s') \<and>
    queues_ok (inner_ready s') (inner_pending s') \<and> import_ok (inner_ready s') (inner_pending s') X \<and>
    room n (length X) s' \<and> pending_sub (inner_pending s') (inner_pending s) \<and>
    (\<forall>e. res = Inl e \<longrightarrow> is_new \<and> s' = s \<and> Q \<noteq> [] \<and> e = ReplacementUnderpriced (pt_hash (hd Q)))"
  using assms
proof (induction "length Q + pending_len (inner_pending s)" arbitrary: Q s is_new ready rule: less_induct)
  case less
  let ?r = "inner_ready s" let ?p = "inner_pending s"
  show ?case
  proof (cases Q)
    case Nil
    with less.prems show ?thesis by (subst add_ready_loop.simps) (simp add: pending_sub_refl)
  next
    case (Cons t rest)
    have im: "import_ok ?r ?p (t # rest @ X)" using less.prems(3) Cons by simp
    have i: "tx_id ?r < tx_id ?r + 1" and id: "unat (tx_id ?r + 1) = unat (tx_id ?r) + 1"
      using less.prems(4) Cons counter_room [of "tx_id ?r"] by (auto simp: room_def)
    show ?thesis
    proof (cases "underpriced ?r (transaction t)")
      case True
      note ref = promote_refused [OF less.prems(2) less.prems(1) i im True]
      have im': "import_ok ?r ?p (rest @ X)" using im by (simp add: import_ok_Cons)
      have "room n (length rest + length X) s" "room n (length X) s" using less.prems(4) Cons by (auto simp: room_def)
      moreover have "import_ok ?r ?p X" using im' import_ok_append by blast
      moreover define ready' where "ready' = ready\<lparr>ar_discarded := ar_discarded ready @ [pt_hash t]\<rparr>"
      moreover have "add_ready_loop ord Q is_new ready s =
          (if is_new then Some (Inl (ReplacementUnderpriced (pt_hash t)), s) else add_ready_loop ord rest False ready' s)"
        using Cons ref by (subst add_ready_loop.simps) (simp add: Let_def ready'_def inner_eta)
      moreover have "length rest + pending_len ?p < length Q + pending_len ?p" using Cons by simp
      note less.hyps [OF this less.prems(1,2) im', of False ready']
      ultimately show ?thesis using less.prems(2) Cons pending_sub_refl [of ?p] by (cases is_new) fastforce+
    next
      case False
      then obtain unlocked p' replaced r' where st: "mark_and_unlock ord (provides (transaction t)) ?p = Some (unlocked, p')"
          "ready_add_transaction ord t ?r = Some (Inr replaced, r')" and ok': "queues_ok r' p'"
          and im': "import_ok r' p' ((rest @ X) @ unlocked)" and i': "tx_id r' = tx_id ?r + 1"
          and len: "pending_len p' + length unlocked = pending_len ?p" and sub: "pending_sub p' ?p"
        using promote_accepted [OF less.prems(2) less.prems(1) i im] by blast
      let ?s = "\<lparr>inner_ready = r', inner_pending = p'\<rparr>"
      have im'': "import_ok r' p' ((rest @ unlocked) @ X)" by (rule import_ok_perm [OF im']) simp
      have room: "room n (length (rest @ unlocked) + length X) ?s"
        using less.prems(4) Cons len by (simp add: room_def i' id)
      have dec: "length (rest @ unlocked) + pending_len (inner_pending ?s) < length Q + pending_len ?p"
        using len Cons by simp
      define ready' where "ready' = ready\<lparr>ar_promoted := (if is_new then ar_promoted ready else ar_promoted ready @ [pt_hash t]),
          ar_removed := ar_removed ready @ replaced\<rparr>"
      have "add_ready_loop ord Q is_new ready s = add_ready_loop ord (rest @ unlocked) False ready' ?s"
        using Cons st by (subst add_ready_loop.simps) (simp add: Let_def ready'_def)
      then show ?thesis
        using less.hyps [OF dec less.prems(1) _ _ room, of False ready'] ok' im'' pending_sub_trans [OF _ sub] by fastforce
    qed
  qed
qed

section \<open>The operations of the pool\<close>

lemma room_shrink:
  assumes "room n k s" "tx_id (inner_ready s') = tx_id (inner_ready s)"
    "pending_len (inner_pending s') + k' \<le> pending_len (inner_pending s) + k"
  shows "room n k' s'"
  using assms by (simp add: room_def)

lemma pool_inv_room: "pool_inv n s \<Longrightarrow> n + k < 2 ^ 64 \<Longrightarrow> room (n + k) k s"
  by (simp add: pool_inv_def room_def)

lemma room_pool_inv: "queues_ok (inner_ready s) (inner_pending s) \<Longrightarrow> room n 0 s \<Longrightarrow> pool_inv n s"
  by (simp add: pool_inv_def room_def)

lemma add_ready_transaction_spec:
  assumes law: "iter_law ord" and ok: "queues_ok (inner_ready s) (inner_pending s)"
    and im: "import_ok (inner_ready s) (inner_pending s) (t # X)" and room: "room n (Suc (length X)) s"
  shows "\<exists>res s'. add_ready_transaction ord t s = Some (res, s') \<and> queues_ok (inner_ready s') (inner_pending s') \<and>
    import_ok (inner_ready s') (inner_pending s') X \<and> room n (length X) s' \<and>
    pending_sub (inner_pending s') (inner_pending s) \<and>
    (\<forall>e. res = Inl e \<longrightarrow> e = CyclicTransaction \<or> e = ReplacementUnderpriced (pt_hash t) \<and> s' = s)"
proof -
  obtain res s' where s': "add_ready_loop ord [t] True (AddedReadyTransaction_new (pt_hash t)) s = Some (res, s')"
      "queues_ok (inner_ready s') (inner_pending s')" "import_ok (inner_ready s') (inner_pending s') X"
      "room n (length X) s'" "pending_sub (inner_pending s') (inner_pending s)" "\<And>e. res = Inl e \<Longrightarrow> s' = s \<and> e = ReplacementUnderpriced (pt_hash t)"
    using add_ready_loop_spec [OF law ok, of "[t]" X n True "AddedReadyTransaction_new (pt_hash t)"] im room by auto
  show ?thesis
  proof (cases res)
    case (Inl e)
    with s'(1) s'(6) [OF Inl] ok s'(3-5) show ?thesis by (simp add: add_ready_transaction_def)
  next
    case (Inr ready)
    obtain removed r where r: "remove_with_markers (rev (ar_promoted ready)) None (inner_ready s') = Some (removed, r)"
        "ready_wf r" "tx_id r = tx_id (inner_ready s')" "dom (ready_tx r) \<subseteq> dom (ready_tx (inner_ready s'))"
        "provided_markers r \<subseteq>\<^sub>m provided_markers (inner_ready s')"
      by (rule ready_shrink_inv [OF queues_okD(1) [OF s'(2)]])
    let ?s = "s'\<lparr>inner_ready := r\<rparr>"
    have "queues_ok (inner_ready ?s) (inner_pending ?s)"
      using queues_ok_sub [OF s'(2) r(2) queues_okD(2) [OF s'(2)] _ r(4,5)] by (simp add: pending_sub_def)
    moreover have "import_ok (inner_ready ?s) (inner_pending ?s) X"
      using import_ok_sub [OF s'(3) r(4) subset_refl] by simp
    moreover have "room n (length X) ?s" using s'(4) r(3) by (simp add: room_def)
    ultimately show ?thesis using s' r(1) Inr by (simp add: add_ready_transaction_def clear_transactions_def)
  qed
qed

lemma new_pending_entry:
  assumes "\<not> is_ready (PendingPoolTransaction_new tx provided)"
  shows "entry_ok (tx_hash tx) (PendingPoolTransaction_new tx provided)"
    "m \<in> missing_markers (PendingPoolTransaction_new tx provided) \<Longrightarrow> provided m = None"
  using assms by (auto simp: PendingPoolTransaction_new_def entry_ok_def is_ready_def)

lemma pending_len_add:
  assumes "waiting_queue p' = (waiting_queue p |` A)(h \<mapsto> t)" "pending_wf p"
  shows "pending_len p' \<le> Suc (pending_len p)"
proof -
  have fin: "finite (dom (waiting_queue p))" using pending_wfD(1) [OF assms(2)] .
  have "card (insert h (dom (waiting_queue p) \<inter> A)) \<le> Suc (card (dom (waiting_queue p) \<inter> A))"
    by (rule card_insert_le_m1) simp_all
  also have "card (dom (waiting_queue p) \<inter> A) \<le> card (dom (waiting_queue p))" by (rule card_mono [OF fin]) simp
  finally show ?thesis by (simp add: pending_len_def assms(1))
qed

lemma inner_add_transaction_inv:
  assumes law: "iter_law ord" and inv: "pool_inv n s" and n: "Suc n < 2 ^ 64" and sm: "single_marked tx"
  shows "\<exists>res s'. inner_add_transaction ord tx s = Some (res, s') \<and> pool_inv (Suc n) s' \<and>
    (\<forall>e. res = Inl e \<longrightarrow> e = CyclicTransaction \<or>
       (e = AlreadyImported (tx_hash tx) \<or> e = ReplacementUnderpriced (tx_hash tx)) \<and> s' = s)"
proof -
  let ?r = "inner_ready s" let ?p = "inner_pending s"
  let ?t = "PendingPoolTransaction_new tx (provided_markers ?r)"
  have ok: "queues_ok ?r ?p" using inv by (simp add: pool_inv_def)
  have inv': "pool_inv (Suc n) s" using inv by (simp add: pool_inv_def)
  have tr: "transaction ?t = tx" by (simp add: PendingPoolTransaction_new_def)
  consider (known) "inner_contains s (tx_hash tx)"
    | (ready) "\<not> inner_contains s (tx_hash tx)" "is_ready ?t" | (waits) "\<not> inner_contains s (tx_hash tx)" "\<not> is_ready ?t"
    by blast
  then show ?thesis
  proof cases
    case known
    with inv' show ?thesis by (simp add: inner_add_transaction_def)
  next
    case ready
    then have "import_ok ?r ?p [?t]"
      using sm tr by (auto simp: import_ok_def inner_contains_def pending_contains_def ready_contains_def)
    from add_ready_transaction_spec [OF law ok this] pool_inv_room [OF inv, of 1] n ready room_pool_inv
    show ?thesis by (fastforce simp: inner_add_transaction_def tr)
  next
    case waits
    note entry = new_pending_entry [OF waits(2)]
    have fresh: "waiting_queue ?p (tx_hash tx) = None" "tx_hash tx \<notin> dom (ready_tx ?r)"
      using waits(1) by (auto simp: inner_contains_def pending_contains_def ready_contains_def)
    obtain res p' where p': "pending_add_transaction ord ?t ?p = Some (res, p')" "pending_wf p'"
      and res: "case res of Inl e \<Rightarrow> p' = ?p \<and> e = ReplacementUnderpriced (tx_hash tx)
         | Inr _ \<Rightarrow> \<exists>A. waiting_queue p' = (waiting_queue ?p |` A)(tx_hash tx \<mapsto> ?t)"
      using pending_add_spec [OF queues_okD(2) [OF ok] law, of ?t] entry(1) fresh(1)
      by (fastforce simp: tr split: sum.splits)
    show ?thesis
    proof (cases res)
      case (Inl e)
      with res p'(1) waits inv' show ?thesis by (simp add: inner_add_transaction_def inner_eta)
    next
      case (Inr u)
      then obtain A where q': "waiting_queue p' = (waiting_queue ?p |` A)(tx_hash tx \<mapsto> ?t)" using res by auto
      have "queues_ok ?r p'"
        unfolding queues_ok_def
      proof (intro conjI)
        show "pending_marked p'" using queues_okD(3) [OF ok] sm tr by (auto simp: pending_marked_def q' restrict_map_def)
        show "dom (waiting_queue p') \<inter> dom (ready_tx ?r) = {}" using queues_okD(4) [OF ok] fresh(2) by (auto simp: q')
        show "missing_unprovided p' ?r"
          using queues_okD(5) [OF ok] entry(2) by (auto simp: missing_unprovided_def q' restrict_map_def)
      qed (use ok p'(2) in \<open>simp_all add: queues_ok_def\<close>)
      moreover have "pending_len p' \<le> Suc (pending_len ?p)" by (rule pending_len_add [OF q' queues_okD(2) [OF ok]])
      ultimately have "pool_inv (Suc n) (s\<lparr>inner_pending := p'\<rparr>)" using inv by (simp add: pool_inv_def)
      with Inr p'(1) waits show ?thesis by (simp add: inner_add_transaction_def)
    qed
  qed
qed

section \<open>Pruning\<close>

lemma prune_tags_shrunk:
  assumes "ready_wf r"
  obtains removed r' where "prune_tags m r = Some (removed, r')" "ready_wf r'" "shrunk r r'" "provided_markers r' m = None"
  using prune_loop_spec [OF assms, of "[m]" UNIV] that by (auto simp: prune_tags_def closed_back_def)

text \<open>One round of the first loop of \<open>prune_markers\<close>.\<close>

lemma prune_round:
  assumes law: "iter_law ord" and ok: "queues_ok r p" and im: "import_ok r p ims"
  shows "\<exists>new p' removed r'. mark_and_unlock ord [m] p = Some (new, p') \<and> prune_tags m r = Some (removed, r') \<and>
    queues_ok r' p' \<and> import_ok r' p' (ims @ new) \<and> tx_id r' = tx_id r \<and>
    pending_len p' + length new = pending_len p \<and> pending_sub p' p \<and>
    (\<forall>h t. waiting_queue p' h = Some t \<longrightarrow> m \<notin> missing_markers t)"
proof -
  obtain new p' where m: "mark_and_unlock_loop ord [m] [] p = Some ([] @ new, p')" and wf': "pending_wf p'"
      and q': "waiting_queue p' = (\<lambda>h. Option.bind (waiting_queue p h) (unlock_by [m]))"
      and new: "set new = unlocked_by [m] p" "distinct (map pt_hash new)"
    using mark_and_unlock_loop_spec [OF queues_okD(2) [OF ok] law, of "[m]" "[]"] by blast
  obtain removed r' where r': "prune_tags m r = Some (removed, r')" "ready_wf r'" "shrunk r r'"
    by (rule prune_tags_shrunk [OF queues_okD(1) [OF ok]])
  note imp = unlocked_import [OF ok q' new] and sub = pending_sub_unlock [OF q'] and sh = shrunkD(1,2,4) [OF r'(3)]
  have "queues_ok r' p'" by (rule queues_ok_sub [OF ok r'(2) wf' sub sh(2,3)])
  moreover have "import_ok r' p' (ims @ new)"
  proof -
    have "pt_hash ` set ims \<inter> pt_hash ` set new = {}" by (rule disjoint_mono [OF import_okD(3) [OF im] imp(2)])
    moreover have im': "import_ok r' p' ims" by (rule import_ok_sub [OF im sh(2) pending_sub_dom [OF sub]])
    moreover have new': "import_ok r' p' new" by (rule import_ok_sub [OF imp(1) sh(2) subset_refl])
    ultimately show ?thesis by (intro import_ok_join)
  qed
  moreover have "m \<notin> missing_markers t" if "waiting_queue p' h = Some t" for h t
    using that by (auto simp: q' bind_eq_Some_conv unlock_by_def split: if_splits)
  moreover have "mark_and_unlock ord [m] p = Some (new, p')" using m by (simp add: mark_and_unlock_def)
  ultimately show ?thesis using r'(1) sh(1) imp(3) sub by blast
qed

definition checked_off :: "TxMarker set \<Rightarrow> PendingTransactions \<Rightarrow> bool" where
  "checked_off M p \<longleftrightarrow> (\<forall>h t. waiting_queue p h = Some t \<longrightarrow> missing_markers t \<inter> M = {})"

lemma checked_off_sub: "checked_off M p \<Longrightarrow> pending_sub p' p \<Longrightarrow> checked_off M p'"
  unfolding checked_off_def using pending_subD by blast

lemma prune_collect_spec:
  assumes "iter_law ord" "queues_ok (inner_ready s) (inner_pending s)"
    "import_ok (inner_ready s) (inner_pending s) ims" "room n (length ims) s"
    "checked_off M (inner_pending s)"
  shows "\<exists>ims' pruned' s'. prune_collect ord ms ims pruned s = Some (ims', pruned', s') \<and>
    queues_ok (inner_ready s') (inner_pending s') \<and> import_ok (inner_ready s') (inner_pending s') ims' \<and>
    room n (length ims') s' \<and> pending_sub (inner_pending s') (inner_pending s) \<and>
    checked_off (M \<union> set ms) (inner_pending s')"
  using assms
proof (induction ms arbitrary: ims pruned s M)
  case Nil
  then show ?case by (simp add: pending_sub_refl)
next
  case (Cons m ms)
  obtain new p' removed r' where r: "mark_and_unlock ord [m] (inner_pending s) = Some (new, p')"
      "prune_tags m (inner_ready s) = Some (removed, r')" and ok': "queues_ok r' p'" and im': "import_ok r' p' (ims @ new)"
      and id: "tx_id r' = tx_id (inner_ready s)" and len: "pending_len p' + length new = pending_len (inner_pending s)"
      and sub: "pending_sub p' (inner_pending s)" and off: "\<forall>h t. waiting_queue p' h = Some t \<longrightarrow> m \<notin> missing_markers t"
    using prune_round [OF Cons.prems(1-3), of m] by blast
  let ?s = "\<lparr>inner_ready = r', inner_pending = p'\<rparr>"
  have off': "checked_off (insert m M) (inner_pending ?s)"
    using checked_off_sub [OF Cons.prems(5) sub] off by (simp add: checked_off_def)
  have room: "room n (length (ims @ new)) ?s"
    by (rule room_shrink [OF Cons.prems(4)]) (use id len in simp_all)
  have "prune_collect ord (m # ms) ims pruned s = prune_collect ord ms (ims @ new) (pruned @ removed) ?s"
    using r by simp
  then show ?case
    using Cons.IH [OF Cons.prems(1) _ _ room off', of "pruned @ removed"] ok' im' pending_sub_trans [OF _ sub]
    by fastforce
qed

lemma import_all_spec:
  assumes "iter_law ord" "queues_ok (inner_ready s) (inner_pending s)"
    "import_ok (inner_ready s) (inner_pending s) ts" "room n (length ts) s"
  shows "\<exists>promoted' failed' s'. import_all ord ts promoted failed s = Some (promoted', failed', s') \<and>
    queues_ok (inner_ready s') (inner_pending s') \<and> room n 0 s' \<and> pending_sub (inner_pending s') (inner_pending s)"
  using assms
proof (induction ts arbitrary: promoted failed s)
  case Nil
  then show ?case by (simp add: pending_sub_refl)
next
  case (Cons t ts)
  obtain res s' where s': "add_ready_transaction ord t s = Some (res, s')" "queues_ok (inner_ready s') (inner_pending s')"
      "import_ok (inner_ready s') (inner_pending s') ts" "room n (length ts) s'"
      and sub: "pending_sub (inner_pending s') (inner_pending s)"
    using add_ready_transaction_spec [OF Cons.prems(1-3), of n] Cons.prems(4) by auto
  show ?case
    using Cons.IH [OF Cons.prems(1) s'(2-4)] s'(1) pending_sub_trans [OF _ sub]
    by (cases res) (simp_all, fastforce+)
qed

lemma inner_prune_markers_inv:
  assumes law: "iter_law ord" and inv: "pool_inv n s" and n: "n < 2 ^ 64"
  shows "\<exists>res s'. inner_prune_markers ord markers s = Some (res, s') \<and> pool_inv n s' \<and>
    pending_sub (inner_pending s') (inner_pending s) \<and> checked_off (set markers) (inner_pending s')"
proof -
  have ok: "queues_ok (inner_ready s) (inner_pending s)" using inv by (simp add: pool_inv_def)
  have "import_ok (inner_ready s) (inner_pending s) []" "room n (length []) s" "checked_off {} (inner_pending s)"
    using pool_inv_room [OF inv, of 0] n by (simp_all add: import_ok_def checked_off_def)
  from prune_collect_spec [OF law ok this, of markers "[]"] obtain ims pruned s1
    where s1: "prune_collect ord markers [] [] s = Some (ims, pruned, s1)"
      "queues_ok (inner_ready s1) (inner_pending s1)" "import_ok (inner_ready s1) (inner_pending s1) ims"
      "room n (length ims) s1" and sub: "pending_sub (inner_pending s1) (inner_pending s)"
      and off: "checked_off (set markers) (inner_pending s1)" by auto
  from import_all_spec [OF law s1(2-4), of "[]" "[]"] obtain promoted failed s2
    where s2: "import_all ord ims [] [] s1 = Some (promoted, failed, s2)"
      "queues_ok (inner_ready s2) (inner_pending s2)" "room n 0 s2" and sub2: "pending_sub (inner_pending s2) (inner_pending s1)"
    by blast
  show ?thesis
    using s1(1) s2(1) room_pool_inv [OF s2(2,3)] pending_sub_trans [OF sub2 sub] checked_off_sub [OF off sub2]
    by (simp add: inner_prune_markers_def)
qed

end
