(* ===== verification/Tx_Run.thy ===== *)
theory Tx_Run
  imports Tx_Promote
begin

text \<open>
  Sequences of operations on the pool of Anvil (crates/anvil/src/eth/pool/mod.rs): the operations that
  change a \<open>Pool\<close> as the steps of a run, and what holds in every pool that a run reaches.
\<close>

section \<open>Operations as steps\<close>

datatype 'c PoolOp =
    AddTransaction PoolTransaction
  | PruneMarkers "TxMarker list"
  | OnMinedBlock MinedBlockOutcome
  | Renotify "TxHash list"
  | RemoveInvalid "TxHash list"
  | RemoveByAddress "160 word"
  | DropTransaction TxHash
  | ClearType u8
  | ClearPool
  | AddListener 'c

definition on_inner :: "(PoolInner \<Rightarrow> ('a \<times> PoolInner) option) \<Rightarrow> 'c Pool \<Rightarrow> 'c Pool option" where
  "on_inner f pool = map_option (\<lambda>(_, s). pool\<lparr>pool_inner := s\<rparr>) (f (pool_inner pool))"

fun run_op :: "'c TrySend \<Rightarrow> IterOrder \<Rightarrow> 'c PoolOp \<Rightarrow> 'c Pool \<Rightarrow> 'c Pool option" where
  "run_op try_send ord (AddTransaction tx) pool = map_option snd (pool_add_transaction try_send ord tx pool)"
| "run_op try_send ord (PruneMarkers ms) pool = map_option snd (pool_prune_markers try_send ord ms pool)"
| "run_op try_send ord (OnMinedBlock outcome) pool = map_option (snd \<circ> snd) (on_mined_block try_send ord outcome pool)"
| "run_op try_send ord (Renotify hs) pool = notify_hashes try_send hs pool"
| "run_op try_send ord (RemoveInvalid hs) pool = on_inner (inner_remove_invalid ord hs) pool"
| "run_op try_send ord (RemoveByAddress a) pool = on_inner (inner_remove_transactions_by_address ord a) pool"
| "run_op try_send ord (DropTransaction h) pool = on_inner (drop_transaction ord h) pool"
| "run_op try_send ord (ClearType ty) pool = on_inner (clear_transaction_type ord ty) pool"
| "run_op try_send ord ClearPool pool = Some (pool\<lparr>pool_inner := inner_clear (pool_inner pool)\<rparr>)"
| "run_op try_send ord (AddListener c) pool = Some (add_ready_listener c pool)"

text \<open>Every caller builds its transactions with one marker, which the transaction does not require.\<close>

fun op_ok :: "'c PoolOp \<Rightarrow> bool" where
  "op_ok (AddTransaction tx) \<longleftrightarrow> single_marked tx"
| "op_ok _ \<longleftrightarrow> True"

text \<open>
  The pools after \<open>n\<close> steps. The order in which a hash table is visited and what the channels do
  with a hash are chosen anew in each step. The queues of a pool of one run may be restored in
  another; that a snapshot keeps them is shown in the theory \<open>Tx_Share\<close>.
\<close>

inductive pool_run :: "nat \<Rightarrow> 'c Pool \<Rightarrow> bool" where
  start: "pool_run 0 pool_new"
| step: "pool_run n pool \<Longrightarrow> iter_law ord \<Longrightarrow> op_ok op \<Longrightarrow> run_op try_send ord op pool = Some pool' \<Longrightarrow>
    pool_run (Suc n) pool'"
| restore: "pool_run n pool \<Longrightarrow> pool_run m old \<Longrightarrow> pool_restore try_send (pool_inner old) pool = Some pool' \<Longrightarrow>
    pool_run (Suc (max m n)) pool'"

section \<open>Notification\<close>

text \<open>What becomes of one channel: it stays unless it is disconnected.\<close>

definition delivered :: "'c TrySend \<Rightarrow> TxHash \<Rightarrow> 'c \<Rightarrow> 'c option" where
  "delivered try_send h c = (case try_send c h of (c', Disconnected) \<Rightarrow> None | (c', _) \<Rightarrow> Some c')"

fun delivered_all :: "'c TrySend \<Rightarrow> TxHash list \<Rightarrow> 'c \<Rightarrow> 'c option" where
  "delivered_all try_send [] c = Some c"
| "delivered_all try_send (h # hs) c = Option.bind (delivered try_send h c) (delivered_all try_send hs)"

lemma swap_remove_shape:
  "swap_remove (length ys) (ys @ x # zs) = Some (x, ys @ (if zs = [] then [] else last zs # butlast zs))"
  by (cases zs rule: rev_cases) (simp_all add: swap_remove_def butlast_append)

lemma swap_remove_split:
  assumes "n < length xs"
  obtains rest where "swap_remove n xs = Some (xs ! n, take n xs @ rest)" "mset rest = mset (drop (Suc n) xs)"
proof -
  let ?zs = "drop (Suc n) xs"
  have "swap_remove n xs = Some (xs ! n, take n xs @ (if ?zs = [] then [] else last ?zs # butlast ?zs))"
    using swap_remove_shape [of "take n xs" "xs ! n" ?zs] assms by (simp flip: id_take_nth_drop)
  moreover have "mset (if ?zs = [] then [] else last ?zs # butlast ?zs) = mset ?zs"
    by (cases ?zs rule: rev_cases) simp_all
  ultimately show thesis by (rule that)
qed

lemma notify_loop_mset:
  assumes "n \<le> length l"
  shows "\<exists>l'. notify_loop try_send h n l = Some l' \<and>
    mset l' = mset (drop n l) + mset (List.map_filter (delivered try_send h) (take n l))"
  using assms
proof (induction n arbitrary: l)
  case (Suc n)
  then have n: "n < length l" by simp
  obtain rest where sw: "swap_remove n l = Some (l ! n, take n l @ rest)" "mset rest = mset (drop (Suc n) l)"
    by (rule swap_remove_split [OF n])
  obtain c res where ts: "try_send (l ! n) h = (c, res)" by fastforce
  define l1 where "l1 = (if res = Disconnected then take n l @ rest else take n l @ rest @ [c])"
  have "n \<le> length l1" "take n l1 = take n l" using n by (simp_all add: l1_def)
  with Suc.IH [of l1] obtain l' where l': "notify_loop try_send h n l1 = Some l'"
    "mset l' = mset (drop n l1) + mset (List.map_filter (delivered try_send h) (take n l))" by auto
  have "notify_loop try_send h (Suc n) l = notify_loop try_send h n l1"
    using sw(1) ts by (cases res) (simp_all add: l1_def)
  moreover have "mset l' = mset (drop (Suc n) l) + mset (List.map_filter (delivered try_send h) (take (Suc n) l))"
    using l'(2) sw(2) n ts
    by (cases res) (simp_all add: l1_def delivered_def take_Suc_conv_app_nth map_filter_def)
  ultimately show ?case using l'(1) by simp
qed simp

lemma notify_listener_spec:
  "\<exists>l'. notify_listener try_send h pool = Some (pool\<lparr>transaction_listener := l'\<rparr>) \<and>
    mset l' = mset (List.map_filter (delivered try_send h) (transaction_listener pool))"
  using notify_loop_mset [of "length (transaction_listener pool)" "transaction_listener pool" try_send h]
  by (auto simp: notify_listener_def)

lemma map_filter_bind:
  "List.map_filter g (List.map_filter f xs) = List.map_filter (\<lambda>x. Option.bind (f x) g) xs"
  by (induction xs) (auto simp: map_filter_def split: option.splits)

lemma map_filter_mset_cong: "mset xs = mset ys \<Longrightarrow> mset (List.map_filter f xs) = mset (List.map_filter f ys)"
  by (simp add: map_filter_def mset_filter)

lemma notify_hashes_spec:
  "\<exists>l'. notify_hashes try_send hs pool = Some (pool\<lparr>transaction_listener := l'\<rparr>) \<and>
    mset l' = mset (List.map_filter (delivered_all try_send hs) (transaction_listener pool))"
proof (induction hs arbitrary: pool)
  case Nil
  then show ?case by (intro exI [of _ "transaction_listener pool"]) (simp add: map_filter_def)
next
  case (Cons h hs)
  obtain l where l: "notify_listener try_send h pool = Some (pool\<lparr>transaction_listener := l\<rparr>)"
    "mset l = mset (List.map_filter (delivered try_send h) (transaction_listener pool))"
    using notify_listener_spec by blast
  from Cons [of "pool\<lparr>transaction_listener := l\<rparr>"] l(1) map_filter_mset_cong [OF l(2), of "delivered_all try_send hs"]
  show ?case by (auto simp: map_filter_bind)
qed

lemma notify_ready_spec:
  "\<exists>l'. notify_ready try_send added pool = Some (pool\<lparr>transaction_listener := l'\<rparr>)"
proof (cases added)
  case (AddedReady t)
  then show ?thesis using notify_hashes_spec [of try_send "ar_hash t # ar_promoted t" pool] by auto
next
  case (AddedPending h)
  then show ?thesis by (intro exI [of _ "transaction_listener pool"]) simp
qed

lemma notify_ready_each_spec:
  "\<exists>l'. notify_ready_each try_send ts pool = Some (pool\<lparr>transaction_listener := l'\<rparr>)"
proof (induction ts arbitrary: pool)
  case Nil
  then show ?case by (intro exI [of _ "transaction_listener pool"]) simp
next
  case (Cons t ts)
  obtain l where "notify_ready try_send t pool = Some (pool\<lparr>transaction_listener := l\<rparr>)"
    using notify_ready_spec by blast
  with Cons [of "pool\<lparr>transaction_listener := l\<rparr>"] show ?case by auto
qed

section \<open>Every step returns and keeps the invariant\<close>

lemma pool_inv_mono: "pool_inv m s \<Longrightarrow> m \<le> n \<Longrightarrow> pool_inv n s"
  by (simp add: pool_inv_def)

lemma pool_restore_Some:
  assumes "pool_inv n snapshot"
  shows "\<exists>txs l'. iter_collect (get_transactions (inner_ready snapshot)) = Some txs \<and>
    pool_restore try_send snapshot pool = Some (pool\<lparr>pool_inner := snapshot, transaction_listener := l'\<rparr>) \<and>
    mset l' = mset (List.map_filter (delivered_all try_send (map tx_hash txs)) (transaction_listener pool))"
proof -
  have "ready_wf (inner_ready snapshot)" using assms by (simp add: pool_inv_def queues_ok_def)
  from get_transactions_best_first [OF this] obtain txs
    where "iter_collect (get_transactions (inner_ready snapshot)) = Some txs" by blast
  with notify_hashes_spec [of try_send "map tx_hash txs" "pool\<lparr>pool_inner := snapshot\<rparr>"] show ?thesis
    by (auto simp: pool_restore_def)
qed

lemma pool_prune_markers_inv:
  assumes "iter_law ord" "pool_inv n (pool_inner pool)" "n < 2 ^ 64"
  shows "\<exists>res pool'. pool_prune_markers try_send ord ms pool = Some (res, pool') \<and> pool_inv n (pool_inner pool') \<and>
    pending_sub (inner_pending (pool_inner pool')) (inner_pending (pool_inner pool)) \<and>
    checked_off (set ms) (inner_pending (pool_inner pool'))"
proof -
  obtain res s' where s': "inner_prune_markers ord ms (pool_inner pool) = Some (res, s')" "pool_inv n s'"
      "pending_sub (inner_pending s') (inner_pending (pool_inner pool))" "checked_off (set ms) (inner_pending s')"
    using inner_prune_markers_inv [OF assms, of ms] by blast
  with notify_ready_each_spec [of try_send "pr_promoted res" "pool\<lparr>pool_inner := s'\<rparr>"] show ?thesis
    by (auto simp: pool_prune_markers_def)
qed

lemma inner_remove_invalid_sub:
  assumes inv: "pool_inv n s" and law: "iter_law ord" and r: "inner_remove_invalid ord hs s = Some (removed, s')"
  shows "pending_sub (inner_pending s') (inner_pending s)"
proof -
  have "pending_wf (inner_pending s)" using inv by (simp add: pool_inv_def queues_ok_def)
  from pending_shrink_inv(2) [OF this law, of hs] r show ?thesis
    by (auto simp: inner_remove_invalid_def bind_eq_Some_conv pending_sub_refl case_prod_beta split: if_splits)
qed

lemma on_mined_block_inv:
  assumes law: "iter_law ord" and inv: "pool_inv n (pool_inner pool)" and n: "n < 2 ^ 64"
  shows "\<exists>retry later pool'. on_mined_block try_send ord outcome pool = Some (retry, later, pool') \<and>
    pool_inv n (pool_inner pool') \<and>
    pending_sub (inner_pending (pool_inner pool')) (inner_pending (pool_inner pool)) \<and>
    checked_off (set (concat (map provides (included outcome @ stale outcome)))) (inner_pending (pool_inner pool'))"
proof -
  obtain removed s where s: "inner_remove_invalid ord (map tx_hash (invalid outcome)) (pool_inner pool) = Some (removed, s)"
    "pool_inv n s" using inner_remove_invalid_inv [OF inv law] by blast
  let ?ms = "concat (map provides (included outcome @ stale outcome))"
  have "pool_inv n (pool_inner (pool\<lparr>pool_inner := s\<rparr>))" using s(2) by simp
  from pool_prune_markers_inv [OF law this n, of try_send ?ms] obtain res pool'
    where p: "pool_prune_markers try_send ord ?ms (pool\<lparr>pool_inner := s\<rparr>) = Some (res, pool')" "pool_inv n (pool_inner pool')"
      "pending_sub (inner_pending (pool_inner pool')) (inner_pending s)" "checked_off (set ?ms) (inner_pending (pool_inner pool'))"
    by auto
  have "pending_sub (inner_pending (pool_inner pool')) (inner_pending (pool_inner pool))"
    by (rule pending_sub_trans [OF p(3) inner_remove_invalid_sub [OF inv law s(1)]])
  with s(1) p show ?thesis by (simp add: on_mined_block_def Let_def)
qed

lemma run_op_inv:
  assumes law: "iter_law ord" and inv: "pool_inv n (pool_inner pool)" and n: "Suc n < 2 ^ 64" and ok: "op_ok op"
  shows "\<exists>pool'. run_op try_send ord op pool = Some pool' \<and> pool_inv (Suc n) (pool_inner pool')"
proof (cases op)
  case (AddTransaction tx)
  with ok have "single_marked tx" by simp
  from inner_add_transaction_inv [OF law inv n this] obtain res s'
    where *: "inner_add_transaction ord tx (pool_inner pool) = Some (res, s')" "pool_inv (Suc n) s'" by blast
  with AddTransaction show ?thesis
  proof (cases res)
    case (Inr added)
    with * AddTransaction notify_ready_spec [of try_send added "pool\<lparr>pool_inner := s'\<rparr>"] show ?thesis
      by (auto simp: pool_add_transaction_def)
  qed (simp add: pool_add_transaction_def)
next
  case (PruneMarkers ms)
  then show ?thesis using pool_prune_markers_inv [OF law inv, of try_send ms] n pool_inv_mono by fastforce
next
  case (OnMinedBlock outcome)
  then show ?thesis using on_mined_block_inv [OF law inv, of try_send outcome] n pool_inv_mono by fastforce
next
  case (RemoveInvalid hs)
  then show ?thesis using inner_remove_invalid_inv [OF inv law, of hs] pool_inv_mono [of n _ "Suc n"]
    by (fastforce simp: on_inner_def)
next
  case (RemoveByAddress a)
  then show ?thesis using remove_by_address_inv [OF inv law, of a] pool_inv_mono [of n _ "Suc n"]
    by (fastforce simp: on_inner_def)
next
  case (DropTransaction h)
  then show ?thesis using drop_transaction_inv [OF inv law, of h] pool_inv_mono [of n _ "Suc n"]
    by (fastforce simp: on_inner_def)
next
  case (ClearType ty)
  then show ?thesis using clear_transaction_type_inv [OF inv law, of ty] pool_inv_mono [of n _ "Suc n"]
    by (fastforce simp: on_inner_def)
next
  case (Renotify hs)
  then show ?thesis using notify_hashes_spec [of try_send hs pool] pool_inv_mono [OF inv, of "Suc n"] by auto
next
  case ClearPool
  then show ?thesis using pool_inv_mono [OF inner_clear_inv [OF inv]] by simp
next
  case (AddListener c)
  then show ?thesis using pool_inv_mono [OF inv, of "Suc n"] by (simp add: add_ready_listener_def)
qed

lemma pool_run_inv: "pool_run n pool \<Longrightarrow> n < 2 ^ 64 \<Longrightarrow> pool_inv n (pool_inner pool)"
proof (induction rule: pool_run.induct)
  case start
  then show ?case by (simp add: pool_new_def pool_inv_default)
next
  case (step n pool ord op try_send pool')
  then show ?case using run_op_inv [OF step.hyps(2), of n pool op try_send] by simp
next
  case (restore n pool m old try_send pool')
  then have "pool_inv m (pool_inner old)" by simp
  from pool_restore_Some [OF this, of try_send pool] restore.hyps(3) pool_inv_mono [OF this, of "Suc (max m n)"]
  show ?case by auto
qed

section \<open>Properties of the pool\<close>

text \<open>A pool with one waiting transaction, reached in one step.\<close>

definition send_ok :: "TxHash list TrySend" where
  "send_ok c h = (c @ [h], Sent)"

definition sample_run :: "TxHash list Pool" where
  "sample_run = the (run_op send_ok sorted_order (AddTransaction (sample_tx 2 [[1]] [[2]] 9)) pool_new)"

lemma sample_single_marked: "k \<notin> set rq \<Longrightarrow> single_marked (sample_tx h rq [k] fee)"
  by (simp add: single_marked_def)

lemma sample_run_step: "run_op send_ok sorted_order (AddTransaction (sample_tx 2 [[1]] [[2]] 9)) pool_new = Some sample_run"
proof -
  have "pool_inv 0 (pool_inner (pool_new :: TxHash list Pool))" by (simp add: pool_new_def pool_inv_default)
  from run_op_inv [OF sorted_order_law this, of "AddTransaction (sample_tx 2 [[1]] [[2]] 9)" send_ok]
  show ?thesis by (auto simp: sample_run_def sample_single_marked)
qed

lemma sample_run_reached: "pool_run 1 sample_run"
  using pool_run.step [OF pool_run.start sorted_order_law _ sample_run_step] by (simp add: sample_single_marked)

lemma sample_run_waiting:
  "waiting_queue (inner_pending (pool_inner sample_run)) = [2 \<mapsto> sample_waiting 2 [1] [2] 9]"
  by (simp add: sample_run_def pool_new_def pool_default_def pool_add_transaction_def inner_add_transaction_def
      inner_contains_def pending_contains_def ready_contains_def pending_add_transaction_def pending_insert_queue
      PendingPoolTransaction_new_def is_ready_def sample_waiting_def ready_default_def pending_default_def)

text \<open>
  C23: No sequence of operations makes the pool panic or loop: in a pool reached by fewer than
  \<open>2 ^ 64 - 1\<close> steps, every operation returns and leads to a pool of the same kind.
\<close>

theorem pool_never_panics:
  assumes "pool_run n pool" "Suc n < 2 ^ 64" "iter_law ord" "op_ok op"
  shows "\<exists>pool'. run_op try_send ord op pool = Some pool' \<and> pool_run (Suc n) pool'"
proof -
  have "pool_inv n (pool_inner pool)" using pool_run_inv [OF assms(1)] assms(2) by simp
  from run_op_inv [OF assms(3) this assms(2,4)] pool_run.step [OF assms(1,3,4)] show ?thesis by blast
qed

theorem pool_never_panics_witness:
  "\<exists>pool'. run_op send_ok sorted_order (AddTransaction (sample_tx 1 [] [[1]] 9)) sample_run = Some pool' \<and> pool_run 2 pool'"
  using pool_never_panics [OF sample_run_reached _ sorted_order_law, of "AddTransaction (sample_tx 1 [] [[1]] 9)"]
  by (simp add: sample_single_marked flip: numeral_2_eq_2)

text \<open>
  C24: In every pool that is reached, the two queues share no transaction, a waiting transaction
  misses a marker and what it misses is provided by no ready one, and the index of markers points
  to the ready transaction that provides the marker, so no two ready ones provide the same.
\<close>

theorem reached_pool_consistent:
  assumes "pool_run n pool" "n < 2 ^ 64"
  shows "let r = inner_ready (pool_inner pool); p = inner_pending (pool_inner pool)
    in dom (waiting_queue p) \<inter> dom (ready_tx r) = {} \<and>
      (\<forall>h t. waiting_queue p h = Some t \<longrightarrow> tx_hash (transaction t) = h \<and> missing_markers t \<noteq> {} \<and>
         (\<forall>m. m \<in> missing_markers t \<longrightarrow> provided_markers r m = None)) \<and>
      (\<forall>k h. provided_markers r k = Some h \<longleftrightarrow> (\<exists>t. ready_tx r h = Some t \<and> provides (rt_tx t) = [k]))"
proof -
  let ?r = "inner_ready (pool_inner pool)" let ?p = "inner_pending (pool_inner pool)"
  have ok: "queues_ok ?r ?p" using pool_run_inv [OF assms] by (simp add: pool_inv_def)
  have "ready_inv {} {#} ?r" using queues_okD(1) [OF ok] by (simp add: ready_wf_def)
  note inv = ready_invD [OF this]
  have "the_marker (rt_tx t) = k \<longleftrightarrow> provides (rt_tx t) = [k]" if "ready_tx ?r h = Some t" for h t k
    using inv(2) [OF that] single_markedD [of "rt_tx t"] by (auto simp: ready_entry_ok_def the_marker_def)
  then have "provided_markers ?r k = Some h \<longleftrightarrow> (\<exists>t. ready_tx ?r h = Some t \<and> provides (rt_tx t) = [k])" for k h
    unfolding inv(4) by (cases "ready_tx ?r h") simp_all
  then show ?thesis
    using queues_okD(4,5) [OF ok] pending_wfD(2) [OF queues_okD(2) [OF ok]]
    by (simp add: missing_unprovided_def entry_ok_def)
qed

theorem reached_pool_consistent_witness:
  "waiting_queue (inner_pending (pool_inner sample_run)) 2 = Some (sample_waiting 2 [1] [2] 9) \<and>
   provided_markers (inner_ready (pool_inner sample_run)) [1] = None"
proof -
  have "waiting_queue (inner_pending (pool_inner sample_run)) 2 = Some (sample_waiting 2 [1] [2] 9)"
    by (simp add: sample_run_waiting)
  moreover have "[1] \<in> missing_markers (sample_waiting 2 [1] [2] 9)" by (simp add: sample_waiting_def)
  ultimately show ?thesis using reached_pool_consistent [OF sample_run_reached, unfolded Let_def] by (simp del: not_None_eq)
qed

text \<open>
  C25: A mined block unblocks the waiting transactions: a waiting transaction that misses only markers
  of transactions which the block included or found stale leaves the waiting queue, and no
  transaction is left waiting for such a marker.
\<close>

theorem mined_block_unblocks:
  assumes "pool_run n pool" "n < 2 ^ 64" "iter_law ord"
  shows "\<exists>retry later pool'. on_mined_block try_send ord outcome pool = Some (retry, later, pool') \<and>
    (\<forall>h t. waiting_queue (inner_pending (pool_inner pool)) h = Some t \<longrightarrow>
       missing_markers t \<subseteq> (\<Union>tx \<in> set (included outcome) \<union> set (stale outcome). set (provides tx)) \<longrightarrow>
       waiting_queue (inner_pending (pool_inner pool')) h = None) \<and>
    (\<forall>h t tx. waiting_queue (inner_pending (pool_inner pool')) h = Some t \<longrightarrow>
       tx \<in> set (included outcome) \<union> set (stale outcome) \<longrightarrow> missing_markers t \<inter> set (provides tx) = {})"
proof -
  let ?M = "\<Union>tx \<in> set (included outcome) \<union> set (stale outcome). set (provides tx)"
  obtain retry later pool' where p: "on_mined_block try_send ord outcome pool = Some (retry, later, pool')"
      and inv': "pool_inv n (pool_inner pool')"
      and sub: "pending_sub (inner_pending (pool_inner pool')) (inner_pending (pool_inner pool))"
      and off: "checked_off ?M (inner_pending (pool_inner pool'))"
    using on_mined_block_inv [OF assms(3) pool_run_inv [OF assms(1,2)] assms(2), of try_send outcome] by (auto simp: image_Un)
  have "waiting_queue (inner_pending (pool_inner pool')) h = None"
    if t: "waiting_queue (inner_pending (pool_inner pool)) h = Some t" "missing_markers t \<subseteq> ?M" for h t
  proof (rule ccontr)
    assume "waiting_queue (inner_pending (pool_inner pool')) h \<noteq> None"
    then obtain t' where t': "waiting_queue (inner_pending (pool_inner pool')) h = Some t'" by blast
    have "pending_wf (inner_pending (pool_inner pool'))" using inv' by (simp add: pool_inv_def queues_ok_def)
    from pending_wfD(2) [OF this t'] have "missing_markers t' \<noteq> {}" by (simp add: entry_ok_def)
    moreover have "missing_markers t' \<subseteq> ?M" using pending_subD [OF sub t'] t by auto
    ultimately show False using off t' unfolding checked_off_def by blast
  qed
  moreover have "missing_markers t \<inter> set (provides tx) = {}"
    if "waiting_queue (inner_pending (pool_inner pool')) h = Some t" "tx \<in> set (included outcome) \<union> set (stale outcome)" for h t tx
    using off that unfolding checked_off_def by blast
  ultimately show ?thesis using p by blast
qed

theorem mined_block_unblocks_witness:
  "\<exists>retry later pool'. on_mined_block send_ok sorted_order
     \<lparr>block_number = 1, included = [sample_tx 1 [] [[1]] 5], stale = [], invalid = [], not_yet_valid = []\<rparr> sample_run =
       Some (retry, later, pool') \<and>
     waiting_queue (inner_pending (pool_inner sample_run)) 2 \<noteq> None \<and>
     waiting_queue (inner_pending (pool_inner pool')) 2 = None"
proof -
  let ?o = "\<lparr>block_number = 1, included = [sample_tx 1 [] [[1]] 5], stale = [], invalid = [], not_yet_valid = []\<rparr>"
  from mined_block_unblocks [OF sample_run_reached _ sorted_order_law, of send_ok ?o] obtain retry later pool'
    where "on_mined_block send_ok sorted_order ?o sample_run = Some (retry, later, pool')"
      and "\<forall>h t. waiting_queue (inner_pending (pool_inner sample_run)) h = Some t \<longrightarrow> missing_markers t \<subseteq> {[1]} \<longrightarrow>
        waiting_queue (inner_pending (pool_inner pool')) h = None" by auto
  then show ?thesis by (auto simp: sample_run_waiting sample_waiting_def)
qed

text \<open>
  C33: A refused transaction changes nothing: adding to a pool that is reached always gives an answer,
  and when it is refused, for being known or for being underpriced, the pool and what its listeners
  were told stay as they were. The only other refusal is that of a cyclic transaction.
\<close>

theorem refused_transaction_changes_nothing:
  assumes "pool_run n pool" "Suc n < 2 ^ 64" "iter_law ord" "single_marked tx"
  shows "\<exists>res pool'. pool_add_transaction try_send ord tx pool = Some (res, pool') \<and>
    (inner_contains (pool_inner pool) (tx_hash tx) \<longrightarrow> res = Inl (AlreadyImported (tx_hash tx))) \<and>
    (\<forall>e. res = Inl e \<longrightarrow> e = CyclicTransaction \<or>
       (e = AlreadyImported (tx_hash tx) \<or> e = ReplacementUnderpriced (tx_hash tx)) \<and> pool' = pool)"
proof -
  have inv: "pool_inv n (pool_inner pool)" using pool_run_inv [OF assms(1)] assms(2) by simp
  obtain res s' where s': "inner_add_transaction ord tx (pool_inner pool) = Some (res, s')"
      "\<forall>e. res = Inl e \<longrightarrow> e = CyclicTransaction \<or>
         (e = AlreadyImported (tx_hash tx) \<or> e = ReplacementUnderpriced (tx_hash tx)) \<and> s' = pool_inner pool"
    using inner_add_transaction_inv [OF assms(3) inv assms(2,4)] by blast
  moreover have "inner_contains (pool_inner pool) (tx_hash tx) \<longrightarrow> res = Inl (AlreadyImported (tx_hash tx))"
    using s'(1) by (auto simp: inner_add_transaction_def)
  ultimately show ?thesis
    using notify_ready_spec [of try_send "projr res" "pool\<lparr>pool_inner := s'\<rparr>"]
    by (cases res) (auto simp: pool_add_transaction_def)
qed

theorem refused_transaction_changes_nothing_witness:
  "pool_add_transaction send_ok sorted_order (sample_tx 2 [] [[5]] 5) sample_run = Some (Inl (AlreadyImported 2), sample_run)"
  using refused_transaction_changes_nothing [OF sample_run_reached _ sorted_order_law
      sample_single_marked [of "[5]" "[]" 2 5]]
  by (auto simp: inner_contains_def pending_contains_def sample_run_waiting)

text \<open>
  C35: The notification loop, which takes listeners out of the vector while it walks over it from
  the end, reaches every listener exactly once, never indexes past the end and drops
  exactly the disconnected ones.
\<close>

theorem notification_reaches_each_listener_once:
  "\<exists>pool'. notify_listener try_send h pool = Some pool' \<and> pool_inner pool' = pool_inner pool \<and>
    mset (transaction_listener pool') = mset (List.map_filter (delivered try_send h) (transaction_listener pool))"
  using notify_listener_spec [of try_send h pool] by auto

end
