(* ===== verification/Tx_Share.thy ===== *)
theory Tx_Share
  imports Tx_Run
begin

text \<open>
  Snapshots of the pool and what they share (crates/anvil/src/eth/pool/transactions.rs and mod.rs, and the RPC
  handlers \<open>evm_snapshot\<close>, \<open>evm_revert\<close> and \<open>anvil_reset\<close> of crates/anvil/src/eth/api.rs). The map of ready transactions is behind
  an \<open>Arc<RwLock<..>>\<close>: two queues with the same pointer see each other's changes. Here the pointers are explicit, in
  a store from addresses to maps, and an operation of the pool reads and writes the map at the address of
  the queue it is called on. A snapshot allocates a map of its own, so that no operation of the live pool
  reaches it, and reverting brings back the queues of the moment the snapshot was taken. This also
  justifies the other theories, where a queue is a plain value.
\<close>

section \<open>Queues with a pointer\<close>

type_synonym addr = nat
type_synonym store = "addr \<rightharpoonup> (TxHash \<rightharpoonup> ReadyTransaction)"

record SharedReady =
  sr_id :: u64
  sr_provided :: "TxMarker \<rightharpoonup> TxHash"
  sr_ready :: addr
  sr_independent :: "PoolTransactionRef list"

record SharedInner =
  si_ready :: SharedReady
  si_pending :: PendingTransactions

text \<open>The queues behind the pointer: \<open>ready_tx.read()\<close>.\<close>

definition load :: "store \<Rightarrow> SharedInner \<Rightarrow> PoolInner" where
  "load \<sigma> s =
     \<lparr>inner_ready =
        \<lparr>tx_id = sr_id (si_ready s), provided_markers = sr_provided (si_ready s),
         ready_tx = (case \<sigma> (sr_ready (si_ready s)) of Some m \<Rightarrow> m | None \<Rightarrow> Map.empty),
         independent_transactions = sr_independent (si_ready s)\<rparr>,
      inner_pending = si_pending s\<rparr>"

text \<open>Changing the queues in place: the map is written where it was read, \<open>ready_tx.write()\<close>.\<close>

definition save :: "PoolInner \<Rightarrow> SharedInner \<times> store \<Rightarrow> SharedInner \<times> store" where
  "save v = (\<lambda>(s, \<sigma>).
     (\<lparr>si_ready =
         \<lparr>sr_id = tx_id (inner_ready v), sr_provided = provided_markers (inner_ready v), sr_ready = sr_ready (si_ready s),
          sr_independent = independent_transactions (inner_ready v)\<rparr>,
       si_pending = inner_pending v\<rparr>,
      \<sigma>(sr_ready (si_ready s) \<mapsto> ready_tx (inner_ready v))))"

section \<open>Snapshots\<close>

text \<open>\<open>Arc::new(RwLock::new(..))\<close> at an address that the allocator gives, other than those in use.\<close>

type_synonym Alloc = "addr set \<Rightarrow> addr"

definition alloc_law :: "Alloc \<Rightarrow> bool" where
  "alloc_law alloc \<longleftrightarrow> (\<forall>A. finite A \<longrightarrow> alloc A \<notin> A)"

definition shared_ready_snapshot :: "Alloc \<Rightarrow> addr set \<Rightarrow> SharedReady \<Rightarrow> store \<Rightarrow> SharedReady \<times> store" where
  "shared_ready_snapshot alloc used r \<sigma> =
     (let a = alloc used in
      (\<lparr>sr_id = sr_id r, sr_provided = sr_provided r, sr_ready = a, sr_independent = sr_independent r\<rparr>,
       \<sigma>(a := Some (case \<sigma> (sr_ready r) of Some m \<Rightarrow> m | None \<Rightarrow> Map.empty))))"

definition pending_snapshot :: "PendingTransactions \<Rightarrow> PendingTransactions" where
  "pending_snapshot p = \<lparr>required_markers = required_markers p, waiting_markers = waiting_markers p, waiting_queue = waiting_queue p\<rparr>"

definition shared_snapshot :: "Alloc \<Rightarrow> addr set \<Rightarrow> SharedInner \<Rightarrow> store \<Rightarrow> SharedInner \<times> store" where
  "shared_snapshot alloc used s \<sigma> =
     (case shared_ready_snapshot alloc used (si_ready s) \<sigma> of
        (r, \<sigma>') \<Rightarrow> (\<lparr>si_ready = r, si_pending = pending_snapshot (si_pending s)\<rparr>, \<sigma>'))"

section \<open>The node\<close>

record 'c PoolNode =
  node_store :: store
  node_inner :: SharedInner
  node_listener :: "'c list"
  pool_snapshots :: "u256 \<rightharpoonup> SharedInner"

abbreviation addr_of :: "SharedInner \<Rightarrow> addr" where
  "addr_of s \<equiv> sr_ready (si_ready s)"

definition in_use :: "'c PoolNode \<Rightarrow> addr set" where
  "in_use n = insert (addr_of (node_inner n)) (addr_of ` ran (pool_snapshots n))"

definition node_pool :: "'c PoolNode \<Rightarrow> 'c Pool" where
  "node_pool n = \<lparr>pool_inner = load (node_store n) (node_inner n), transaction_listener = node_listener n\<rparr>"

definition node_new :: "'c PoolNode" where
  "node_new =
     \<lparr>node_store = [0 \<mapsto> Map.empty],
      node_inner = \<lparr>si_ready = \<lparr>sr_id = 0, sr_provided = Map.empty, sr_ready = 0, sr_independent = []\<rparr>, si_pending = pending_default\<rparr>,
      node_listener = [], pool_snapshots = Map.empty\<rparr>"

datatype 'c NodeOp =
    OnPool "'c PoolOp"
  | EvmSnapshot u256
  | EvmRevert u256 bool
  | AnvilReset

definition save_pool :: "'c Pool \<Rightarrow> 'c PoolNode \<Rightarrow> 'c PoolNode" where
  "save_pool pool n =
     (case save (pool_inner pool) (node_inner n, node_store n) of
        (s, \<sigma>) \<Rightarrow> n\<lparr>node_inner := s, node_store := \<sigma>, node_listener := transaction_listener pool\<rparr>)"

text \<open>The id is what the backend gives to its own snapshot of the chain state.\<close>

definition evm_snapshot :: "Alloc \<Rightarrow> u256 \<Rightarrow> 'c PoolNode \<Rightarrow> 'c PoolNode" where
  "evm_snapshot alloc i n =
     (case shared_snapshot alloc (in_use n) (node_inner n) (node_store n) of
        (s, \<sigma>) \<Rightarrow> n\<lparr>node_store := \<sigma>, pool_snapshots := (pool_snapshots n)(i \<mapsto> s)\<rparr>)"

text \<open>\<open>Pool::restore\<close> takes the snapshot over, pointer included, and notifies of the ready transactions.\<close>

definition shared_restore :: "'c TrySend \<Rightarrow> SharedInner \<Rightarrow> 'c PoolNode \<Rightarrow> 'c PoolNode option" where
  "shared_restore try_send s n =
     map_option (\<lambda>pool. n\<lparr>node_inner := s, node_listener := transaction_listener pool\<rparr>)
       (pool_restore try_send (load (node_store n) s) (node_pool n))"

text \<open>The flag is whether the backend reverted its state.\<close>

definition evm_revert :: "'c TrySend \<Rightarrow> u256 \<Rightarrow> bool \<Rightarrow> 'c PoolNode \<Rightarrow> 'c PoolNode option" where
  "evm_revert try_send i reverted n =
     (if reverted then
        (let n' = n\<lparr>pool_snapshots := (\<lambda>j. if j < i then pool_snapshots n j else None)\<rparr> in
         case pool_snapshots n i of
           None \<Rightarrow> Some n'
         | Some s \<Rightarrow> shared_restore try_send s n')
      else Some n)"

text \<open>The part of \<open>anvil_reset\<close> that is about the pool.\<close>

definition reset_pool :: "'c PoolNode \<Rightarrow> 'c PoolNode" where
  "reset_pool n =
     (save_pool ((node_pool n)\<lparr>pool_inner := inner_clear (pool_inner (node_pool n))\<rparr>) n)\<lparr>pool_snapshots := Map.empty\<rparr>"

fun node_step :: "'c TrySend \<Rightarrow> IterOrder \<Rightarrow> Alloc \<Rightarrow> 'c NodeOp \<Rightarrow> 'c PoolNode \<Rightarrow> 'c PoolNode option" where
  "node_step try_send ord alloc (OnPool op) n = map_option (\<lambda>pool. save_pool pool n) (run_op try_send ord op (node_pool n))"
| "node_step try_send ord alloc (EvmSnapshot i) n = Some (evm_snapshot alloc i n)"
| "node_step try_send ord alloc (EvmRevert i reverted) n = evm_revert try_send i reverted n"
| "node_step try_send ord alloc AnvilReset n = Some (reset_pool n)"

text \<open>A sequence of calls; channels, visiting orders and allocations are chosen anew for each.\<close>

type_synonym 'c call = "'c TrySend \<times> IterOrder \<times> Alloc \<times> 'c NodeOp"

fun node_steps :: "'c call list \<Rightarrow> 'c PoolNode \<Rightarrow> 'c PoolNode option" where
  "node_steps [] n = Some n"
| "node_steps ((try_send, ord, alloc, op) # calls) n = Option.bind (node_step try_send ord alloc op n) (node_steps calls)"

fun call_ok :: "'c call \<Rightarrow> bool" where
  "call_ok (try_send, ord, alloc, op) \<longleftrightarrow>
     iter_law ord \<and> alloc_law alloc \<and> (case op of OnPool p \<Rightarrow> op_ok p | _ \<Rightarrow> True)"

section \<open>Separation\<close>

text \<open>No two of the live pool and the snapshots have the same pointer.\<close>

definition separate :: "'c PoolNode \<Rightarrow> bool" where
  "separate n \<longleftrightarrow>
     finite (dom (pool_snapshots n)) \<and>
     (\<forall>i s. pool_snapshots n i = Some s \<longrightarrow> addr_of s \<noteq> addr_of (node_inner n)) \<and>
     (\<forall>i j s t. pool_snapshots n i = Some s \<longrightarrow> pool_snapshots n j = Some t \<longrightarrow> i \<noteq> j \<longrightarrow> addr_of s \<noteq> addr_of t)"

text \<open>What a snapshot holds.\<close>

definition held :: "'c PoolNode \<Rightarrow> u256 \<rightharpoonup> PoolInner" where
  "held n i = map_option (load (node_store n)) (pool_snapshots n i)"

lemma load_other: "addr_of s \<noteq> a \<Longrightarrow> load (\<sigma>(a := m)) s = load \<sigma> s"
  by (simp add: load_def)

lemma load_save: "save v (s, \<sigma>) = (s', \<sigma>') \<Longrightarrow> load \<sigma>' s' = v \<and> addr_of s' = addr_of s"
  by (auto simp: save_def load_def)

lemma save_pool_simps:
  "node_pool (save_pool pool n) = pool" "pool_snapshots (save_pool pool n) = pool_snapshots n"
  "addr_of (node_inner (save_pool pool n)) = addr_of (node_inner n)"
  by (simp_all add: save_pool_def save_def node_pool_def load_def)

lemma save_pool_separate: "separate n \<Longrightarrow> separate (save_pool pool n)"
  by (simp add: separate_def save_pool_simps)

lemma save_pool_held:
  assumes "separate n"
  shows "held (save_pool pool n) = held n"
proof
  fix i
  show "held (save_pool pool n) i = held n i"
    using assms by (cases "pool_snapshots n i") (auto simp: held_def save_pool_def save_def separate_def load_other)
qed

lemma in_use_finite: "separate n \<Longrightarrow> finite (in_use n)"
  by (simp add: separate_def in_use_def finite_ran)

text \<open>A snapshot holds what the pool holds, leaves the pool and the other snapshots alone and shares nothing with them.\<close>

lemma evm_snapshot_spec:
  assumes "separate n" "alloc_law alloc"
  shows "separate (evm_snapshot alloc i n)" "held (evm_snapshot alloc i n) = (held n)(i \<mapsto> pool_inner (node_pool n))"
    "node_pool (evm_snapshot alloc i n) = node_pool n"
proof -
  define a where "a = alloc (in_use n)"
  have a: "a \<notin> in_use n" using assms in_use_finite by (auto simp: alloc_law_def a_def)
  have new: "a \<noteq> addr_of (node_inner n)" "pool_snapshots n j = Some s \<Longrightarrow> a \<noteq> addr_of s" for j s
    using a by (auto simp: in_use_def ran_def)
  define s where "s = fst (shared_snapshot alloc (in_use n) (node_inner n) (node_store n))"
  define \<sigma> where "\<sigma> = (node_store n)(a := Some (case node_store n (addr_of (node_inner n)) of Some m \<Rightarrow> m | None \<Rightarrow> Map.empty))"
  have e: "evm_snapshot alloc i n = n\<lparr>node_store := \<sigma>, pool_snapshots := (pool_snapshots n)(i \<mapsto> s)\<rparr>"
    by (simp add: evm_snapshot_def shared_snapshot_def shared_ready_snapshot_def a_def s_def \<sigma>_def Let_def)
  have s: "addr_of s = a" by (simp add: s_def a_def shared_snapshot_def shared_ready_snapshot_def Let_def)
  have l: "load \<sigma> s = load (node_store n) (node_inner n)" "load \<sigma> (node_inner n) = load (node_store n) (node_inner n)"
    using new(1) by (simp_all add: load_def s_def \<sigma>_def a_def shared_snapshot_def shared_ready_snapshot_def pending_snapshot_def Let_def)
  have o: "load \<sigma> t = load (node_store n) t" if "pool_snapshots n j = Some t" for j t
    using new(2) [OF that] by (simp add: \<sigma>_def load_other)
  show "separate (evm_snapshot alloc i n)"
    using assms(1) new unfolding e separate_def by (auto simp: s)
  show "held (evm_snapshot alloc i n) = (held n)(i \<mapsto> pool_inner (node_pool n))"
    unfolding e by (rule ext) (auto simp: held_def node_pool_def l o intro!: option.map_cong)
  show "node_pool (evm_snapshot alloc i n) = node_pool n" unfolding e by (simp add: node_pool_def l)
qed

section \<open>The node as a value\<close>

text \<open>The specification: no pointers, a snapshot is a copy of the queues.\<close>

type_synonym 'c View = "'c Pool \<times> (u256 \<rightharpoonup> PoolInner)"

definition node_view :: "'c PoolNode \<Rightarrow> 'c View" where
  "node_view n = (node_pool n, held n)"

fun spec_step :: "'c TrySend \<Rightarrow> IterOrder \<Rightarrow> 'c NodeOp \<Rightarrow> 'c View \<Rightarrow> 'c View option" where
  "spec_step try_send ord (OnPool op) (pool, snaps) = map_option (\<lambda>pool'. (pool', snaps)) (run_op try_send ord op pool)"
| "spec_step try_send ord (EvmSnapshot i) (pool, snaps) = Some (pool, snaps(i \<mapsto> pool_inner pool))"
| "spec_step try_send ord (EvmRevert i reverted) (pool, snaps) =
     (if reverted then
        (let older = (\<lambda>j. if j < i then snaps j else None) in
         case snaps i of
           None \<Rightarrow> Some (pool, older)
         | Some v \<Rightarrow> map_option (\<lambda>pool'. (pool', older)) (pool_restore try_send v pool))
      else Some (pool, snaps))"
| "spec_step try_send ord AnvilReset (pool, snaps) = Some (pool\<lparr>pool_inner := inner_clear (pool_inner pool)\<rparr>, Map.empty)"

lemma pool_restore_inner: "pool_restore try_send v pool = Some pool' \<Longrightarrow> pool_inner pool' = v"
proof (cases "iter_collect (get_transactions (inner_ready v))")
  case (Some txs)
  then show "pool_restore try_send v pool = Some pool' \<Longrightarrow> pool_inner pool' = v"
    using notify_hashes_spec [of try_send "map tx_hash txs" "pool\<lparr>pool_inner := v\<rparr>"] by (auto simp: pool_restore_def)
qed (simp add: pool_restore_def)

lemma older_separate:
  assumes "separate n"
  shows "separate (n\<lparr>pool_snapshots := (\<lambda>j. if j < i then pool_snapshots n j else None)\<rparr>)"
proof -
  have "dom (\<lambda>j. if j < i then pool_snapshots n j else None) \<subseteq> dom (pool_snapshots n)" by (auto split: if_splits)
  with assms show ?thesis unfolding separate_def by (auto dest: finite_subset split: if_splits)
qed

lemma shared_restore_spec:
  assumes sep: "separate n" and i: "pool_snapshots n i = Some s"
    and n': "n' = n\<lparr>pool_snapshots := (\<lambda>j. if j < i then pool_snapshots n j else None)\<rparr>"
  shows "map_option node_view (shared_restore try_send s n') =
      map_option (\<lambda>pool. (pool, held n')) (pool_restore try_send (load (node_store n) s) (node_pool n))"
    and "shared_restore try_send s n' = Some m \<Longrightarrow> separate m"
proof -
  have np: "node_pool n' = node_pool n" "node_store n' = node_store n" by (simp_all add: n' node_pool_def)
  show "map_option node_view (shared_restore try_send s n') =
      map_option (\<lambda>pool. (pool, held n')) (pool_restore try_send (load (node_store n) s) (node_pool n))"
    using pool_restore_inner [of try_send "load (node_store n) s" "node_pool n"]
    by (cases "pool_restore try_send (load (node_store n) s) (node_pool n)")
      (simp_all add: shared_restore_def np node_view_def, simp add: node_pool_def held_def fun_eq_iff np)
  have "addr_of t \<noteq> addr_of s" if "pool_snapshots n' j = Some t" for j t
  proof -
    have "j \<noteq> i" "pool_snapshots n j = Some t" using that by (simp_all add: n' split: if_splits)
    with sep i show ?thesis unfolding separate_def by blast
  qed
  moreover have "separate n'" unfolding n' by (rule older_separate [OF sep])
  ultimately have "separate (n'\<lparr>node_inner := s, node_listener := l\<rparr>)" for l by (simp add: separate_def)
  then show "separate m" if "shared_restore try_send s n' = Some m"
    using that by (auto simp: shared_restore_def)
qed

text \<open>With its pointers the node does what the specification does.\<close>

lemma node_step_refines:
  assumes sep: "separate n" and alloc: "alloc_law alloc"
  shows "map_option node_view (node_step try_send ord alloc op n) = spec_step try_send ord op (node_view n)"
    and "node_step try_send ord alloc op n = Some n' \<Longrightarrow> separate n'"
proof -
  have held_older: "held (n\<lparr>pool_snapshots := (\<lambda>j. if j < i then pool_snapshots n j else None)\<rparr>) = (\<lambda>j. if j < i then held n j else None)" for i
    by (rule ext) (simp add: held_def)
  have pool_older: "node_pool (n\<lparr>pool_snapshots := \<Sigma>\<rparr>) = node_pool n" for \<Sigma> by (simp add: node_pool_def)
  show "map_option node_view (node_step try_send ord alloc op n) = spec_step try_send ord op (node_view n)"
  proof (cases op)
    case (OnPool p)
    then show ?thesis using save_pool_held [OF sep]
      by (cases "run_op try_send ord p (node_pool n)") (simp_all add: node_view_def save_pool_simps)
  next
    case (EvmSnapshot i)
    then show ?thesis using evm_snapshot_spec [OF sep alloc] by (simp add: node_view_def)
  next
    case (EvmRevert i reverted)
    then show ?thesis using shared_restore_spec(1) [OF sep _ refl, of i]
      by (cases "pool_snapshots n i") (simp_all add: evm_revert_def Let_def node_view_def held_older pool_older, simp_all add: held_def)
  next
    case AnvilReset
    have "held (n\<lparr>pool_snapshots := Map.empty\<rparr>) = Map.empty" for n :: "'a PoolNode" by (rule ext) (simp add: held_def)
    moreover have "node_pool ((save_pool pool n)\<lparr>pool_snapshots := Map.empty\<rparr>) = pool" for pool
      using save_pool_simps(1) [of pool n] by (simp add: node_pool_def)
    ultimately show ?thesis using AnvilReset by (simp add: node_view_def reset_pool_def)
  qed
  show "separate n'" if step: "node_step try_send ord alloc op n = Some n'"
  proof (cases op)
    case (OnPool p)
    with step save_pool_separate [OF sep] show ?thesis by auto
  next
    case (EvmSnapshot i)
    with step evm_snapshot_spec(1) [OF sep alloc] show ?thesis by auto
  next
    case (EvmRevert i reverted)
    with step sep older_separate [OF sep, of i] shared_restore_spec(2) [OF sep _ refl, of i _ try_send n'] show ?thesis
      by (auto simp: evm_revert_def Let_def split: if_splits option.splits)
  next
    case AnvilReset
    with step show ?thesis by (auto simp: reset_pool_def separate_def)
  qed
qed

section \<open>Runs of the node\<close>

inductive node_run :: "nat \<Rightarrow> 'c PoolNode \<Rightarrow> bool" where
  start: "node_run 0 node_new"
| step: "node_run k n \<Longrightarrow> call_ok (try_send, ord, alloc, op) \<Longrightarrow> node_step try_send ord alloc op n = Some n' \<Longrightarrow> node_run (Suc k) n'"

definition view_inv :: "nat \<Rightarrow> 'c View \<Rightarrow> bool" where
  "view_inv k = (\<lambda>(pool, snaps). pool_inv k (pool_inner pool) \<and> (\<forall>i v. snaps i = Some v \<longrightarrow> pool_inv k v))"

lemma spec_step_inv:
  assumes "view_inv k v" "Suc k < 2 ^ 64" "call_ok (try_send, ord, alloc, op)"
  shows "\<exists>v'. spec_step try_send ord op v = Some v' \<and> view_inv (Suc k) v'"
proof (cases v)
  case (Pair pool snaps)
  with assms(1) have inv: "pool_inv k (pool_inner pool)" "snaps i = Some s \<Longrightarrow> pool_inv k s" for i s
    by (simp_all add: view_inv_def)
  note up = pool_inv_mono [OF inv(1), of "Suc k"] pool_inv_mono [OF inv(2), of _ _ "Suc k"]
  show ?thesis
  proof (cases op)
    case (OnPool p)
    with assms(3) have "iter_law ord" "op_ok p" by simp_all
    from run_op_inv [OF this(1) inv(1) assms(2) this(2), of try_send] OnPool up(2) Pair show ?thesis
      by (auto simp: view_inv_def)
  next
    case (EvmSnapshot i)
    with up Pair show ?thesis by (auto simp: view_inv_def)
  next
    case (EvmRevert i reverted)
    with up Pair pool_restore_Some [OF inv(2), of i _ try_send pool] show ?thesis
      by (cases "snaps i") (fastforce simp: view_inv_def Let_def split: if_splits)+
  next
    case AnvilReset
    with pool_inv_mono [OF inner_clear_inv [OF inv(1)], of "Suc k"] Pair show ?thesis by (simp add: view_inv_def)
  qed
qed

definition node_inv :: "nat \<Rightarrow> 'c PoolNode \<Rightarrow> bool" where
  "node_inv k n \<longleftrightarrow> separate n \<and> view_inv k (node_view n)"

lemma node_step_inv:
  assumes "node_inv k n" "Suc k < 2 ^ 64" "call_ok (try_send, ord, alloc, op)"
  shows "\<exists>n'. node_step try_send ord alloc op n = Some n' \<and> node_inv (Suc k) n' \<and>
    spec_step try_send ord op (node_view n) = Some (node_view n')"
proof -
  have "separate n" "alloc_law alloc" using assms by (simp_all add: node_inv_def)
  note ref = node_step_refines [OF this, of try_send ord op]
  obtain v where "spec_step try_send ord op (node_view n) = Some v" "view_inv (Suc k) v"
    using spec_step_inv [OF _ assms(2,3), of "node_view n"] assms(1) unfolding node_inv_def by blast
  with ref show ?thesis by (cases "node_step try_send ord alloc op n") (simp_all add: node_inv_def)
qed

lemma node_run_separate: "node_run k n \<Longrightarrow> separate n"
proof (induction rule: node_run.induct)
  case start
  then show ?case by (simp add: node_new_def separate_def)
next
  case (step k n try_send ord alloc op n')
  then show ?case using node_step_refines(2) [of n alloc try_send ord op n'] by simp
qed

lemma node_new_view: "node_view node_new = (pool_new, Map.empty)"
  by (simp add: node_view_def node_pool_def node_new_def load_def held_def pool_new_def pool_default_def ready_default_def fun_eq_iff)

lemma node_run_inv: "node_run k n \<Longrightarrow> k < 2 ^ 64 \<Longrightarrow> node_inv k n"
proof (induction rule: node_run.induct)
  case start
  show ?case
    using node_run_separate [OF node_run.start] by (simp add: node_inv_def view_inv_def node_new_view pool_new_def pool_inv_default)
next
  case (step k n try_send ord alloc op n')
  then show ?case using node_step_inv [of k n try_send ord alloc op] by simp
qed

section \<open>A snapshot lasts\<close>

text \<open>The calls that leave the snapshot \<open>i\<close> in place: all but a revert to it or an older one and a reset.\<close>

fun spares :: "u256 \<Rightarrow> 'c NodeOp \<Rightarrow> bool" where
  "spares i (OnPool op) \<longleftrightarrow> True"
| "spares i (EvmSnapshot j) \<longleftrightarrow> j \<noteq> i"
| "spares i (EvmRevert j reverted) \<longleftrightarrow> (reverted \<longrightarrow> i < j)"
| "spares i AnvilReset \<longleftrightarrow> False"

lemma spec_step_spares: "spec_step try_send ord op v = Some v' \<Longrightarrow> spares i op \<Longrightarrow> snd v' i = snd v i"
  by (cases v; cases op) (auto simp: Let_def split: if_splits option.splits)

lemma node_steps_spare:
  assumes "node_inv k n" "k + length calls < 2 ^ 64" "\<forall>c \<in> set calls. call_ok c \<and> spares i (snd (snd (snd c)))"
  shows "\<exists>n'. node_steps calls n = Some n' \<and> node_inv (k + length calls) n' \<and> held n' i = held n i"
  using assms
proof (induction calls arbitrary: k n)
  case (Cons c calls)
  obtain try_send ord alloc op where c: "c = (try_send, ord, alloc, op)" by (cases c)
  obtain n1 where n1: "node_step try_send ord alloc op n = Some n1" "node_inv (Suc k) n1"
      "spec_step try_send ord op (node_view n) = Some (node_view n1)"
    using node_step_inv [of k n try_send ord alloc op] Cons.prems c by auto
  have "held n1 i = held n i" using spec_step_spares [OF n1(3), of i] Cons.prems(3) c by (simp add: node_view_def)
  with Cons.IH [OF n1(2)] Cons.prems n1(1) c show ?case by auto
qed simp

section \<open>Properties of snapshots\<close>

text \<open>
  C39: Sharing is invisible. In every state that calls of the node reach, a call does to the pool and to
  what the snapshots hold exactly what it does in the specification, where queues are plain values:
  in particular no operation on the live pool changes a snapshot, although the ready
  transactions of each are behind a pointer.
\<close>

theorem pointers_refine_values:
  assumes "node_run k n" "alloc_law alloc"
  shows "map_option node_view (node_step try_send ord alloc op n) = spec_step try_send ord op (node_view n)"
  by (rule node_step_refines(1) [OF node_run_separate [OF assms(1)] assms(2)])

text \<open>A node in which one transaction waits, and one that is ready is added after the snapshot.\<close>

definition least_free :: Alloc where
  "least_free A = Suc (Max (insert 0 A))"

lemma least_free_law: "alloc_law least_free"
proof -
  have "Suc (Max (insert 0 A)) \<notin> A" if "finite A" for A :: "addr set"
    using Max_ge [of "insert 0 A" "Suc (Max (insert 0 A))"] that by (metis finite_insert insertI2 not_less_eq_eq order_refl)
  then show ?thesis by (simp add: alloc_law_def least_free_def)
qed

definition sample_call :: "TxHash \<Rightarrow> TxMarker list \<Rightarrow> TxMarker \<Rightarrow> TxHash list call" where
  "sample_call h rq k = (send_ok, sorted_order, least_free, OnPool (AddTransaction (sample_tx h rq [k] 9)))"

lemma sample_call_ok: "k \<notin> set rq \<Longrightarrow> call_ok (sample_call h rq k)"
  by (simp add: sample_call_def sample_single_marked sorted_order_law least_free_law)

theorem pointers_refine_values_witness:
  "spec_step send_ok sorted_order (EvmSnapshot 0) (node_view (node_new :: TxHash list PoolNode)) =
     Some (pool_new, [0 \<mapsto> pool_default]) \<and>
   node_view (evm_snapshot least_free 0 node_new) = (pool_new :: TxHash list Pool, [0 \<mapsto> pool_default])"
  using pointers_refine_values [OF node_run.start least_free_law, of send_ok sorted_order "EvmSnapshot 0"]
  by (simp add: node_new_view pool_new_def)

text \<open>
  C34: Reverting to a snapshot brings back the queues of the moment it was taken, whatever was called since:
  operations on the pool, other snapshots, reverts to younger ones. None of these calls
  panics. The revert sends each listener the hash of every ready transaction, in the order in which they are
  iterated, and drops only the disconnected listeners.
\<close>

theorem snapshot_restore_roundtrip:
  assumes "node_run k n" "k + length calls + 2 < 2 ^ 64" "alloc_law alloc"
    "\<forall>c \<in> set calls. call_ok c \<and> spares i (snd (snd (snd c)))"
  shows "\<exists>n1 n2 txs. node_steps calls (evm_snapshot alloc i n) = Some n1 \<and> evm_revert try_send i True n1 = Some n2 \<and>
    pool_inner (node_pool n2) = pool_inner (node_pool n) \<and>
    iter_collect (get_transactions (inner_ready (pool_inner (node_pool n)))) = Some txs \<and>
    mset (node_listener n2) = mset (List.map_filter (delivered_all try_send (map tx_hash txs)) (node_listener n1))"
proof -
  have inv: "node_inv k n" using node_run_inv [OF assms(1)] assms(2) by simp
  then have sep: "separate n" and q: "pool_inv k (pool_inner (node_pool n))"
    by (simp_all add: node_inv_def view_inv_def node_view_def)
  define n0 where "n0 = evm_snapshot alloc i n"
  note s = evm_snapshot_spec [OF sep assms(3), of i, folded n0_def]
  have "node_inv (Suc k) n0"
    using inv s pool_inv_mono [of k _ "Suc k"] by (auto simp: node_inv_def view_inv_def node_view_def)
  from node_steps_spare [OF this _ assms(4)] assms(2) obtain n1
    where n1: "node_steps calls n0 = Some n1" "node_inv (Suc k + length calls) n1" "held n1 i = Some (pool_inner (node_pool n))"
    by (auto simp: s)
  obtain n2 where n2: "evm_revert try_send i True n1 = Some n2"
      "spec_step try_send sorted_order (EvmRevert i True) (node_view n1) = Some (node_view n2)"
    using node_step_inv [OF n1(2), of try_send sorted_order alloc "EvmRevert i True"] assms(2,3) sorted_order_law by auto
  from pool_restore_Some [OF q, of try_send "node_pool n1"] n1 n2 show ?thesis
    unfolding n0_def [symmetric] by (auto simp: node_view_def Let_def node_pool_def)
qed

lemma sample_added:
  "\<exists>added s. inner_add_transaction sorted_order (sample_tx 1 [] [[1]] 9) pool_default = Some (Inr added, s) \<and> ready_tx (inner_ready s) 1 \<noteq> None"
  by (simp add: inner_add_transaction_def add_ready_transaction_def add_ready_loop.simps [of _ "_ # _"] add_ready_loop.simps [of _ "[]"]
      pool_default_def ready_default_def pending_default_def inner_contains_def pending_contains_def ready_contains_def
      PendingPoolTransaction_new_def is_ready_def mark_and_unlock_def ready_add_transaction_def replaced_transactions_def
      next_id_def insert_ready_def AddedReadyTransaction_new_def Let_def)

lemma sample_added_run:
  assumes "run_op try_send sorted_order (AddTransaction (sample_tx 1 [] [[1]] 9)) pool_new = Some pool"
  shows "ready_tx (inner_ready (pool_inner pool)) 1 \<noteq> None"
proof -
  obtain added s where s: "inner_add_transaction sorted_order (sample_tx 1 [] [[1]] 9) pool_default = Some (Inr added, s)"
      "ready_tx (inner_ready s) 1 \<noteq> None" using sample_added by blast
  with assms notify_ready_spec [of try_send added "pool_new\<lparr>pool_inner := s\<rparr>"] show ?thesis
    by (auto simp: pool_add_transaction_def pool_new_def)
qed

text \<open>The snapshot of an empty pool: a transaction that becomes ready afterwards is gone after the revert.\<close>

theorem snapshot_restore_roundtrip_witness:
  "\<exists>n1 n2. node_steps [sample_call 1 [] [1]] (evm_snapshot least_free 0 node_new) = Some n1 \<and>
     evm_revert send_ok 0 True n1 = Some n2 \<and> ready_tx (inner_ready (pool_inner (node_pool n1))) 1 \<noteq> None \<and>
     pool_inner (node_pool n2) = pool_default"
proof -
  have "\<forall>c \<in> set [sample_call 1 [] [1]]. call_ok c \<and> spares 0 (snd (snd (snd c)))"
    using sample_call_ok [of "[1]" "[]" 1] by (simp add: sample_call_def)
  from snapshot_restore_roundtrip [OF node_run.start _ least_free_law this, of send_ok] obtain n1 n2
    where n: "node_steps [sample_call 1 [] [1]] (evm_snapshot least_free 0 node_new) = Some n1" "evm_revert send_ok 0 True n1 = Some n2"
      "pool_inner (node_pool n2) = pool_inner (node_pool (node_new :: TxHash list PoolNode))" by auto
  have new: "node_pool (node_new :: TxHash list PoolNode) = pool_new" by (rule node_new_view [unfolded node_view_def prod.inject, THEN conjunct1])
  have "separate (node_new :: TxHash list PoolNode)" by (rule node_run_separate [OF node_run.start])
  from evm_snapshot_spec(3) [OF this least_free_law] n(1) obtain pool
    where "run_op send_ok sorted_order (AddTransaction (sample_tx 1 [] [[1]] 9)) pool_new = Some pool" "node_pool n1 = pool"
    by (auto simp: sample_call_def new save_pool_simps bind_eq_Some_conv)
  with sample_added_run have "ready_tx (inner_ready (pool_inner (node_pool n1))) 1 \<noteq> None" by blast
  with n show ?thesis by (auto simp: new pool_new_def)
qed

end
