(* ===== verification/Fmt_Ring.thy ===== *)
theory Fmt_Ring
  imports Main
begin

text \<open>
  The ring buffer of the formatter's pretty printer (crates/fmt/src/pp/ring.rs): a queue whose
  elements keep their index in an infinitely long sequence while they are buffered. The locale
  \<open>indexed_queue\<close> is what the printer relies on; it is interpreted on the ring buffer.
  \<open>None\<close> is a panic. Indices are of type \<open>usize\<close> in the code; that they stay in its range is checked where
  the printer pushes and pops (\<open>push_entry\<close> and \<open>advance_left\<close> of \<open>Fmt_Printer\<close>).
\<close>

section \<open>The ring buffer\<close>

text \<open>\<open>ring_offset\<close> is the index of the first element in the infinitely sized queue.\<close>

record 'a RingBuffer =
  ring_data :: "'a list"
  ring_offset :: nat

definition ring_new :: "'a RingBuffer" where
  "ring_new = \<lparr>ring_data = [], ring_offset = 0\<rparr>"

definition ring_is_empty :: "'a RingBuffer \<Rightarrow> bool" where
  "ring_is_empty r \<longleftrightarrow> ring_data r = []"

definition ring_len :: "'a RingBuffer \<Rightarrow> nat" where
  "ring_len r = length (ring_data r)"

definition ring_push :: "'a \<Rightarrow> 'a RingBuffer \<Rightarrow> nat \<times> 'a RingBuffer" where
  "ring_push v r = (ring_offset r + length (ring_data r), r\<lparr>ring_data := ring_data r @ [v]\<rparr>)"

definition ring_clear :: "'a RingBuffer \<Rightarrow> 'a RingBuffer" where
  "ring_clear r = r\<lparr>ring_data := []\<rparr>"

text \<open>The start and the end of \<open>index_range\<close>.\<close>

definition ring_start :: "'a RingBuffer \<Rightarrow> nat" where
  "ring_start r = ring_offset r"

definition ring_stop :: "'a RingBuffer \<Rightarrow> nat" where
  "ring_stop r = ring_offset r + length (ring_data r)"

definition index_range :: "'a RingBuffer \<Rightarrow> nat list" where
  "index_range r = [ring_start r..<ring_stop r]"

definition ring_first :: "'a RingBuffer \<Rightarrow> 'a option" where
  "ring_first r = (case ring_data r of [] \<Rightarrow> None | x # xs \<Rightarrow> Some x)"

text \<open>\<open>first_mut\<close> and \<open>last_mut\<close>, with the change that is made through the reference.\<close>

definition ring_first_mut :: "('a \<Rightarrow> 'a) \<Rightarrow> 'a RingBuffer \<Rightarrow> 'a RingBuffer option" where
  "ring_first_mut f r = (case ring_data r of [] \<Rightarrow> None | x # xs \<Rightarrow> Some (r\<lparr>ring_data := f x # xs\<rparr>))"

definition ring_pop_first :: "'a RingBuffer \<Rightarrow> ('a \<times> 'a RingBuffer) option" where
  "ring_pop_first r =
     (case ring_data r of
        [] \<Rightarrow> None
      | x # xs \<Rightarrow> Some (x, \<lparr>ring_data = xs, ring_offset = ring_offset r + 1\<rparr>))"

definition ring_last :: "'a RingBuffer \<Rightarrow> 'a option" where
  "ring_last r = (if ring_data r = [] then None else Some (last (ring_data r)))"

definition ring_last_mut :: "('a \<Rightarrow> 'a) \<Rightarrow> 'a RingBuffer \<Rightarrow> 'a RingBuffer option" where
  "ring_last_mut f r =
     (if ring_data r = [] then None
      else Some (r\<lparr>ring_data := butlast (ring_data r) @ [f (last (ring_data r))]\<rparr>))"

definition ring_second_last :: "'a RingBuffer \<Rightarrow> 'a option" where
  "ring_second_last r =
     (if length (ring_data r) < 2 then None else Some (ring_data r ! (length (ring_data r) - 2)))"

definition ring_pop_last :: "'a RingBuffer \<Rightarrow> 'a RingBuffer option" where
  "ring_pop_last r = (if ring_data r = [] then None else Some (r\<lparr>ring_data := butlast (ring_data r)\<rparr>))"

text \<open>\<open>buf[index]\<close> and its mutable form: a panic below the offset and past the end.\<close>

definition ring_index :: "'a RingBuffer \<Rightarrow> nat \<Rightarrow> 'a option" where
  "ring_index r i =
     (if i < ring_offset r \<or> i - ring_offset r \<ge> length (ring_data r) then None
      else Some (ring_data r ! (i - ring_offset r)))"

definition ring_index_mut :: "nat \<Rightarrow> ('a \<Rightarrow> 'a) \<Rightarrow> 'a RingBuffer \<Rightarrow> 'a RingBuffer option" where
  "ring_index_mut i f r =
     (case ring_index r i of
        None \<Rightarrow> None
      | Some x \<Rightarrow> Some (r\<lparr>ring_data := (ring_data r)[i - ring_offset r := f x]\<rparr>))"

lemmas ring_defs = ring_new_def ring_is_empty_def ring_len_def ring_push_def ring_clear_def ring_start_def
  ring_stop_def index_range_def ring_first_def ring_first_mut_def ring_pop_first_def ring_last_def
  ring_last_mut_def ring_second_last_def ring_pop_last_def ring_index_def ring_index_mut_def

section \<open>Indices that stay\<close>

text \<open>
  What the printer relies on: an index that \<open>push\<close> returned refers to the pushed value until that value
  is popped at either end or changed through its index.
\<close>

locale indexed_queue =
  fixes at :: "'q \<Rightarrow> nat \<Rightarrow> 'a option" and start :: "'q \<Rightarrow> nat" and stop :: "'q \<Rightarrow> nat"
    and push :: "'a \<Rightarrow> 'q \<Rightarrow> nat \<times> 'q" and pop_first :: "'q \<Rightarrow> ('a \<times> 'q) option" and pop_last :: "'q \<Rightarrow> 'q option"
    and change :: "nat \<Rightarrow> ('a \<Rightarrow> 'a) \<Rightarrow> 'q \<Rightarrow> 'q option"
  assumes at_range: "at q i \<noteq> None \<longleftrightarrow> start q \<le> i \<and> i < stop q"
    and push_index: "push v q = (i, q') \<Longrightarrow> i = stop q \<and> start q' = start q \<and> stop q' = Suc (stop q)"
    and push_at: "push v q = (i, q') \<Longrightarrow> at q' j = (if j = i then Some v else at q j)"
    and pop_first_some: "start q < stop q \<Longrightarrow> \<exists>v q'. pop_first q = Some (v, q')"
    and pop_first_at: "pop_first q = Some (v, q') \<Longrightarrow>
      at q (start q) = Some v \<and> start q' = Suc (start q) \<and> stop q' = stop q \<and> (\<forall>j. at q' j = (if j = start q then None else at q j))"
    and pop_last_some: "start q < stop q \<Longrightarrow> \<exists>q'. pop_last q = Some q'"
    and pop_last_at: "pop_last q = Some q' \<Longrightarrow>
      start q' = start q \<and> Suc (stop q') = stop q \<and> (\<forall>j. at q' j = (if j = stop q' then None else at q j))"
    and change_some: "at q i \<noteq> None \<Longrightarrow> \<exists>q'. change i f q = Some q'"
    and change_at: "change i f q = Some q' \<Longrightarrow>
      start q' = start q \<and> stop q' = stop q \<and> (\<forall>j. at q' j = (if j = i then map_option f (at q j) else at q j))"
begin

lemma pushed_found: "push v q = (i, q') \<Longrightarrow> at q' i = Some v"
  by (simp add: push_at)

lemma pushed_fresh: "push v q = (i, q') \<Longrightarrow> at q i = None"
  using at_range [of q i] push_index [of v q i q'] by (cases "at q i") auto

lemma kept_by_push: "at q i = Some w \<Longrightarrow> push v q = (j, q') \<Longrightarrow> at q' i = Some w"
  using pushed_fresh [of v q j q'] by (auto simp: push_at)

lemma kept_by_pop_first: "at q i = Some w \<Longrightarrow> pop_first q = Some (v, q') \<Longrightarrow> start q < i \<Longrightarrow> at q' i = Some w"
  by (auto dest!: pop_first_at)

lemma kept_by_pop_last: "at q i = Some w \<Longrightarrow> pop_last q = Some q' \<Longrightarrow> Suc i < stop q \<Longrightarrow> at q' i = Some w"
  by (auto dest!: pop_last_at)

end

interpretation ring: indexed_queue ring_index ring_start ring_stop ring_push ring_pop_first ring_pop_last ring_index_mut
proof (unfold_locales, goal_cases)
  case (5 q v q')
  then show ?case by (cases "ring_data q") (auto simp: ring_defs nth_Cons')
next
  case (7 q q')
  then show ?case by (auto simp: ring_defs nth_butlast split: if_splits)
next
  case (9 i f q q')
  then show ?case by (auto simp: ring_defs split: if_splits)
qed (auto simp: ring_defs nth_append split: list.splits if_splits)

end
