(* ===== verification/Fmt_Printer.thy ===== *)
theory Fmt_Printer
  imports Fmt_Ring "HOL-Library.Monad_Syntax"
begin

text \<open>
  The pretty-printing engine of the formatter (crates/fmt/src/pp/mod.rs, convenience.rs and helpers.rs):
  tokens are scanned into a ring buffer until the size of the block or break they belong to is known,
  or known to exceed the line, and are then printed. \<open>None\<close> is a panic or a loop that does not end.

  Text is a list of bytes, as \<open>str::len\<close> counts bytes. Numbers have the width of the source on a 64-bit target:
  each operation on \<open>isize\<close> and \<open>usize\<close> goes through \<open>isize\<close> and \<open>usize\<close>, which give \<open>None\<close>, a panic, outside the range
  (this is what builds with overflow checks do; a run without a panic is the same in every build),
  and \<open>as isize\<close> and \<open>as usize\<close> wrap around. The debug output (\<open>DEBUG\<close> is false unless an environment variable is
  set when the crate is compiled) is left out.
\<close>

section \<open>Tokens\<close>

definition MIN_SPACE :: int where
  "MIN_SPACE = 40"

definition SIZE_INFINITY :: int where
  "SIZE_INFINITY = 0xffff"

datatype Breaks = Consistent | Inconsistent

datatype IndentStyle = Visual | Block int

record BreakToken =
  break_offset :: int
  blank_space :: nat
  pre_break :: "string option"
  post_break :: "string option"
  if_nonempty :: bool
  never_break :: bool

record BeginToken =
  indent_style :: IndentStyle
  begin_breaks :: Breaks

datatype Token = Text string | Break BreakToken | Begin BeginToken | End

datatype PrintFrame = Fits Breaks | Broken nat Breaks

record BufEntry =
  entry_token :: Token
  entry_size :: int

text \<open>
  The printer. \<open>scan_stack\<close> has the front of the deque first, \<open>print_stack\<close> has the top of the stack first.
\<close>

record Printer =
  out :: string
  space :: int
  buf :: "BufEntry RingBuffer"
  left_total :: int
  right_total :: int
  scan_stack :: "nat list"
  print_stack :: "PrintFrame list"
  indent :: nat
  pending_indentation :: nat
  last_printed :: "Token option"
  margin :: int
  indent_config :: "nat option"

text \<open>Checked results of arithmetic on \<open>isize\<close> and \<open>usize\<close>.\<close>

definition isize :: "int \<Rightarrow> int option" where
  "isize x = (if - (2 ^ 63) \<le> x \<and> x < 2 ^ 63 then Some x else None)"

definition usize :: "nat \<Rightarrow> nat option" where
  "usize n = (if n < 2 ^ 64 then Some n else None)"

text \<open>\<open>usize as isize\<close>, \<open>isize as usize\<close> and \<open>Ord::clamp\<close>.\<close>

definition as_isize :: "nat \<Rightarrow> int" where
  "as_isize n = (if n mod 2 ^ 64 < 2 ^ 63 then int (n mod 2 ^ 64) else int (n mod 2 ^ 64) - 2 ^ 64)"

definition as_usize :: "int \<Rightarrow> nat" where
  "as_usize x = nat (x mod 2 ^ 64)"

definition clamp :: "int \<Rightarrow> int \<Rightarrow> int \<Rightarrow> int" where
  "clamp v lo hi = (if v < lo then lo else if v > hi then hi else v)"

definition printer_new :: "nat \<Rightarrow> nat option \<Rightarrow> Printer" where
  "printer_new m use_tab_with_size =
     (let m = clamp (as_isize m) MIN_SPACE (SIZE_INFINITY - 1) in
      \<lparr>out = [], space = m, buf = ring_new, left_total = 0, right_total = 0, scan_stack = [], print_stack = [],
       indent = 0, pending_indentation = 0, last_printed = None, margin = m, indent_config = use_tab_with_size\<rparr>)"

section \<open>Printing\<close>

abbreviation newline :: char where
  "newline \<equiv> CHR 0x0A"

abbreviation blank :: char where
  "blank \<equiv> CHR 0x20"

abbreviation tab :: char where
  "tab \<equiv> CHR 0x09"

text \<open>\<open>str::ends_with\<close> for a character that is one byte.\<close>

definition ends_with_char :: "string \<Rightarrow> char \<Rightarrow> bool" where
  "ends_with_char s c \<longleftrightarrow> s \<noteq> [] \<and> last s = c"

definition print_indent :: "Printer \<Rightarrow> Printer option" where
  "print_indent p =
     (case indent_config p of
        Some tab_width \<Rightarrow>
          if tab_width = 0 then None
          else Some (p\<lparr>out := out p @ replicate (pending_indentation p div tab_width) tab
                                 @ replicate (pending_indentation p mod tab_width) blank,
                       pending_indentation := 0\<rparr>)
      | None \<Rightarrow> Some (p\<lparr>out := out p @ replicate (pending_indentation p) blank, pending_indentation := 0\<rparr>))"

definition print_string :: "string \<Rightarrow> Printer \<Rightarrow> Printer option" where
  "print_string s p = do {
     p \<leftarrow> print_indent p;
     left \<leftarrow> isize (space p - as_isize (length s));
     Some (p\<lparr>out := out p @ s, space := left\<rparr>)
   }"

definition get_top :: "Printer \<Rightarrow> PrintFrame" where
  "get_top p = (case print_stack p of [] \<Rightarrow> Broken 0 Inconsistent | f # fs \<Rightarrow> f)"

definition print_begin :: "BeginToken \<Rightarrow> int \<Rightarrow> Printer \<Rightarrow> Printer option" where
  "print_begin t sz p =
     (if sz > space p then do {
        let q = p\<lparr>print_stack := Broken (indent p) (begin_breaks t) # print_stack p\<rparr>;
        (case indent_style t of
           Block offset \<Rightarrow> do {
             i \<leftarrow> isize (as_isize (indent p) + offset);
             if i < 0 then None else Some (q\<lparr>indent := nat i\<rparr>)
           }
         | Visual \<Rightarrow>
             if ends_with_char (out p) newline then Some (q\<lparr>indent := pending_indentation p\<rparr>)
             else do {
               used \<leftarrow> isize (margin p - space p);
               Some (q\<lparr>indent := as_usize used\<rparr>)
             })
      }
      else Some (p\<lparr>print_stack := Fits (begin_breaks t) # print_stack p\<rparr>))"

definition print_end :: "Printer \<Rightarrow> Printer option" where
  "print_end p =
     (case print_stack p of
        [] \<Rightarrow> None
      | Broken i b # fs \<Rightarrow> Some (p\<lparr>indent := i, print_stack := fs\<rparr>)
      | Fits b # fs \<Rightarrow> Some (p\<lparr>print_stack := fs\<rparr>))"

definition break_fits :: "BreakToken \<Rightarrow> int \<Rightarrow> Printer \<Rightarrow> bool" where
  "break_fits t sz p \<longleftrightarrow>
     never_break t \<or>
     (case get_top p of
        Fits b \<Rightarrow> True
      | Broken i Consistent \<Rightarrow> False
      | Broken i Inconsistent \<Rightarrow> sz \<le> space p)"

definition print_break :: "BreakToken \<Rightarrow> int \<Rightarrow> Printer \<Rightarrow> Printer option" where
  "print_break t sz p =
     (if break_fits t sz p then do {
        pending \<leftarrow> usize (pending_indentation p + blank_space t);
        left \<leftarrow> isize (space p - as_isize (blank_space t));
        Some (p\<lparr>pending_indentation := pending, space := left\<rparr>)
      }
      else do {
        p \<leftarrow> (case pre_break t of
               None \<Rightarrow> Some p
             | Some s \<Rightarrow> do { p \<leftarrow> print_indent p; Some (p\<lparr>out := out p @ s\<rparr>) });
        let p = p\<lparr>out := out p @ [newline]\<rparr>;
        i \<leftarrow> isize (as_isize (indent p) + break_offset t);
        if i < 0 then None
        else do {
          left \<leftarrow> isize (margin p - i);
          let p = p\<lparr>pending_indentation := nat i, space := max left MIN_SPACE\<rparr>;
          (case post_break t of None \<Rightarrow> Some p | Some s \<Rightarrow> print_string s p)
        }
      })"

text \<open>The arm of \<open>advance_left\<close> for one token.\<close>

definition print_left :: "BufEntry \<Rightarrow> Printer \<Rightarrow> Printer option" where
  "print_left e p =
     (case entry_token e of
        Text s \<Rightarrow> do {
          total \<leftarrow> isize (left_total p + entry_size e);
          print_string s (p\<lparr>left_total := total\<rparr>)
        }
      | Break t \<Rightarrow> do {
          total \<leftarrow> isize (left_total p + as_isize (blank_space t));
          print_break t (entry_size e) (p\<lparr>left_total := total\<rparr>)
        }
      | Begin t \<Rightarrow> print_begin t (entry_size e) p
      | End \<Rightarrow> print_end p)"

lemmas print_defs = print_indent_def print_string_def print_begin_def print_end_def print_break_def

text \<open>Printing leaves the buffer alone.\<close>

lemma print_indent_buf: "print_indent p = Some q \<Longrightarrow> buf q = buf p"
  by (auto simp: print_indent_def split: option.splits if_splits)

lemma print_string_buf: "print_string s p = Some q \<Longrightarrow> buf q = buf p"
  by (auto simp: print_string_def bind_eq_Some_conv dest: print_indent_buf)

lemma print_break_buf: "print_break t s p = Some q \<Longrightarrow> buf q = buf p"
  by (auto simp: print_break_def bind_eq_Some_conv Let_def dest!: print_indent_buf print_string_buf
      split: if_splits option.splits)

lemma print_left_buf: "print_left e p = Some q \<Longrightarrow> buf q = buf p"
  by (auto simp: print_left_def print_begin_def print_end_def Let_def bind_eq_Some_conv dest!: print_string_buf print_break_buf
      split: Token.splits if_splits IndentStyle.splits list.splits PrintFrame.splits)

section \<open>Scanning\<close>

function advance_left :: "Printer \<Rightarrow> Printer option" where
  "advance_left p =
     (case ring_first (buf p) of
        None \<Rightarrow> None
      | Some e \<Rightarrow>
          if entry_size e < 0 then Some p
          else
            (case ring_pop_first (buf p) of
               None \<Rightarrow> None
             | Some (left, b) \<Rightarrow>
                 (case Option.bind (usize (ring_offset b)) (\<lambda>_. print_left left (p\<lparr>buf := b\<rparr>)) of
                    None \<Rightarrow> None
                  | Some q \<Rightarrow>
                      (let q = q\<lparr>last_printed := Some (entry_token left)\<rparr> in
                       if ring_is_empty (buf q) then Some q else advance_left q))))"
  by pat_completeness auto
termination
  by (relation "measure (\<lambda>p. length (ring_data (buf p)))")
    (auto simp: ring_pop_first_def bind_eq_Some_conv dest!: print_left_buf split: list.splits)

declare advance_left.simps [simp del]

text \<open>The size of an entry becomes known, and its index leaves the back of the scan stack.\<close>

definition resolve :: "nat \<Rightarrow> int \<Rightarrow> Printer \<Rightarrow> Printer option" where
  "resolve index sz p =
     map_option (\<lambda>b. p\<lparr>buf := b, scan_stack := butlast (scan_stack p)\<rparr>)
       (ring_index_mut index (\<lambda>e. e\<lparr>entry_size := sz\<rparr>) (buf p))"

lemma resolve_stack: "resolve index sz p = Some q \<Longrightarrow> scan_stack q = butlast (scan_stack p)"
  by (auto simp: resolve_def)

function check_stack :: "nat \<Rightarrow> Printer \<Rightarrow> Printer option" where
  "check_stack depth p =
     (if scan_stack p = [] then Some p
      else
        (let index = last (scan_stack p) in
         case ring_index (buf p) index of
           None \<Rightarrow> None
         | Some entry \<Rightarrow>
             (case entry_token entry of
                Begin t \<Rightarrow>
                  if depth = 0 then Some p
                  else
                    (case Option.bind (isize (entry_size entry + right_total p)) (\<lambda>sz. resolve index sz p) of
                       None \<Rightarrow> None
                     | Some q \<Rightarrow> check_stack (depth - 1) q)
              | End \<Rightarrow>
                  (case Option.bind (usize (depth + 1)) (\<lambda>_. resolve index 1 p) of
                     None \<Rightarrow> None
                   | Some q \<Rightarrow> check_stack (depth + 1) q)
              | _ \<Rightarrow>
                  (case Option.bind (isize (entry_size entry + right_total p)) (\<lambda>sz. resolve index sz p) of
                     None \<Rightarrow> None
                   | Some q \<Rightarrow> if depth = 0 then Some q else check_stack depth q))))"
  by pat_completeness auto
termination
  by (relation "measure (\<lambda>(depth, p). length (scan_stack p))") (auto simp: bind_eq_Some_conv dest: resolve_stack)

declare check_stack.simps [simp del]

partial_function (option) check_stream :: "Printer \<Rightarrow> Printer option" where
  "check_stream p =
     Option.bind (isize (right_total p - left_total p)) (\<lambda>width.
       if width > space p then
         (case scan_stack p of
            [] \<Rightarrow> None
          | front # rest \<Rightarrow>
              Option.bind
                (if front = ring_start (buf p)
                 then map_option (\<lambda>b. p\<lparr>scan_stack := rest, buf := b\<rparr>)
                        (ring_first_mut (\<lambda>e. e\<lparr>entry_size := SIZE_INFINITY\<rparr>) (buf p))
                 else Some p)
                (\<lambda>q. Option.bind (advance_left q) (\<lambda>r. if ring_is_empty (buf r) then Some r else check_stream r)))
       else Some p)"

text \<open>The entry is pushed; the index it gets is a \<open>usize\<close>.\<close>

definition push_entry :: "Token \<Rightarrow> int \<Rightarrow> Printer \<Rightarrow> (nat \<times> Printer) option" where
  "push_entry t sz p =
     (case ring_push \<lparr>entry_token = t, entry_size = sz\<rparr> (buf p) of (right, b) \<Rightarrow> do {
        right \<leftarrow> usize right;
        Some (right, p\<lparr>buf := b\<rparr>)
      })"

text \<open>The entry is pushed and its index goes to the back of the scan stack.\<close>

definition push_scanned :: "Token \<Rightarrow> int \<Rightarrow> Printer \<Rightarrow> Printer option" where
  "push_scanned t sz p = do {
     (right, q) \<leftarrow> push_entry t sz p;
     Some (q\<lparr>scan_stack := scan_stack q @ [right]\<rparr>)
   }"

definition reset_totals :: "Printer \<Rightarrow> Printer" where
  "reset_totals p = p\<lparr>left_total := 1, right_total := 1, buf := ring_clear (buf p)\<rparr>"

definition scan_eof :: "Printer \<Rightarrow> Printer option" where
  "scan_eof p = (if scan_stack p = [] then Some p else Option.bind (check_stack 0 p) advance_left)"

definition scan_begin :: "BeginToken \<Rightarrow> Printer \<Rightarrow> Printer option" where
  "scan_begin t p = do {
     let q = (if scan_stack p = [] then reset_totals p else p);
     sz \<leftarrow> isize (- right_total q);
     push_scanned (Begin t) sz q
   }"

definition scan_end :: "Printer \<Rightarrow> Printer option" where
  "scan_end p =
     (if scan_stack p = [] then print_end p
      else
        (case map_option entry_token (ring_last (buf p)) of
           Some (Break t) \<Rightarrow>
             (case map_option entry_token (ring_second_last (buf p)) of
                Some (Begin b) \<Rightarrow> do {
                  b1 \<leftarrow> ring_pop_last (buf p);
                  b2 \<leftarrow> ring_pop_last b1;
                  total \<leftarrow> isize (right_total p - as_isize (blank_space t));
                  Some (p\<lparr>buf := b2, scan_stack := butlast (butlast (scan_stack p)), right_total := total\<rparr>)
                }
              | _ \<Rightarrow>
                  if if_nonempty t then do {
                    b1 \<leftarrow> ring_pop_last (buf p);
                    total \<leftarrow> isize (right_total p - as_isize (blank_space t));
                    push_scanned End (-1) (p\<lparr>buf := b1, scan_stack := butlast (scan_stack p), right_total := total\<rparr>)
                  }
                  else push_scanned End (-1) p)
         | _ \<Rightarrow> push_scanned End (-1) p))"

definition scan_break :: "BreakToken \<Rightarrow> Printer \<Rightarrow> Printer option" where
  "scan_break t p = do {
     q \<leftarrow> (if scan_stack p = [] then Some (reset_totals p) else check_stack 0 p);
     sz \<leftarrow> isize (- right_total q);
     r \<leftarrow> push_scanned (Break t) sz q;
     total \<leftarrow> isize (right_total r + as_isize (blank_space t));
     Some (r\<lparr>right_total := total\<rparr>)
   }"

definition scan_string :: "string \<Rightarrow> Printer \<Rightarrow> Printer option" where
  "scan_string s p =
     (if scan_stack p = [] then print_string s p
      else do {
        let len = as_isize (length s);
        (right, q) \<leftarrow> push_entry (Text s) len p;
        total \<leftarrow> isize (right_total q + len);
        check_stream (q\<lparr>right_total := total\<rparr>)
      })"

text \<open>\<open>eof\<close> takes the printer and returns its output.\<close>

definition eof :: "Printer \<Rightarrow> string option" where
  "eof p = map_option out (scan_eof p)"

text \<open>A client hands the printer one token after the other.\<close>

definition scan_token :: "Token \<Rightarrow> Printer \<Rightarrow> Printer option" where
  "scan_token t =
     (case t of Text s \<Rightarrow> scan_string s | Break b \<Rightarrow> scan_break b | Begin b \<Rightarrow> scan_begin b | End \<Rightarrow> scan_end)"

fun scan_tokens :: "Token list \<Rightarrow> Printer \<Rightarrow> Printer option" where
  "scan_tokens [] p = Some p"
| "scan_tokens (t # ts) p = Option.bind (scan_token t p) (scan_tokens ts)"

end
