(* ===== verification/Fmt_Ideal.thy ===== *)
theory Fmt_Ideal
  imports Fmt_Printer
begin

text \<open>
  The pretty printer with unbounded integers: the operations of \<open>Fmt_Printer\<close> where arithmetic cannot overflow and
  conversions are exact. The proofs about layout are done here; \<open>Fmt_Machine\<close> shows that the printer of the code
  computes the same as long as the tokens are not larger than memory.
\<close>

section \<open>Printing\<close>

definition print_string_z :: "string \<Rightarrow> Printer \<Rightarrow> Printer option" where
  "print_string_z s p = do {
     p \<leftarrow> print_indent p;
     Some (p\<lparr>out := out p @ s, space := space p - int (length s)\<rparr>)
   }"

definition print_begin_z :: "BeginToken \<Rightarrow> int \<Rightarrow> Printer \<Rightarrow> Printer option" where
  "print_begin_z t sz p =
     (if sz > space p then
        let q = p\<lparr>print_stack := Broken (indent p) (begin_breaks t) # print_stack p\<rparr> in
        (case indent_style t of
           Block offset \<Rightarrow> if int (indent p) + offset < 0 then None else Some (q\<lparr>indent := nat (int (indent p) + offset)\<rparr>)
         | Visual \<Rightarrow>
             Some (q\<lparr>indent := (if ends_with_char (out p) newline then pending_indentation p
                                else nat (margin p - space p))\<rparr>))
      else Some (p\<lparr>print_stack := Fits (begin_breaks t) # print_stack p\<rparr>))"

definition print_break_z :: "BreakToken \<Rightarrow> int \<Rightarrow> Printer \<Rightarrow> Printer option" where
  "print_break_z t sz p =
     (if break_fits t sz p then
        Some (p\<lparr>pending_indentation := pending_indentation p + blank_space t, space := space p - int (blank_space t)\<rparr>)
      else do {
        p \<leftarrow> (case pre_break t of
               None \<Rightarrow> Some p
             | Some s \<Rightarrow> do { p \<leftarrow> print_indent p; Some (p\<lparr>out := out p @ s\<rparr>) });
        let p = p\<lparr>out := out p @ [newline]\<rparr>;
        let i = int (indent p) + break_offset t;
        if i < 0 then None
        else do {
          let p = p\<lparr>pending_indentation := nat i, space := max (margin p - i) MIN_SPACE\<rparr>;
          (case post_break t of None \<Rightarrow> Some p | Some s \<Rightarrow> print_string_z s p)
        }
      })"

text \<open>The arm of \<open>advance_left_z\<close> for one token.\<close>

definition print_left_z :: "BufEntry \<Rightarrow> Printer \<Rightarrow> Printer option" where
  "print_left_z e p =
     (case entry_token e of
        Text s \<Rightarrow> print_string_z s (p\<lparr>left_total := left_total p + entry_size e\<rparr>)
      | Break t \<Rightarrow> print_break_z t (entry_size e) (p\<lparr>left_total := left_total p + int (blank_space t)\<rparr>)
      | Begin t \<Rightarrow> print_begin_z t (entry_size e) p
      | End \<Rightarrow> print_end p)"

lemmas print_z_defs = print_indent_def print_string_z_def print_begin_z_def print_end_def print_break_z_def

text \<open>Printing leaves the buffer and the scan stack alone.\<close>

lemma print_indent_scan:
  "print_indent p = Some q \<Longrightarrow>
    buf q = buf p \<and> scan_stack q = scan_stack p \<and> right_total q = right_total p \<and> left_total q = left_total p"
  by (auto simp: print_indent_def split: option.splits if_splits)

lemma print_string_scan:
  "print_string_z s p = Some q \<Longrightarrow>
    buf q = buf p \<and> scan_stack q = scan_stack p \<and> right_total q = right_total p \<and> left_total q = left_total p"
  by (auto simp: print_string_z_def bind_eq_Some_conv dest: print_indent_scan)

lemma print_break_scan:
  "print_break_z t s p = Some q \<Longrightarrow>
    buf q = buf p \<and> scan_stack q = scan_stack p \<and> right_total q = right_total p \<and> left_total q = left_total p"
  by (auto simp: print_break_z_def bind_eq_Some_conv Let_def dest!: print_indent_scan print_string_scan
      split: if_splits option.splits)

lemma print_left_scan:
  "print_left_z e p = Some q \<Longrightarrow> buf q = buf p \<and> scan_stack q = scan_stack p \<and> right_total q = right_total p"
  by (auto simp: print_left_z_def print_begin_z_def print_end_def Let_def dest!: print_string_scan print_break_scan
      split: Token.splits if_splits IndentStyle.splits list.splits PrintFrame.splits)

section \<open>Scanning\<close>

function advance_left_z :: "Printer \<Rightarrow> Printer option" where
  "advance_left_z p =
     (case ring_first (buf p) of
        None \<Rightarrow> None
      | Some e \<Rightarrow>
          if entry_size e < 0 then Some p
          else
            (case ring_pop_first (buf p) of
               None \<Rightarrow> None
             | Some (left, b) \<Rightarrow>
                 (case print_left_z left (p\<lparr>buf := b\<rparr>) of
                    None \<Rightarrow> None
                  | Some q \<Rightarrow>
                      (let q = q\<lparr>last_printed := Some (entry_token left)\<rparr> in
                       if ring_is_empty (buf q) then Some q else advance_left_z q))))"
  by pat_completeness auto
termination
  by (relation "measure (\<lambda>p. length (ring_data (buf p)))")
    (auto simp: ring_pop_first_def dest!: print_left_scan split: list.splits)

declare advance_left_z.simps [simp del]

text \<open>The size of an entry becomes known, and its index leaves the back of the scan stack.\<close>

definition resolve_z :: "nat \<Rightarrow> (int \<Rightarrow> int) \<Rightarrow> Printer \<Rightarrow> Printer option" where
  "resolve_z index f p =
     map_option (\<lambda>b. p\<lparr>buf := b, scan_stack := butlast (scan_stack p)\<rparr>)
       (ring_index_mut index (\<lambda>e. e\<lparr>entry_size := f (entry_size e)\<rparr>) (buf p))"

lemma resolve_z_stack: "resolve_z index f p = Some q \<Longrightarrow> scan_stack q = butlast (scan_stack p)"
  by (auto simp: resolve_z_def)

function check_stack_z :: "nat \<Rightarrow> Printer \<Rightarrow> Printer option" where
  "check_stack_z depth p =
     (if scan_stack p = [] then Some p
      else
        (let index = last (scan_stack p) in
         case ring_index (buf p) index of
           None \<Rightarrow> None
         | Some entry \<Rightarrow>
             (case entry_token entry of
                Begin t \<Rightarrow>
                  if depth = 0 then Some p
                  else (case resolve_z index (\<lambda>s. s + right_total p) p of None \<Rightarrow> None | Some q \<Rightarrow> check_stack_z (depth - 1) q)
              | End \<Rightarrow> (case resolve_z index (\<lambda>s. 1) p of None \<Rightarrow> None | Some q \<Rightarrow> check_stack_z (depth + 1) q)
              | _ \<Rightarrow>
                  (case resolve_z index (\<lambda>s. s + right_total p) p of
                     None \<Rightarrow> None
                   | Some q \<Rightarrow> if depth = 0 then Some q else check_stack_z depth q))))"
  by pat_completeness auto
termination
  by (relation "measure (\<lambda>(depth, p). length (scan_stack p))") (auto dest: resolve_z_stack)

declare check_stack_z.simps [simp del]

partial_function (option) check_stream_z :: "Printer \<Rightarrow> Printer option" where
  "check_stream_z p =
     (if right_total p - left_total p > space p then
        (case scan_stack p of
           [] \<Rightarrow> None
         | front # rest \<Rightarrow>
             Option.bind
               (if front = ring_start (buf p)
                then map_option (\<lambda>b. p\<lparr>scan_stack := rest, buf := b\<rparr>)
                       (ring_first_mut (\<lambda>e. e\<lparr>entry_size := SIZE_INFINITY\<rparr>) (buf p))
                else Some p)
               (\<lambda>q. Option.bind (advance_left_z q) (\<lambda>r. if ring_is_empty (buf r) then Some r else check_stream_z r)))
      else Some p)"

definition push_entry_z :: "Token \<Rightarrow> int \<Rightarrow> Printer \<Rightarrow> nat \<times> Printer" where
  "push_entry_z t sz p =
     (case ring_push \<lparr>entry_token = t, entry_size = sz\<rparr> (buf p) of (right, b) \<Rightarrow> (right, p\<lparr>buf := b\<rparr>))"

text \<open>The entry is pushed and its index goes to the back of the scan stack.\<close>

definition push_scanned_z :: "Token \<Rightarrow> int \<Rightarrow> Printer \<Rightarrow> Printer" where
  "push_scanned_z t sz p =
     (case push_entry_z t sz p of (right, q) \<Rightarrow> q\<lparr>scan_stack := scan_stack q @ [right]\<rparr>)"

definition scan_eof_z :: "Printer \<Rightarrow> Printer option" where
  "scan_eof_z p = (if scan_stack p = [] then Some p else Option.bind (check_stack_z 0 p) advance_left_z)"

definition scan_begin_z :: "BeginToken \<Rightarrow> Printer \<Rightarrow> Printer option" where
  "scan_begin_z t p =
     (let q = (if scan_stack p = [] then reset_totals p else p) in
      Some (push_scanned_z (Begin t) (- right_total q) q))"

definition scan_end_z :: "Printer \<Rightarrow> Printer option" where
  "scan_end_z p =
     (if scan_stack p = [] then print_end p
      else
        (case map_option entry_token (ring_last (buf p)) of
           Some (Break t) \<Rightarrow>
             (case map_option entry_token (ring_second_last (buf p)) of
                Some (Begin b) \<Rightarrow> do {
                  b1 \<leftarrow> ring_pop_last (buf p);
                  b2 \<leftarrow> ring_pop_last b1;
                  Some (p\<lparr>buf := b2, scan_stack := butlast (butlast (scan_stack p)),
                          right_total := right_total p - int (blank_space t)\<rparr>)
                }
              | _ \<Rightarrow>
                  if if_nonempty t then do {
                    b1 \<leftarrow> ring_pop_last (buf p);
                    Some (push_scanned_z End (-1) (p\<lparr>buf := b1, scan_stack := butlast (scan_stack p),
                          right_total := right_total p - int (blank_space t)\<rparr>))
                  }
                  else Some (push_scanned_z End (-1) p))
         | _ \<Rightarrow> Some (push_scanned_z End (-1) p)))"

definition scan_break_z :: "BreakToken \<Rightarrow> Printer \<Rightarrow> Printer option" where
  "scan_break_z t p = do {
     q \<leftarrow> (if scan_stack p = [] then Some (reset_totals p) else check_stack_z 0 p);
     let r = push_scanned_z (Break t) (- right_total q) q;
     Some (r\<lparr>right_total := right_total r + int (blank_space t)\<rparr>)
   }"

definition scan_string_z :: "string \<Rightarrow> Printer \<Rightarrow> Printer option" where
  "scan_string_z s p =
     (if scan_stack p = [] then print_string_z s p
      else
        (let q = snd (push_entry_z (Text s) (int (length s)) p) in
         check_stream_z (q\<lparr>right_total := right_total q + int (length s)\<rparr>)))"

definition eof_z :: "Printer \<Rightarrow> string option" where
  "eof_z p = map_option out (scan_eof_z p)"

definition scan_token_z :: "Token \<Rightarrow> Printer \<Rightarrow> Printer option" where
  "scan_token_z t =
     (case t of Text s \<Rightarrow> scan_string_z s | Break b \<Rightarrow> scan_break_z b | Begin b \<Rightarrow> scan_begin_z b | End \<Rightarrow> scan_end_z)"

fun scan_tokens_z :: "Token list \<Rightarrow> Printer \<Rightarrow> Printer option" where
  "scan_tokens_z [] p = Some p"
| "scan_tokens_z (t # ts) p = Option.bind (scan_token_z t p) (scan_tokens_z ts)"

section \<open>Invariants of the loops\<close>

lemma advance_left_z_invariant:
  assumes "I p" "advance_left_z p = Some q"
    and step: "\<And>p e b r. I p \<Longrightarrow> ring_pop_first (buf p) = Some (e, b) \<Longrightarrow> entry_size e \<ge> 0 \<Longrightarrow> print_left_z e (p\<lparr>buf := b\<rparr>) = Some r \<Longrightarrow>
      I (r\<lparr>last_printed := Some (entry_token e)\<rparr>)"
  shows "I q"
  using assms(1,2)
proof (induction p rule: advance_left_z.induct)
  case (1 p)
  obtain e where e: "ring_first (buf p) = Some e"
    using "1.prems"(2) by (subst (asm) advance_left_z.simps) (auto split: option.splits)
  show ?case
  proof (cases "entry_size e < 0")
    case True
    then show ?thesis using "1.prems" e by (subst (asm) advance_left_z.simps) simp
  next
    case False
    obtain b where b: "ring_pop_first (buf p) = Some (e, b)" using e by (auto simp: ring_first_def ring_pop_first_def split: list.splits)
    obtain r where r: "print_left_z e (p\<lparr>buf := b\<rparr>) = Some r"
      using "1.prems"(2) e False b by (subst (asm) advance_left_z.simps) (auto split: option.splits)
    have "I (r\<lparr>last_printed := Some (entry_token e)\<rparr>)" by (rule step [OF "1.prems"(1) b _ r]) (use False in simp)
    moreover have "q = r\<lparr>last_printed := Some (entry_token e)\<rparr> \<or>
        \<not> ring_is_empty (buf r) \<and> advance_left_z (r\<lparr>last_printed := Some (entry_token e)\<rparr>) = Some q"
      using "1.prems"(2) e False b r by (subst (asm) advance_left_z.simps) (simp add: Let_def split: if_splits)
    ultimately show ?thesis using "1.IH" [OF e False b refl r refl] by auto
  qed
qed

lemma check_stack_z_invariant:
  assumes "I p" "check_stack_z d p = Some q"
    and step: "\<And>p i f r. I p \<Longrightarrow> i = last (scan_stack p) \<Longrightarrow> scan_stack p \<noteq> [] \<Longrightarrow> resolve_z i f p = Some r \<Longrightarrow> I r"
  shows "I q"
  using assms(1,2)
proof (induction "length (scan_stack p)" arbitrary: d p rule: less_induct)
  case less
  have rec: "I q" if "resolve_z (last (scan_stack p)) f p = Some r" "check_stack_z d' r = Some q" "scan_stack p \<noteq> []" for f r d'
    using less.hyps [of r d'] resolve_z_stack [OF that(1)] step [OF less.prems(1) refl that(3,1)] that(2,3) by simp
  have once: "I r" if "resolve_z (last (scan_stack p)) f p = Some r" "scan_stack p \<noteq> []" for f r
    by (rule step [OF less.prems(1) refl that(2,1)])
  from less.prems show ?case
    by (subst (asm) check_stack_z.simps) (auto simp: Let_def split: if_splits option.splits Token.splits intro: rec once)
qed

lemma check_stream_z_invariant:
  assumes "check_stream_z p = Some q" "I p"
    and front: "\<And>p b rest. I p \<Longrightarrow> ring_first_mut (\<lambda>e. e\<lparr>entry_size := SIZE_INFINITY\<rparr>) (buf p) = Some b \<Longrightarrow> I (p\<lparr>scan_stack := rest, buf := b\<rparr>)"
    and step: "\<And>p e b r. I p \<Longrightarrow> ring_pop_first (buf p) = Some (e, b) \<Longrightarrow> entry_size e \<ge> 0 \<Longrightarrow> print_left_z e (p\<lparr>buf := b\<rparr>) = Some r \<Longrightarrow>
      I (r\<lparr>last_printed := Some (entry_token e)\<rparr>)"
  shows "I q"
proof -
  have adv: "I r" if "advance_left_z p = Some r" "I p" for p r by (rule advance_left_z_invariant [OF that(2,1) step])
  have "I p \<longrightarrow> I q"
  proof (rule check_stream_z.raw_induct [OF _ assms(1)], intro impI)
    fix rec :: "Printer \<Rightarrow> Printer option" and p q
    assume IH: "\<And>p q. rec p = Some q \<Longrightarrow> I p \<longrightarrow> I q" and "I p"
      and run: "(if right_total p - left_total p > space p then
        (case scan_stack p of
           [] \<Rightarrow> None
         | front # rest \<Rightarrow>
             Option.bind
               (if front = ring_start (buf p)
                then map_option (\<lambda>b. p\<lparr>scan_stack := rest, buf := b\<rparr>)
                       (ring_first_mut (\<lambda>e. e\<lparr>entry_size := SIZE_INFINITY\<rparr>) (buf p))
                else Some p)
               (\<lambda>q. Option.bind (advance_left_z q) (\<lambda>r. if ring_is_empty (buf r) then Some r else rec r)))
        else Some p) = Some q"
    have IH': "I q" if "rec p = Some q" "I p" for p q using IH that by blast
    from run \<open>I p\<close> show "I q"
      by (auto simp: bind_eq_Some_conv split: if_splits list.splits dest: adv intro: adv front IH' [OF _ adv] IH' [OF _ adv [OF _ front]])
  qed
  then show ?thesis using assms(2) by blast
qed

end
