(* ===== verification/Fmt_Scan.thy ===== *)
theory Fmt_Scan
  imports Fmt_Ideal
begin

text \<open>
  The scanning half of the pretty printer, seen on the list of buffered entries: the scan stack is the
  list of indices of the entries whose size is not yet known, \<open>check_stack_z\<close> is the function \<open>settle\<close> on the
  reversed list, and the sizes it finds are at least the width of what they stand for.
\<close>

section \<open>The scan stack\<close>

fun unsettled :: "nat \<Rightarrow> BufEntry list \<Rightarrow> nat list" where
  "unsettled i [] = []"
| "unsettled i (e # es) = (if entry_size e < 0 then i # unsettled (Suc i) es else unsettled (Suc i) es)"

lemma unsettled_append: "unsettled i (xs @ ys) = unsettled i xs @ unsettled (i + length xs) ys"
  by (induction xs arbitrary: i) auto

lemma unsettled_Nil: "unsettled i es = [] \<longleftrightarrow> list_all (\<lambda>e. entry_size e \<ge> 0) es"
  by (induction es arbitrary: i) auto

lemma unsettled_ge: "j \<in> set (unsettled i es) \<Longrightarrow> i \<le> j"
  by (induction es arbitrary: i) (auto split: if_splits dest: Suc_leD)

text \<open>What \<open>check_stack_z\<close> does to the entries, the last one first.\<close>

fun settle :: "int \<Rightarrow> nat \<Rightarrow> BufEntry list \<Rightarrow> BufEntry list" where
  "settle rt d [] = []"
| "settle rt d (e # es) =
     (if entry_size e \<ge> 0 then e # settle rt d es
      else
        (case entry_token e of
           Begin b \<Rightarrow> if d = 0 then e # es else e\<lparr>entry_size := entry_size e + rt\<rparr> # settle rt (d - 1) es
         | End \<Rightarrow> e\<lparr>entry_size := 1\<rparr> # settle rt (d + 1) es
         | _ \<Rightarrow> e\<lparr>entry_size := entry_size e + rt\<rparr> # (if d = 0 then es else settle rt d es)))"

lemma settle_tokens [simp]: "map entry_token (settle rt d es) = map entry_token es"
  by (induction rt d es rule: settle.induct) (auto split: Token.split)

lemma settle_length [simp]: "length (settle rt d es) = length es"
  using settle_tokens [of rt d es] by (metis length_map)

definition settleable :: "int \<Rightarrow> BufEntry list \<Rightarrow> bool" where
  "settleable rt es \<longleftrightarrow> list_all (\<lambda>e. entry_token e \<noteq> End \<longrightarrow> entry_size e + rt \<ge> 0) es"

lemma ring_index_mid:
  "ring_data b = xs @ e # ys \<Longrightarrow> ring_index b (ring_offset b + length xs) = Some e"
  by (simp add: ring_index_def)

lemma resolve_mid:
  assumes "ring_data (buf p) = xs @ e # ys" "scan_stack p = st @ [ring_offset (buf p) + length xs]"
  shows "resolve_z (ring_offset (buf p) + length xs) f p =
    Some (p\<lparr>buf := (buf p)\<lparr>ring_data := xs @ e\<lparr>entry_size := f (entry_size e)\<rparr> # ys\<rparr>, scan_stack := st\<rparr>)"
  using assms by (simp add: resolve_z_def ring_index_mut_def ring_index_mid)

lemma check_stack_settles:
  assumes "ring_data (buf p) = rev R @ T" "scan_stack p = unsettled (ring_offset (buf p)) (rev R)"
    "settleable (right_total p) R"
  shows "check_stack_z d p = Some (p\<lparr>buf := (buf p)\<lparr>ring_data := rev (settle (right_total p) d R) @ T\<rparr>,
    scan_stack := unsettled (ring_offset (buf p)) (rev (settle (right_total p) d R))\<rparr>)"
  using assms
proof (induction R arbitrary: d p T)
  case Nil
  then show ?case by (subst check_stack_z.simps) simp
next
  case (Cons e R)
  let ?o = "ring_offset (buf p)" and ?rt = "right_total p"
  have data: "ring_data (buf p) = rev R @ e # T" using Cons.prems(1) by simp
  have sr: "settleable ?rt R" using Cons.prems(3) by (simp add: settleable_def)
  show ?case
  proof (cases "entry_size e \<ge> 0")
    case True
    then have "scan_stack p = unsettled ?o (rev R)" using Cons.prems(2) by (simp add: unsettled_append)
    from Cons.IH [OF data this sr] True show ?thesis by (simp add: unsettled_append)
  next
    case False
    then have st: "scan_stack p = unsettled ?o (rev R) @ [?o + length (rev R)]"
      using Cons.prems(2) by (simp add: unsettled_append)
    have rest: "check_stack_z d' (p\<lparr>buf := (buf p)\<lparr>ring_data := rev R @ e' # T\<rparr>, scan_stack := unsettled ?o (rev R)\<rparr>) =
      Some (p\<lparr>buf := (buf p)\<lparr>ring_data := rev (settle ?rt d' R) @ e' # T\<rparr>,
        scan_stack := unsettled ?o (rev (settle ?rt d' R))\<rparr>)" for d' e'
      using Cons.IH [of "p\<lparr>buf := (buf p)\<lparr>ring_data := rev R @ e' # T\<rparr>, scan_stack := unsettled ?o (rev R)\<rparr>" "e' # T" d'] sr
      by simp
    have pos: "entry_token e \<noteq> End \<Longrightarrow> entry_size e + ?rt \<ge> 0" using Cons.prems(3) by (simp add: settleable_def)
    have same: "p = p\<lparr>buf := (buf p)\<lparr>ring_data := rev R @ e # T\<rparr>,
      scan_stack := unsettled ?o (rev R) @ [?o + length R]\<rparr>"
      using data st by (cases p; cases "buf p") auto
    show ?thesis
      using False pos rest same
      by (subst check_stack_z.simps)
        (auto simp: st ring_index_mid [OF data, unfolded length_rev] resolve_mid [OF data st, unfolded length_rev] unsettled_append Let_def
          split: Token.split)
  qed
qed

section \<open>Widths\<close>

fun weight :: "Token \<Rightarrow> int" where
  "weight (Text s) = int (length s)"
| "weight (Break b) = int (blank_space b)"
| "weight _ = 0"

abbreviation weights :: "Token list \<Rightarrow> int" where
  "weights ts \<equiv> sum_list (map weight ts)"

lemma weight_nonneg [simp]: "weight t \<ge> 0"
  by (cases t) auto

lemma weights_nonneg [simp]: "weights ts \<ge> 0"
  by (induction ts) auto

text \<open>The width up to the end of the enclosing block, \<open>d\<close> levels further out; \<open>None\<close> when it is not closed.\<close>

fun group :: "nat \<Rightarrow> Token list \<Rightarrow> int option" where
  "group d [] = None"
| "group d (Begin b # ts) = group (Suc d) ts"
| "group 0 (End # ts) = Some 0"
| "group (Suc d) (End # ts) = group d ts"
| "group d (Text s # ts) = map_option ((+) (int (length s))) (group d ts)"
| "group d (Break b # ts) = map_option ((+) (int (blank_space b))) (group d ts)"

lemma group_bounds: "group d ts = Some w \<Longrightarrow> 0 \<le> w \<and> w \<le> weights ts"
  by (induction d ts arbitrary: w rule: group.induct) fastforce+

lemma group_append: "group d ts = Some w \<Longrightarrow> group d (ts @ us) = Some w"
  by (induction d ts arbitrary: w rule: group.induct) fastforce+

lemma group_snoc: "group d (ts @ [t]) = Some w \<Longrightarrow> t \<noteq> End \<Longrightarrow> group d ts = Some w"
proof (induction d ts arbitrary: w rule: group.induct)
  case (1 d)
  then show ?case by (cases t) auto
qed fastforce+

section \<open>Sizes of the entries\<close>

text \<open>
  \<open>t\<close> is the total to the left of the entry. An entry either waits for its size, which starts as minus
  that total, or has one that is at least the width it stands for.
\<close>

definition entry_ok :: "int \<Rightarrow> BufEntry \<Rightarrow> Token list \<Rightarrow> bool" where
  "entry_ok t e ts \<longleftrightarrow>
     (case entry_token e of
        Text s \<Rightarrow> entry_size e = int (length s)
      | Break b \<Rightarrow> entry_size e = - t \<or> entry_size e \<ge> int (blank_space b)
      | Begin b \<Rightarrow> entry_size e = - t \<or> (\<exists>w. group 0 ts = Some w \<and> w \<le> entry_size e)
      | End \<Rightarrow> entry_size e = -1 \<or> entry_size e = 1)"

fun entries_ok :: "int \<Rightarrow> BufEntry list \<Rightarrow> Token list \<Rightarrow> bool" where
  "entries_ok t [] T \<longleftrightarrow> True"
| "entries_ok t (e # es) T \<longleftrightarrow>
     entry_ok t e (map entry_token es @ T) \<and> entries_ok (t + weight (entry_token e)) es T"

abbreviation tokens :: "BufEntry list \<Rightarrow> Token list" where
  "tokens \<equiv> map entry_token"

lemma entries_ok_append:
  "entries_ok t (xs @ ys) T \<longleftrightarrow> entries_ok t xs (tokens ys @ T) \<and> entries_ok (t + weights (tokens xs)) ys T"
  by (induction xs arbitrary: t) (auto simp: algebra_simps)

lemma entry_ok_more: "entry_ok t e ts \<Longrightarrow> entry_ok t e (ts @ us)"
  by (auto simp: entry_ok_def group_append split: Token.splits)

lemma entry_ok_less: "entry_ok t e (ts @ [u]) \<Longrightarrow> u \<noteq> End \<Longrightarrow> entry_ok t e ts"
  by (auto simp: entry_ok_def dest: group_snoc split: Token.splits)

lemma entries_ok_more: "entries_ok t es T \<Longrightarrow> entries_ok t es (T @ U)"
  by (induction es arbitrary: t) (auto dest: entry_ok_more [where us = U])

lemma entries_ok_less: "entries_ok t es (T @ [u]) \<Longrightarrow> u \<noteq> End \<Longrightarrow> entries_ok t es T"
  using entry_ok_less [where u = u] by (induction es arbitrary: t) (auto simp: append_assoc [symmetric] simp del: append_assoc)

lemma entries_settleable:
  assumes "entries_ok t es T" "t \<ge> 0" "rt \<ge> t + weights (tokens es)"
  shows "settleable rt es"
  using assms
proof (induction es arbitrary: t)
  case (Cons e es)
  have "settleable rt es" using Cons.prems weight_nonneg [of "entry_token e"] by (intro Cons.IH [of "t + weight (entry_token e)"]) (auto simp: algebra_simps)
  moreover have "entry_token e \<noteq> End \<longrightarrow> entry_size e + rt \<ge> 0"
    using Cons.prems group_bounds weight_nonneg [of "entry_token e"] weights_nonneg [of "tokens es"]
    by (fastforce simp: entry_ok_def split: Token.splits)
  ultimately show ?case by (simp add: settleable_def)
qed (simp add: settleable_def)

section \<open>Blocks in the buffer\<close>

text \<open>
  A block and its end are settled together. The entries are read backwards; the list has, for each end
  whose block is still to come, whether it is settled.
\<close>

fun matched :: "bool list \<Rightarrow> BufEntry list \<Rightarrow> bool" where
  "matched bs [] \<longleftrightarrow> True"
| "matched bs (e # es) \<longleftrightarrow>
     (case entry_token e of
        End \<Rightarrow> matched ((entry_size e \<ge> 0) # bs) es
      | Begin b \<Rightarrow>
          (case bs of
             [] \<Rightarrow> entry_size e < 0 \<and> matched [] es
           | s # bs' \<Rightarrow> (entry_size e \<ge> 0) = s \<and> matched bs' es)
      | _ \<Rightarrow> matched bs es)"

lemma matched_prefix: "matched bs (xs @ ys) \<Longrightarrow> matched bs xs"
  by (induction xs arbitrary: bs) (auto split: Token.splits list.splits)

lemma matched_end: "matched bs es \<Longrightarrow> matched (bs @ [False]) es"
proof (induction bs es rule: matched.induct)
  case (2 bs e es)
  then show ?case by (cases bs) (auto split: Token.splits)
qed simp

definition count_open :: "bool list \<Rightarrow> nat" where
  "count_open bs = length (filter Not bs)"

lemma count_open_simps [simp]:
  "count_open [] = 0" "count_open (b # bs) = (if b then count_open bs else Suc (count_open bs))"
  by (simp_all add: count_open_def)

lemma count_open_zero: "count_open bs = 0 \<longleftrightarrow> bs = replicate (length bs) True"
  by (induction bs) auto

lemma settle_matched:
  "matched bs es \<Longrightarrow> settleable rt es \<Longrightarrow> matched (replicate (length bs) True) (settle rt (count_open bs) es)"
proof (induction es arbitrary: bs)
  case (Cons e es)
  have IH: "matched cs es \<Longrightarrow> matched (replicate (length cs) True) (settle rt (count_open cs) es)" for cs
    using Cons by (simp add: settleable_def)
  have z: "count_open bs = 0 \<Longrightarrow> replicate (length bs) True = bs" for bs by (metis count_open_zero)
  have pos: "entry_token e \<noteq> End \<longrightarrow> entry_size e + rt \<ge> 0" using Cons.prems(2) by (simp add: settleable_def)
  show ?case
  proof (cases "entry_token e")
    case (Begin b)
    then show ?thesis
      using Cons.prems(1) IH [of "tl bs"] pos z by (cases bs) (auto split: if_splits)
  next
    case End
    then show ?thesis
      using Cons.prems(1) IH [of "True # bs"] IH [of "False # bs"] by (auto split: if_splits)
  qed (use Cons.prems(1) IH [of bs] pos z [of bs] in auto)
qed simp

lemma settle_entries_ok:
  assumes "entries_ok t (rev es) T" "matched bs es" "settleable rt es"
    "rt = t + weights (tokens es) + weights T" "\<And>j. j < length bs \<Longrightarrow> group j T \<noteq> None"
  shows "entries_ok t (rev (settle rt (count_open bs) es)) T"
  using assms
proof (induction es arbitrary: bs T)
  case (Cons e es)
  let ?t = "t + weights (tokens (rev es))" and ?tok = "entry_token e"
  have parts: "entries_ok t (rev es) (?tok # T)" "entry_ok ?t e T"
    using Cons.prems(1) by (simp_all add: entries_ok_append)
  have IH: "matched cs es \<Longrightarrow> (\<And>j. j < length cs \<Longrightarrow> group j (?tok # T) \<noteq> None) \<Longrightarrow>
      entries_ok t (rev (settle rt (count_open cs) es)) (?tok # T)" for cs
    using Cons.IH [OF parts(1), of cs] Cons.prems(3,4) by (simp add: settleable_def algebra_simps)
  have rt: "rt = ?t + weight ?tok + weights T" using Cons.prems(4) by (simp add: rev_map [symmetric])
  have now: "entry_ok ?t (e\<lparr>entry_size := entry_size e + rt\<rparr>) T"
    if "entry_size e < 0" "?tok \<noteq> End" "bs \<noteq> [] \<or> (\<forall>b. ?tok \<noteq> Begin b)"
    using that parts(2) rt Cons.prems(5) [of 0] group_bounds [of 0 T] weights_nonneg [of T]
    by (cases ?tok) (auto simp: entry_ok_def)
  have fin: "entries_ok t (rev (settle rt d es)) (?tok # T) \<Longrightarrow> entry_ok ?t e' T \<Longrightarrow> entry_token e' = ?tok \<Longrightarrow>
      entries_ok t (rev (settle rt d es) @ [e']) T" for d e'
    by (simp add: entries_ok_append rev_map [symmetric])
  have fin': "entry_ok ?t e' T \<Longrightarrow> entry_token e' = ?tok \<Longrightarrow> entries_ok t (rev es @ [e']) T" for e'
    using parts(1) by (simp add: entries_ok_append)
  show ?case
  proof (cases ?tok)
    case (Begin b)
    have g: "group j (?tok # T) \<noteq> None" if "j < length (tl bs)" for j
      using Cons.prems(5) [of "Suc j"] that Begin by simp
    show ?thesis
      using Begin Cons.prems(2) IH [of "tl bs"] g parts now fin fin' by (cases bs) (auto simp: entries_ok_append)
  next
    case End
    have g: "group j (?tok # T) \<noteq> None" if "j < Suc (length bs)" for j
      using Cons.prems(5) [of "j - 1"] that End by (cases j) auto
    have "entry_ok ?t (e\<lparr>entry_size := 1\<rparr>) T" using End by (simp add: entry_ok_def)
    then show ?thesis
      using End Cons.prems(2) IH [of "True # bs"] IH [of "False # bs"] g parts fin by (auto simp: entries_ok_append)
  next
    case (Text x)
    have g: "group j (?tok # T) \<noteq> None" if "j < length bs" for j
      using Cons.prems(5) [of j] that Text by simp
    show ?thesis using Text Cons.prems(2) IH [of bs] g parts now fin fin' by auto
  next
    case (Break x)
    have g: "group j (?tok # T) \<noteq> None" if "j < length bs" for j
      using Cons.prems(5) [of j] that Break by simp
    show ?thesis using Break Cons.prems(2) IH [of bs] g parts now fin fin' by auto
  qed
qed simp

section \<open>The levels of the scan stack\<close>

definition waiting :: "BufEntry list \<Rightarrow> Token list" where
  "waiting es = tokens (filter (\<lambda>e. entry_size e < 0) es)"

lemma waiting_simps [simp]:
  "waiting [] = []" "waiting (e # es) = (if entry_size e < 0 then entry_token e # waiting es else waiting es)"
  "waiting (xs @ ys) = waiting xs @ waiting ys"
  by (simp_all add: waiting_def)

text \<open>
  Read from the top, with \<open>d\<close> ends still to be matched: in the innermost open block, at most one break waits,
  and it waits below the blocks that follow it.
\<close>

fun levels :: "nat \<Rightarrow> Token list \<Rightarrow> bool" where
  "levels d [] \<longleftrightarrow> True"
| "levels d (End # ts) \<longleftrightarrow> levels (Suc d) ts"
| "levels d (Begin b # ts) \<longleftrightarrow> levels (d - 1) ts"
| "levels d (Text s # ts) \<longleftrightarrow> False"
| "levels d (Break b # ts) \<longleftrightarrow> (if d = 0 then ts = [] \<or> (\<exists>b us. ts = Begin b # us) \<and> levels 0 ts else levels d ts)"

lemma levels_Suc: "levels d ts \<Longrightarrow> levels (Suc d) ts"
proof (induction d ts rule: levels.induct)
  case (3 d b ts)
  then show ?case by (cases d) auto
next
  case (5 d b ts)
  then show ?case by (cases d) auto
qed auto

lemma levels_prefix: "levels d (xs @ ys) \<Longrightarrow> levels d xs"
proof (induction d xs rule: levels.induct)
  case (5 d b ts)
  then show ?case by (cases d; cases ts) auto
qed auto

lemma settle_levels:
  assumes "levels d (waiting es)" "settleable rt es"
  shows "waiting (settle rt d es) = [] \<or> (\<exists>b us. waiting (settle rt d es) = Begin b # us) \<and> levels 0 (waiting (settle rt d es))"
  using assms
proof (induction es arbitrary: d)
  case (Cons e es)
  then show ?case by (cases "entry_token e"; cases d) (auto simp: settleable_def split: if_splits)
qed simp

text \<open>Blocks that are not closed, reading backwards with \<open>k\<close> ends to be matched.\<close>

fun opens :: "nat \<Rightarrow> Token list \<Rightarrow> nat" where
  "opens k [] = 0"
| "opens k (End # ts) = opens (Suc k) ts"
| "opens k (Begin b # ts) = (if k = 0 then Suc (opens 0 ts) else opens (k - 1) ts)"
| "opens k (Text s # ts) = opens k ts"
| "opens k (Break b # ts) = opens k ts"

lemma no_open_waiting:
  assumes "matched bs es" "count_open bs = 0" "opens (length bs) (tokens es) = 0"
  shows "waiting es \<noteq> Begin b # us"
  using assms
proof (induction es arbitrary: bs)
  case (Cons e es)
  show ?case
  proof (cases "entry_token e")
    case End
    then show ?thesis using Cons.prems Cons.IH [of "True # bs"] by (auto split: if_splits)
  next
    case (Begin x)
    then show ?thesis using Cons.prems Cons.IH [of "tl bs"] by (cases bs) (auto split: if_splits)
  qed (use Cons.prems Cons.IH [of bs] in auto)
qed simp

lemma settle_drains:
  assumes "matched bs es" "levels (count_open bs) (waiting es)" "opens (length bs) (tokens es) = 0" "settleable rt es"
  shows "list_all (\<lambda>e. entry_size e \<ge> 0) (settle rt (count_open bs) es)"
  using assms
proof (induction es arbitrary: bs)
  case (Cons e es)
  show ?case
  proof (cases "entry_token e")
    case End
    then show ?thesis using Cons.prems Cons.IH [of "True # bs"] Cons.IH [of "False # bs"] by (auto simp: settleable_def split: if_splits)
  next
    case (Begin x)
    then show ?thesis using Cons.prems Cons.IH [of "tl bs"] no_open_waiting [of bs "e # es" x]
      by (cases bs) (auto simp: settleable_def split: if_splits)
  next
    case (Break x)
    then show ?thesis using Cons.prems Cons.IH [of bs] no_open_waiting [of bs es]
      by (auto simp: settleable_def list_all_iff waiting_def filter_empty_conv not_less split: if_splits)
  qed (use Cons.prems Cons.IH [of bs] in \<open>auto simp: settleable_def split: if_splits\<close>)
qed simp

end
