(* ===== verification/Fmt_Layout.thy ===== *)
theory Fmt_Layout
  imports Fmt_Scan
begin

text \<open>
  What a layout of a token sequence is: the specification of the pretty printer, with nothing of its buffer
  and its totals. A block is either printed flat, which is allowed only where its width up to its end
  fits on the line, or broken; a break is either its blanks or a line end with the indentation of its
  block. Every character of the output, blanks and tabs included, is determined by these choices.
\<close>

section \<open>Hard breaks\<close>

definition hard :: "BreakToken \<Rightarrow> bool" where
  "hard b \<longleftrightarrow> int (blank_space b) \<ge> SIZE_INFINITY \<and> \<not> never_break b"

section \<open>The sheet\<close>

text \<open>
  The text so far, the blanks owed before the next text, the indentation of the innermost broken block, the
  open blocks, and how much of the line is used. After a line end at most \<open>m - MIN_SPACE\<close> counts
  as used, however deep the indentation is.
\<close>

record Sheet =
  sheet_text :: string
  sheet_owed :: nat
  sheet_indent :: nat
  sheet_blocks :: "PrintFrame list"
  sheet_used :: int

definition empty_sheet :: Sheet where
  "empty_sheet = \<lparr>sheet_text = [], sheet_owed = 0, sheet_indent = 0, sheet_blocks = [], sheet_used = 0\<rparr>"

definition blanks :: "nat option \<Rightarrow> nat \<Rightarrow> string" where
  "blanks tabs n =
     (case tabs of None \<Rightarrow> replicate n blank | Some w \<Rightarrow> replicate (n div w) tab @ replicate (n mod w) blank)"

definition put_text :: "nat option \<Rightarrow> string \<Rightarrow> Sheet \<Rightarrow> Sheet" where
  "put_text tabs s S = S\<lparr>sheet_text := sheet_text S @ blanks tabs (sheet_owed S) @ s, sheet_owed := 0\<rparr>"

definition write_text :: "nat option \<Rightarrow> string \<Rightarrow> Sheet \<Rightarrow> Sheet" where
  "write_text tabs s S = (put_text tabs s S)\<lparr>sheet_used := sheet_used S + int (length s)\<rparr>"

definition maybe :: "(string \<Rightarrow> Sheet \<Rightarrow> Sheet) \<Rightarrow> string option \<Rightarrow> Sheet \<Rightarrow> Sheet" where
  "maybe f s S = (case s of None \<Rightarrow> S | Some s \<Rightarrow> f s S)"

definition end_line :: "nat option \<Rightarrow> int \<Rightarrow> BreakToken \<Rightarrow> nat \<Rightarrow> Sheet \<Rightarrow> Sheet" where
  "end_line tabs m b i S =
     (let S = maybe (put_text tabs) (pre_break b) S;
          S = S\<lparr>sheet_text := sheet_text S @ [newline], sheet_owed := i, sheet_used := min (int i) (m - MIN_SPACE)\<rparr>
      in maybe (write_text tabs) (post_break b) S)"

definition in_flat :: "Sheet \<Rightarrow> bool" where
  "in_flat S \<longleftrightarrow> (case sheet_blocks S of Fits b # fs \<Rightarrow> True | _ \<Rightarrow> False)"

definition in_consistent :: "Sheet \<Rightarrow> bool" where
  "in_consistent S \<longleftrightarrow> (case sheet_blocks S of Broken i Consistent # fs \<Rightarrow> True | _ \<Rightarrow> False)"

text \<open>The indentation inside a broken block; a block that aligns takes the column it starts at.\<close>

definition inner_indent :: "BeginToken \<Rightarrow> Sheet \<Rightarrow> int" where
  "inner_indent b S =
     (case indent_style b of
        Block offset \<Rightarrow> int (sheet_indent S) + offset
      | Visual \<Rightarrow> if ends_with_char (sheet_text S) newline then int (sheet_owed S) else sheet_used S)"

section \<open>Layouts\<close>

text \<open>
  \<open>drawn tabs m P ts S\<close>: \<open>S\<close> is a layout of the tokens \<open>P\<close> on lines of width \<open>m\<close>, where \<open>ts\<close> are still to come.
\<close>

inductive drawn :: "nat option \<Rightarrow> int \<Rightarrow> Token list \<Rightarrow> Token list \<Rightarrow> Sheet \<Rightarrow> bool" for tabs m where
  start: "drawn tabs m [] ts empty_sheet"
| text_token: "drawn tabs m P (Text s # ts) S \<Longrightarrow> drawn tabs m (P @ [Text s]) ts (write_text tabs s S)"
| flat_block: "drawn tabs m P (Begin b # ts) S \<Longrightarrow> group 0 ts = Some w \<Longrightarrow> sheet_used S + w \<le> m \<Longrightarrow>
    drawn tabs m (P @ [Begin b]) ts (S\<lparr>sheet_blocks := Fits (begin_breaks b) # sheet_blocks S\<rparr>)"
| broken_block: "drawn tabs m P (Begin b # ts) S \<Longrightarrow> inner_indent b S = int i \<Longrightarrow>
    drawn tabs m (P @ [Begin b]) ts
      (S\<lparr>sheet_blocks := Broken (sheet_indent S) (begin_breaks b) # sheet_blocks S, sheet_indent := i\<rparr>)"
| end_flat: "drawn tabs m P (End # ts) S \<Longrightarrow> sheet_blocks S = Fits b # fs \<Longrightarrow>
    drawn tabs m (P @ [End]) ts (S\<lparr>sheet_blocks := fs\<rparr>)"
| end_broken: "drawn tabs m P (End # ts) S \<Longrightarrow> sheet_blocks S = Broken i b # fs \<Longrightarrow>
    drawn tabs m (P @ [End]) ts (S\<lparr>sheet_blocks := fs, sheet_indent := i\<rparr>)"
| flat_break: "drawn tabs m P (Break b # ts) S \<Longrightarrow> \<not> hard b \<Longrightarrow>
    never_break b \<or> in_flat S \<or> \<not> in_consistent S \<and> sheet_used S + int (blank_space b) \<le> m \<Longrightarrow>
    drawn tabs m (P @ [Break b]) ts
      (S\<lparr>sheet_owed := sheet_owed S + blank_space b, sheet_used := sheet_used S + int (blank_space b)\<rparr>)"
| line_break: "drawn tabs m P (Break b # ts) S \<Longrightarrow> \<not> never_break b \<Longrightarrow> \<not> in_flat S \<Longrightarrow>
    int (sheet_indent S) + break_offset b = int i \<Longrightarrow> drawn tabs m (P @ [Break b]) ts (end_line tabs m b i S)"

text \<open>Tokens may be added to those to come, and taken back as long as they do not end a block.\<close>

lemma drawn_append: "drawn tabs m P ts S \<Longrightarrow> drawn tabs m P (ts @ us) S"
  by (induction rule: drawn.induct) (auto intro: drawn.intros dest: group_append [where us = us])

lemma drawn_less:
  assumes "drawn tabs m P ts' S" "ts' = ts @ [u]" "u \<noteq> End"
  shows "drawn tabs m P ts S"
  using assms
proof (induction arbitrary: ts rule: drawn.induct)
  case (flat_block P b ts' S w)
  from flat_block.IH [of "Begin b # ts"] flat_block.prems have "drawn tabs m P (Begin b # ts) S" by simp
  moreover have "group 0 ts = Some w" using flat_block.hyps(2) flat_block.prems group_snoc by blast
  ultimately show ?case using flat_block.hyps(3) by (rule drawn.flat_block)
qed (auto intro: drawn.intros)

end
