(* ===== verification/Fmt_Sound.thy ===== *)
theory Fmt_Sound
  imports Fmt_Layout
begin

text \<open>
  What the pretty printer of \<open>Fmt_Ideal\<close>, the one on unbounded integers, prints. A static check of the token
  sequence, \<open>walk\<close>, says that no block is ended that was not begun and that no indentation can become negative; for
  such a sequence no operation panics, every loop ends, and the output is a layout of the condensed tokens
  in the sense of \<open>Fmt_Layout\<close>.
\<close>

section \<open>The static check\<close>

text \<open>
  One pair per open block: a lower bound of the indentation inside it, whether the block is broken or
  not, and one for the case that it is broken.
\<close>

type_synonym bounds = "(int \<times> int) list"

definition low :: "bounds \<Rightarrow> int" where
  "low S = (case S of [] \<Rightarrow> 0 | (c, k) # S' \<Rightarrow> c)"

definition low_broken :: "bounds \<Rightarrow> int" where
  "low_broken S = (case S of [] \<Rightarrow> 0 | (c, k) # S' \<Rightarrow> k)"

fun walk1 :: "bounds \<Rightarrow> Token \<Rightarrow> bounds option" where
  "walk1 S (Text s) = Some S"
| "walk1 S (Break b) = (if low_broken S + break_offset b \<ge> 0 then Some S else None)"
| "walk1 S (Begin b) =
     (case indent_style b of
        Block offset \<Rightarrow> if low S + offset \<ge> 0 then Some ((min (low S) (low S + offset), low S + offset) # S) else None
      | Visual \<Rightarrow> Some ((0, 0) # S))"
| "walk1 S End = (case S of [] \<Rightarrow> None | c # S' \<Rightarrow> Some S')"

fun walk :: "bounds \<Rightarrow> Token list \<Rightarrow> bounds option" where
  "walk S [] = Some S"
| "walk S (t # ts) = Option.bind (walk1 S t) (\<lambda>S'. walk S' ts)"

lemma walk_append: "walk S (xs @ ys) = Option.bind (walk S xs) (\<lambda>S'. walk S' ys)"
  by (induction xs arbitrary: S) (auto simp: bind_eq_None_conv split: bind_splits)

lemma walk_opens: "walk S ts = Some S' \<Longrightarrow> opens k (rev ts) \<le> length S' - k"
proof (induction ts arbitrary: S' k rule: rev_induct)
  case (snoc t ts)
  then obtain S'' where w: "walk S ts = Some S''" "walk1 S'' t = Some S'"
    by (auto simp: walk_append bind_eq_Some_conv)
  note IH = snoc.IH [OF w(1)]
  show ?case
  proof (cases t)
    case End
    then show ?thesis using w(2) IH [of "Suc k"] by (auto split: list.splits)
  next
    case (Begin b)
    then have "length S' = Suc (length S'')" using w(2) by (auto split: IndentStyle.splits if_splits)
    then show ?thesis using Begin IH [of 0] IH [of "k - 1"] by (cases k) auto
  qed (use w(2) IH [of k] in \<open>auto split: if_splits\<close>)
qed simp

section \<open>The print stack\<close>

fun frames_ok :: "PrintFrame list \<Rightarrow> nat \<Rightarrow> bounds \<Rightarrow> bool" where
  "frames_ok [] i [] \<longleftrightarrow> True"
| "frames_ok (Fits b # F) i ((c, k) # S) \<longleftrightarrow> 0 \<le> c \<and> c \<le> int i \<and> frames_ok F i S"
| "frames_ok (Broken j b # F) i ((c, k) # S) \<longleftrightarrow> 0 \<le> c \<and> c \<le> int i \<and> k \<le> int i \<and> frames_ok F j S"
| "frames_ok _ _ _ \<longleftrightarrow> False"

lemma frames_low: "frames_ok F i S \<Longrightarrow> 0 \<le> low S \<and> low S \<le> int i"
  by (induction F i S rule: frames_ok.induct) (auto simp: low_def)

lemma frames_low_broken:
  "frames_ok F i S \<Longrightarrow> (case F of [] \<Rightarrow> True | f # F' \<Rightarrow> (\<exists>j b. f = Broken j b)) \<Longrightarrow> low_broken S \<le> int i"
  by (induction F i S rule: frames_ok.induct) (auto simp: low_broken_def)

section \<open>Hard breaks\<close>

definition is_fits :: "PrintFrame \<Rightarrow> bool" where
  "is_fits f \<longleftrightarrow> (case f of Fits b \<Rightarrow> True | Broken j b \<Rightarrow> False)"

lemma is_fits_simps [simp]: "is_fits (Fits b)" "\<not> is_fits (Broken j b)"
  by (simp_all add: is_fits_def)

text \<open>
  The blocks that were printed as fitting end within the given tokens, and no hard break is directly
  inside one. A block that is still to be printed counts as not fitting.
\<close>

fun calm :: "bool list \<Rightarrow> Token list \<Rightarrow> bool" where
  "calm fs [] \<longleftrightarrow> list_all Not fs"
| "calm fs (Begin b # ts) \<longleftrightarrow> calm (False # fs) ts"
| "calm fs (End # ts) \<longleftrightarrow> calm (tl fs) ts"
| "calm fs (Text s # ts) \<longleftrightarrow> calm fs ts"
| "calm fs (Break b # ts) \<longleftrightarrow> (fs \<noteq> [] \<and> hd fs \<longrightarrow> \<not> hard b) \<and> calm fs ts"

lemma calm_broken: "list_all Not fs \<Longrightarrow> calm fs ts"
proof (induction fs ts rule: calm.induct)
  case (3 fs ts)
  then show ?case by (cases fs) auto
next
  case (5 fs b ts)
  then show ?case by (cases fs) auto
qed auto

lemma calm_append: "calm fs ts \<Longrightarrow> calm fs (ts @ us)"
  by (induction fs ts rule: calm.induct) (auto simp: calm_broken)

lemma calm_snoc: "calm fs (ts @ [t]) \<Longrightarrow> t \<noteq> End \<Longrightarrow> calm fs ts"
proof (induction fs ts rule: calm.induct)
  case (1 fs)
  then show ?case by (cases t) auto
qed auto

lemma calm_fits:
  assumes "calm (bs @ False # fs) ts" "group (length bs) ts = Some w" "w < SIZE_INFINITY" "list_all Not bs"
  shows "calm (bs @ True # fs) ts"
  using assms
proof (induction "length bs" ts arbitrary: bs w rule: group.induct)
  case (2 b ts)
  from "2.hyps" [of "False # bs" w] "2.prems" show ?case by simp
next
  case (3 ts)
  then show ?case by simp
next
  case (4 d ts)
  then obtain x bs' where "bs = x # bs'" by (cases bs) auto
  with 4 show ?case by simp
next
  case (5 s ts)
  then show ?case by fastforce
next
  case (6 b ts)
  then obtain v where v: "group (length bs) ts = Some v" "w = int (blank_space b) + v" by auto
  then have "calm (bs @ True # fs) ts" using 6 group_bounds [OF v(1)] by simp
  moreover have "\<not> hard b" using v group_bounds [OF v(1)] "6.prems"(3) by (simp add: hard_def)
  ultimately show ?case by simp
qed simp

section \<open>The printer as a sheet\<close>

definition sheet_of :: "Printer \<Rightarrow> Sheet" where
  "sheet_of p = \<lparr>sheet_text = out p, sheet_owed = pending_indentation p, sheet_indent = indent p,
     sheet_blocks = print_stack p, sheet_used = margin p - space p\<rparr>"

lemma sheet_of_simps [simp]:
  "sheet_text (sheet_of p) = out p" "sheet_owed (sheet_of p) = pending_indentation p" "sheet_indent (sheet_of p) = indent p"
  "sheet_blocks (sheet_of p) = print_stack p" "sheet_used (sheet_of p) = margin p - space p"
  by (simp_all add: sheet_of_def)

lemma sheet_of_scan [simp]:
  "sheet_of (p\<lparr>buf := b\<rparr>) = sheet_of p" "sheet_of (p\<lparr>left_total := k\<rparr>) = sheet_of p" "sheet_of (p\<lparr>right_total := k\<rparr>) = sheet_of p"
  "sheet_of (p\<lparr>scan_stack := st\<rparr>) = sheet_of p" "sheet_of (p\<lparr>last_printed := t\<rparr>) = sheet_of p"
  by (simp_all add: sheet_of_def)

lemma sheet_eqI:
  "sheet_text S = sheet_text S' \<Longrightarrow> sheet_owed S = sheet_owed S' \<Longrightarrow> sheet_indent S = sheet_indent S' \<Longrightarrow>
    sheet_blocks S = sheet_blocks S' \<Longrightarrow> sheet_used S = sheet_used S' \<Longrightarrow> S = (S' :: Sheet)"
  by simp

section \<open>Printing one token\<close>

lemma print_indent_ok:
  assumes "indent_config p \<noteq> Some 0"
  shows "print_indent p = Some (p\<lparr>out := out p @ blanks (indent_config p) (pending_indentation p), pending_indentation := 0\<rparr>)"
  using assms by (auto simp: print_indent_def blanks_def split: option.split)

lemma print_string_ok:
  assumes "indent_config p \<noteq> Some 0"
  shows "print_string_z s p = Some (p\<lparr>out := out p @ blanks (indent_config p) (pending_indentation p) @ s,
    pending_indentation := 0, space := space p - int (length s)\<rparr>)"
  using print_indent_ok [OF assms] by (simp add: print_string_z_def)

definition print_ok :: "Printer \<Rightarrow> Token list \<Rightarrow> bounds \<Rightarrow> Token list \<Rightarrow> bool" where
  "print_ok p P S ts \<longleftrightarrow>
     MIN_SPACE \<le> margin p \<and> margin p < SIZE_INFINITY \<and> space p \<le> margin p \<and> indent_config p \<noteq> Some 0 \<and>
     frames_ok (print_stack p) (indent p) S \<and> drawn (indent_config p) (margin p) P ts (sheet_of p) \<and>
     calm (map is_fits (print_stack p)) ts"

lemma print_ok_more: "print_ok p P S ts \<Longrightarrow> print_ok p P S (ts @ us)"
  by (simp add: print_ok_def calm_append drawn_append)

lemma print_ok_less: "print_ok p P S (ts @ [t]) \<Longrightarrow> t \<noteq> End \<Longrightarrow> print_ok p P S ts"
  using drawn_less [OF _ refl] by (auto simp: print_ok_def dest: calm_snoc)

text \<open>The size with which an entry is printed, with the tokens that follow it.\<close>

definition sized :: "BufEntry \<Rightarrow> Token list \<Rightarrow> bool" where
  "sized e ts \<longleftrightarrow>
     (case entry_token e of
        Text s \<Rightarrow> entry_size e = int (length s)
      | Break b \<Rightarrow> entry_size e \<ge> min SIZE_INFINITY (int (blank_space b))
      | Begin b \<Rightarrow> entry_size e \<ge> SIZE_INFINITY \<or> (\<exists>w. group 0 ts = Some w \<and> w \<le> entry_size e)
      | End \<Rightarrow> True)"

lemma entry_ok_sized: "entry_ok t e ts \<Longrightarrow> 0 < t \<Longrightarrow> 0 \<le> entry_size e \<Longrightarrow> sized e ts"
  by (auto simp: entry_ok_def sized_def split: Token.splits)

lemma print_text_ok:
  assumes "print_ok p P S (Text s # ts)"
  shows "\<exists>q. print_string_z s p = Some q \<and> print_ok q (P @ [Text s]) S ts \<and> left_total q = left_total p"
proof -
  let ?q = "p\<lparr>out := out p @ blanks (indent_config p) (pending_indentation p) @ s, pending_indentation := 0, space := space p - int (length s)\<rparr>"
  have "sheet_of ?q = write_text (indent_config p) s (sheet_of p)"
    by (rule sheet_eqI) (simp_all add: write_text_def put_text_def)
  then have "drawn (indent_config p) (margin p) (P @ [Text s]) ts (sheet_of ?q)"
    using assms drawn.text_token by (simp add: print_ok_def)
  then show ?thesis using assms print_string_ok [of p s] by (simp add: print_ok_def)
qed

lemma break_fits_frames:
  "\<not> break_fits t sz p \<Longrightarrow> frames_ok (print_stack p) (indent p) S \<Longrightarrow> low_broken S \<le> int (indent p)"
  by (rule frames_low_broken) (auto simp: break_fits_def get_top_def split: list.splits PrintFrame.splits)

lemma hard_break_breaks:
  assumes "print_ok p P S (Break t # ts)" "hard t" "sz \<ge> min SIZE_INFINITY (int (blank_space t))"
  shows "\<not> break_fits t sz p"
  using assms
  by (auto simp: break_fits_def get_top_def print_ok_def hard_def split: list.splits PrintFrame.splits Breaks.splits)

text \<open>A break that is printed as its blanks, and one that ends the line.\<close>

lemma print_flat_break_ok:
  assumes ok: "print_ok p P S (Break t # ts)" and fits: "break_fits t sz p" and sz: "sz \<ge> min SIZE_INFINITY (int (blank_space t))"
  shows "\<exists>q. print_break_z t sz p = Some q \<and> print_ok q (P @ [Break t]) S ts \<and> left_total q = left_total p"
proof -
  let ?q = "p\<lparr>pending_indentation := pending_indentation p + blank_space t, space := space p - int (blank_space t)\<rparr>"
  have "\<not> hard t" using hard_break_breaks [OF ok _ sz] fits by blast
  moreover have "never_break t \<or> in_flat (sheet_of p) \<or>
      \<not> in_consistent (sheet_of p) \<and> sheet_used (sheet_of p) + int (blank_space t) \<le> margin p"
    using fits sz ok
    by (auto simp: break_fits_def get_top_def in_flat_def in_consistent_def print_ok_def split: list.splits PrintFrame.splits Breaks.splits)
  moreover have "drawn (indent_config p) (margin p) P (Break t # ts) (sheet_of p)" using ok by (simp add: print_ok_def)
  moreover have "sheet_of ?q = (sheet_of p)\<lparr>sheet_owed := sheet_owed (sheet_of p) + blank_space t,
      sheet_used := sheet_used (sheet_of p) + int (blank_space t)\<rparr>" by (rule sheet_eqI) simp_all
  ultimately have "drawn (indent_config p) (margin p) (P @ [Break t]) ts (sheet_of ?q)"
    using drawn.flat_break by metis
  then show ?thesis using ok fits by (simp add: print_break_z_def print_ok_def)
qed

lemma print_line_break_eq:
  assumes "\<not> break_fits t sz p" "indent_config p \<noteq> Some 0" "int (indent p) + break_offset t = int i"
  obtains q where "print_break_z t sz p = Some q" "sheet_of q = end_line (indent_config p) (margin p) t i (sheet_of p)"
    "margin q = margin p" "indent_config q = indent_config p" "left_total q = left_total p" "space q \<le> max (margin p) MIN_SPACE"
proof -
  define r where "r = (case pre_break t of None \<Rightarrow> p
    | Some s \<Rightarrow> p\<lparr>out := out p @ blanks (indent_config p) (pending_indentation p) @ s, pending_indentation := 0\<rparr>)"
  define u where "u = r\<lparr>out := out r @ [newline], pending_indentation := i, space := max (margin p - int i) MIN_SPACE\<rparr>"
  define q where "q = (case post_break t of None \<Rightarrow> u
    | Some s \<Rightarrow> u\<lparr>out := out u @ blanks (indent_config p) i @ s, pending_indentation := 0, space := space u - int (length s)\<rparr>)"
  have r: "indent r = indent p" "margin r = margin p" "indent_config r = indent_config p" "left_total r = left_total p"
    "print_stack r = print_stack p" by (simp_all add: r_def split: option.split)
  have pre: "(case pre_break t of None \<Rightarrow> Some p | Some s \<Rightarrow> do { p \<leftarrow> print_indent p; Some (p\<lparr>out := out p @ s\<rparr>) }) = Some r"
    using print_indent_ok [OF assms(2)] by (auto simp: r_def split: option.split)
  have u: "indent_config u \<noteq> Some 0" using assms(2) r(3) by (simp add: u_def)
  have post: "(case post_break t of None \<Rightarrow> Some u | Some s \<Rightarrow> print_string_z s u) = Some q"
    using print_string_ok [OF u] r(3) by (auto simp: q_def u_def split: option.split)
  have "print_break_z t sz p = Some q"
    using assms(1,3) pre post r(1,2) unfolding u_def by (simp add: print_break_z_def Let_def)
  moreover have "sheet_of q = end_line (indent_config p) (margin p) t i (sheet_of p)"
    by (rule sheet_eqI; cases "pre_break t"; cases "post_break t")
      (simp_all add: q_def u_def r_def end_line_def maybe_def put_text_def write_text_def Let_def)
  ultimately show thesis using that r by (simp add: q_def u_def split: option.splits)
qed

lemma print_break_ok:
  assumes ok: "print_ok p P S (Break t # ts)" and w: "walk1 S (Break t) = Some S'"
    and sz: "sz \<ge> min SIZE_INFINITY (int (blank_space t))"
  shows "\<exists>q. print_break_z t sz p = Some q \<and> print_ok q (P @ [Break t]) S' ts \<and> left_total q = left_total p"
proof (cases "break_fits t sz p")
  case True
  then show ?thesis using print_flat_break_ok [OF ok _ sz] w by (simp split: if_splits)
next
  case False
  have S: "S' = S" "low_broken S + break_offset t \<ge> 0" using w by (auto split: if_splits)
  obtain i where i: "int (indent p) + break_offset t = int i"
    using break_fits_frames [OF False, of S] ok S(2) by (auto simp: print_ok_def intro: that [of "nat (int (indent p) + break_offset t)"])
  have cfg: "indent_config p \<noteq> Some 0" using ok by (simp add: print_ok_def)
  obtain q where q: "print_break_z t sz p = Some q" "sheet_of q = end_line (indent_config p) (margin p) t i (sheet_of p)"
    "margin q = margin p" "indent_config q = indent_config p" "left_total q = left_total p" "space q \<le> max (margin p) MIN_SPACE"
    by (rule print_line_break_eq [OF False cfg i])
  have "\<not> never_break t" "\<not> in_flat (sheet_of p)"
    using False by (auto simp: break_fits_def get_top_def in_flat_def split: list.splits PrintFrame.splits)
  then have "drawn (indent_config p) (margin p) (P @ [Break t]) ts (sheet_of q)"
    using drawn.line_break [of "indent_config p" "margin p" P t ts "sheet_of p" i] ok i q(2) by (simp add: print_ok_def)
  moreover have "sheet_blocks (sheet_of q) = sheet_blocks (sheet_of p)" "sheet_indent (sheet_of q) = sheet_indent (sheet_of p)"
    unfolding q(2) by (simp_all add: end_line_def maybe_def put_text_def write_text_def Let_def split: option.split)
  then have "print_stack q = print_stack p" "indent q = indent p" by simp_all
  ultimately show ?thesis using ok q(1,3-6) S(1) by (simp add: print_ok_def)
qed

lemma print_flat_block_ok:
  assumes ok: "print_ok p P S (Begin t # ts)" and v: "group 0 ts = Some v" "v \<le> space p" and fr: "frames_ok (Fits (begin_breaks t) # print_stack p) (indent p) S'"
  shows "print_ok (p\<lparr>print_stack := Fits (begin_breaks t) # print_stack p\<rparr>) (P @ [Begin t]) S' ts"
proof -
  let ?q = "p\<lparr>print_stack := Fits (begin_breaks t) # print_stack p\<rparr>"
  have "calm (True # map is_fits (print_stack p)) ts"
    using calm_fits [of "[]" "map is_fits (print_stack p)" ts v] v ok by (simp add: print_ok_def)
  moreover have eq: "sheet_of ?q = (sheet_of p)\<lparr>sheet_blocks := Fits (begin_breaks t) # sheet_blocks (sheet_of p)\<rparr>" by (rule sheet_eqI) simp_all
  have "drawn (indent_config p) (margin p) (P @ [Begin t]) ts (sheet_of ?q)"
    unfolding eq by (rule drawn.flat_block [OF _ v(1)]) (use v(2) ok in \<open>simp_all add: print_ok_def\<close>)
  ultimately show ?thesis using ok fr by (simp add: print_ok_def)
qed

lemma print_broken_block_ok:
  assumes ok: "print_ok p P S (Begin t # ts)" and i: "inner_indent t (sheet_of p) = int i"
    and fr: "frames_ok (Broken (indent p) (begin_breaks t) # print_stack p) i S'"
  shows "print_ok (p\<lparr>print_stack := Broken (indent p) (begin_breaks t) # print_stack p, indent := i\<rparr>) (P @ [Begin t]) S' ts"
proof -
  let ?q = "p\<lparr>print_stack := Broken (indent p) (begin_breaks t) # print_stack p, indent := i\<rparr>"
  have eq: "sheet_of ?q = (sheet_of p)\<lparr>sheet_blocks := Broken (sheet_indent (sheet_of p)) (begin_breaks t) # sheet_blocks (sheet_of p),
    sheet_indent := i\<rparr>" by (rule sheet_eqI) simp_all
  have "drawn (indent_config p) (margin p) (P @ [Begin t]) ts (sheet_of ?q)"
    unfolding eq by (rule drawn.broken_block [OF _ i]) (use ok in \<open>simp add: print_ok_def\<close>)
  then show ?thesis using ok fr by (simp add: print_ok_def)
qed

lemma print_begin_ok:
  assumes ok: "print_ok p P S (Begin t # ts)" and w: "walk1 S (Begin t) = Some S'"
    and sz: "sz \<ge> SIZE_INFINITY \<or> (\<exists>w. group 0 ts = Some w \<and> w \<le> sz)"
  shows "\<exists>q. print_begin_z t sz p = Some q \<and> print_ok q (P @ [Begin t]) S' ts \<and> left_total q = left_total p"
proof -
  have fr: "frames_ok (print_stack p) (indent p) S" "space p \<le> margin p" using ok by (simp_all add: print_ok_def)
  note low = frames_low [OF fr(1)]
  show ?thesis
  proof (cases "sz > space p")
    case True
    define j where "j = inner_indent t (sheet_of p)"
    have j: "0 \<le> j" "frames_ok (Broken (indent p) (begin_breaks t) # print_stack p) (nat j) S'"
      using w fr low by (auto simp: j_def inner_indent_def split: IndentStyle.splits if_splits)
    have "print_begin_z t sz p = Some (p\<lparr>print_stack := Broken (indent p) (begin_breaks t) # print_stack p, indent := nat j\<rparr>)"
      using True j(1) by (auto simp: print_begin_z_def j_def inner_indent_def Let_def split: IndentStyle.split)
    then show ?thesis using print_broken_block_ok [OF ok, of "nat j" S'] j by (simp add: j_def)
  next
    case False
    then obtain v where v: "group 0 ts = Some v" "v \<le> space p" using ok sz by (auto simp: print_ok_def)
    have "frames_ok (Fits (begin_breaks t) # print_stack p) (indent p) S'"
      using w fr low by (auto split: IndentStyle.splits if_splits)
    from print_flat_block_ok [OF ok v this] show ?thesis using False by (simp add: print_begin_z_def)
  qed
qed

lemma print_end_ok:
  assumes ok: "print_ok p P S (End # ts)" and w: "walk1 S End = Some S'"
  shows "\<exists>q. print_end p = Some q \<and> print_ok q (P @ [End]) S' ts \<and> left_total q = left_total p"
proof -
  obtain c k where S: "S = (c, k) # S'" using w by (auto split: list.splits)
  then obtain f F where F: "print_stack p = f # F" using ok by (cases "print_stack p") (auto simp: print_ok_def)
  define q where "q = (case f of Fits b \<Rightarrow> p\<lparr>print_stack := F\<rparr> | Broken i b \<Rightarrow> p\<lparr>indent := i, print_stack := F\<rparr>)"
  have d: "drawn (indent_config p) (margin p) P (End # ts) (sheet_of p)" using ok by (simp add: print_ok_def)
  have "drawn (indent_config p) (margin p) (P @ [End]) ts (sheet_of q)"
  proof (cases f)
    case (Fits b)
    then have "sheet_of q = (sheet_of p)\<lparr>sheet_blocks := F\<rparr>" by (intro sheet_eqI) (simp_all add: q_def)
    then show ?thesis using drawn.end_flat [OF d, of b F] F Fits by simp
  next
    case (Broken i b)
    then have "sheet_of q = (sheet_of p)\<lparr>sheet_blocks := F, sheet_indent := i\<rparr>" by (intro sheet_eqI) (simp_all add: q_def)
    then show ?thesis using drawn.end_broken [OF d, of i b F] F Broken by simp
  qed
  then show ?thesis using ok S F by (cases f) (auto simp: print_end_def print_ok_def q_def)
qed

lemma print_left_ok:
  assumes "print_ok p P S (entry_token e # ts)" "walk1 S (entry_token e) = Some S'" "sized e ts"
  shows "\<exists>q. print_left_z e p = Some q \<and> print_ok q (P @ [entry_token e]) S' ts \<and>
    left_total q = left_total p + weight (entry_token e)"
proof -
  have lt: "print_ok (p\<lparr>left_total := k\<rparr>) P S us = print_ok p P S us" for k P S us by (simp add: print_ok_def)
  show ?thesis
  proof (cases "entry_token e")
    case (Text s)
    then show ?thesis using assms print_text_ok [of "p\<lparr>left_total := left_total p + int (length s)\<rparr>" P S s ts]
      by (simp add: print_left_z_def sized_def lt)
  next
    case (Break t)
    then show ?thesis using assms print_break_ok [of "p\<lparr>left_total := left_total p + int (blank_space t)\<rparr>" P S t ts S' "entry_size e"]
      by (simp add: print_left_z_def sized_def lt del: walk1.simps)
  next
    case (Begin t)
    then show ?thesis using assms print_begin_ok [of p P S t ts S' "entry_size e"]
      by (simp add: print_left_z_def sized_def del: walk1.simps)
  next
    case End
    then show ?thesis using assms print_end_ok [of p P S ts S'] by (simp add: print_left_z_def del: walk1.simps)
  qed
qed

section \<open>Flushing the buffer\<close>

fun all_sized :: "BufEntry list \<Rightarrow> bool" where
  "all_sized [] \<longleftrightarrow> True"
| "all_sized (e # es) \<longleftrightarrow> (entry_size e \<ge> 0 \<longrightarrow> sized e (tokens es)) \<and> all_sized es"

lemma entries_ok_all_sized: "entries_ok t es [] \<Longrightarrow> 0 < t \<Longrightarrow> all_sized es"
proof (induction es arbitrary: t)
  case (Cons e es)
  then have "0 < t + weight (entry_token e)" using weight_nonneg [of "entry_token e"] by linarith
  then show ?case using Cons entry_ok_sized [of t e "tokens es"] by auto
qed simp

lemma advance_left_prints:
  assumes "ring_data (buf p) = D" "D \<noteq> []" "print_ok p P S0 (tokens D)" "walk S0 (tokens D) = Some S" "all_sized D"
  shows "\<exists>q X D' S1. advance_left_z p = Some q \<and> D = X @ D' \<and> list_all (\<lambda>e. entry_size e \<ge> 0) X \<and>
    (D' = [] \<or> entry_size (hd D') < 0) \<and> (entry_size (hd D) \<ge> 0 \<longrightarrow> X \<noteq> []) \<and>
    ring_data (buf q) = D' \<and> ring_offset (buf q) = ring_offset (buf p) + length X \<and>
    print_ok q (P @ tokens X) S1 (tokens D') \<and> walk S1 (tokens D') = Some S \<and>
    scan_stack q = scan_stack p \<and> right_total q = right_total p \<and> left_total q = left_total p + weights (tokens X)"
  using assms
proof (induction D arbitrary: p P S0)
  case (Cons e es)
  show ?case
  proof (cases "entry_size e < 0")
    case True
    then have "advance_left_z p = Some p" using Cons.prems(1) by (subst advance_left_z.simps) (simp add: ring_first_def)
    then show ?thesis using Cons.prems True
      by (intro exI [of _ p] exI [of _ "[]"] exI [of _ "e # es"] exI [of _ S0]) simp
  next
    case False
    define b where "b = \<lparr>ring_data = es, ring_offset = ring_offset (buf p) + 1\<rparr>"
    obtain S1 where S1: "walk1 S0 (entry_token e) = Some S1" "walk S1 (tokens es) = Some S"
      using Cons.prems(4) by (auto simp: bind_eq_Some_conv)
    have "print_ok (p\<lparr>buf := b\<rparr>) P S0 (entry_token e # tokens es)" using Cons.prems(3) by (simp add: print_ok_def)
    from print_left_ok [OF this S1(1)] obtain q where q: "print_left_z e (p\<lparr>buf := b\<rparr>) = Some q"
      "print_ok q (P @ [entry_token e]) S1 (tokens es)" "left_total q = left_total p + weight (entry_token e)"
      using Cons.prems(5) False by auto
    have scan: "buf q = b" "scan_stack q = scan_stack p" "right_total q = right_total p"
      using print_left_scan [OF q(1)] by simp_all
    define r where "r = q\<lparr>last_printed := Some (entry_token e)\<rparr>"
    have r: "print_ok r (P @ [entry_token e]) S1 (tokens es)" "buf r = b" "scan_stack r = scan_stack p"
      "right_total r = right_total p" "left_total r = left_total p + weight (entry_token e)"
      using q scan by (simp_all add: r_def print_ok_def)
    have step: "advance_left_z p = (if es = [] then Some r else advance_left_z r)"
      using False Cons.prems(1) q(1) scan(1)
      by (subst advance_left_z.simps) (simp add: ring_first_def ring_pop_first_def b_def r_def ring_is_empty_def)
    show ?thesis
    proof (cases "es = []")
      case True
      then show ?thesis using step r S1 False
        by (intro exI [of _ r] exI [of _ "[e]"] exI [of _ "[]"] exI [of _ S1]) (simp add: b_def)
    next
      case es: False
      have "ring_data (buf r) = es" using r(2) by (simp add: b_def)
      from Cons.IH [OF this es r(1) S1(2)] Cons.prems(5) obtain u X D' S2 where
        u: "advance_left_z r = Some u" "es = X @ D'" "list_all (\<lambda>e. entry_size e \<ge> 0) X" "D' = [] \<or> entry_size (hd D') < 0"
          "ring_data (buf u) = D'" "ring_offset (buf u) = ring_offset (buf r) + length X"
          "print_ok u ((P @ [entry_token e]) @ tokens X) S2 (tokens D')" "walk S2 (tokens D') = Some S"
          "scan_stack u = scan_stack r" "right_total u = right_total r" "left_total u = left_total r + weights (tokens X)"
        by auto
      have "advance_left_z p = Some u" using step es u(1) by simp
      then show ?thesis using u r(2-5) False
        by (intro exI [of _ u] exI [of _ "e # X"] exI [of _ D'] exI [of _ S2]) (simp add: b_def)
    qed
  qed
qed simp

section \<open>The invariant of the printer\<close>

text \<open>
  A break at the end of the buffer, or right before a block that is still open, waits for its size.
  The entries are read backwards.
\<close>

fun fresh :: "bool \<Rightarrow> BufEntry list \<Rightarrow> bool" where
  "fresh b [] \<longleftrightarrow> True"
| "fresh b (e # es) \<longleftrightarrow>
     (b \<and> (\<exists>t. entry_token e = Break t) \<longrightarrow> entry_size e < 0) \<and> fresh ((\<exists>t. entry_token e = Begin t) \<and> entry_size e < 0) es"

lemma fresh_weaken: "fresh True es \<Longrightarrow> fresh b es" "fresh b es \<Longrightarrow> fresh False es"
  by (cases es; auto)+

lemma fresh_prefix: "fresh b (xs @ ys) \<Longrightarrow> fresh b xs"
  by (induction xs arbitrary: b) auto

lemma settle_fresh: "fresh b es \<Longrightarrow> settleable rt es \<Longrightarrow> fresh False (settle rt d es)"
proof (induction es arbitrary: b d)
  case (Cons e es)
  then show ?case
    by (cases "entry_token e") (auto simp: settleable_def dest: fresh_weaken)
qed simp

text \<open>The oldest entry waits, unless a break or an end is the oldest that does.\<close>

definition rooted :: "BufEntry list \<Rightarrow> bool" where
  "rooted D \<longleftrightarrow> D = [] \<or> entry_size (hd D) < 0 \<or> (\<exists>t us. waiting D = t # us \<and> (\<forall>b. t \<noteq> Begin b))"

text \<open>With no text in the buffer, what was printed last is text or the end of a block.\<close>

definition seam :: "Token list \<Rightarrow> BufEntry list \<Rightarrow> bool" where
  "seam P D \<longleftrightarrow> (\<exists>e \<in> set D. \<exists>s. entry_token e = Text s) \<or> P = [] \<or> last P = End \<or> (\<exists>s. last P = Text s)"

definition buffer_ok :: "Printer \<Rightarrow> BufEntry list \<Rightarrow> bool" where
  "buffer_ok p D \<longleftrightarrow>
     ring_data (buf p) = D \<and> scan_stack p = unsettled (ring_offset (buf p)) D \<and>
     matched [] (rev D) \<and> levels 0 (waiting (rev D)) \<and> fresh True (rev D) \<and> rooted D \<and>
     (D \<noteq> [] \<longrightarrow> left_total p \<ge> 1 \<and> right_total p = left_total p + weights (tokens D) \<and> entries_ok (left_total p) D [])"

definition printer_ok :: "Printer \<Rightarrow> Token list \<Rightarrow> bounds \<Rightarrow> bool" where
  "printer_ok p N S \<longleftrightarrow>
     (\<exists>P D S0. N = P @ tokens D \<and> print_ok p P S0 (tokens D) \<and> walk S0 (tokens D) = Some S \<and> buffer_ok p D \<and> seam P D)"

lemma printer_okI:
  assumes "print_ok p P S0 (tokens D)" "walk S0 (tokens D) = Some S" "buffer_ok p D" "seam P D"
  shows "printer_ok p (P @ tokens D) S"
  using assms unfolding printer_ok_def by blast

lemma printer_okE:
  assumes "printer_ok p N S"
  obtains P D S0 where "N = P @ tokens D" "print_ok p P S0 (tokens D)" "walk S0 (tokens D) = Some S" "buffer_ok p D" "seam P D"
  using assms unfolding printer_ok_def by blast

lemma waiting_hd: "D \<noteq> [] \<Longrightarrow> entry_size (hd D) < 0 \<Longrightarrow> \<exists>us. waiting D = entry_token (hd D) # us"
  by (cases D) auto

lemma buffer_empty_iff:
  assumes "buffer_ok p D"
  shows "scan_stack p = [] \<longleftrightarrow> D = []"
proof
  assume "scan_stack p = []"
  then have "unsettled (ring_offset (buf p)) D = []" using assms unfolding buffer_ok_def by argo
  then have "list_all (\<lambda>e. entry_size e \<ge> 0) D" by (simp add: unsettled_Nil)
  then have "waiting D = []" by (auto simp: waiting_def list_all_iff filter_empty_conv)
  then show "D = []" using assms waiting_hd [of D] by (auto simp: buffer_ok_def rooted_def)
qed (use assms in \<open>simp add: buffer_ok_def\<close>)

lemma buffer_ok_suffix:
  assumes "matched [] (rev (X @ D))" "levels 0 (waiting (rev (X @ D)))" "fresh True (rev (X @ D))"
    "D = [] \<or> entry_size (hd D) < 0" "ring_data (buf q) = D" "scan_stack q = unsettled (ring_offset (buf q)) D"
    "right_total q = t + weights (tokens (X @ D))" "left_total q = t + weights (tokens X)" "t \<ge> 1"
    "entries_ok (left_total q) D []"
  shows "buffer_ok q D"
proof -
  have "left_total q \<ge> 1" using assms(8,9) weights_nonneg [of "tokens X"] by linarith
  then show ?thesis
    using assms by (auto simp: buffer_ok_def rooted_def dest: matched_prefix levels_prefix fresh_prefix)
qed

section \<open>The scanning loop\<close>

definition mark_front :: "Printer \<Rightarrow> BufEntry \<Rightarrow> BufEntry list \<Rightarrow> Printer" where
  "mark_front p e es =
     p\<lparr>scan_stack := unsettled (Suc (ring_offset (buf p))) es, buf := (buf p)\<lparr>ring_data := e # es\<rparr>\<rparr>"

definition without_end :: "BufEntry \<Rightarrow> BufEntry" where
  "without_end e = (if entry_size e < 0 then e\<lparr>entry_size := SIZE_INFINITY\<rparr> else e)"

lemma without_end_simps [simp]: "entry_token (without_end e) = entry_token e" "entry_size (without_end e) \<ge> 0"
  by (simp_all add: without_end_def SIZE_INFINITY_def)

lemma all_sized_without_end:
  assumes "entries_ok t (e # es) []" "t \<ge> 1"
  shows "all_sized (without_end e # es)"
proof -
  have "sized (without_end e) (tokens es)"
  proof (cases "entry_size e < 0")
    case True
    then show ?thesis using assms by (cases "entry_token e") (simp_all add: without_end_def sized_def entry_ok_def)
  next
    case False
    then show ?thesis using assms entry_ok_sized [of t e "tokens es"] by (simp add: without_end_def)
  qed
  then show ?thesis using entries_ok_all_sized [OF assms(1)] assms(2) by simp
qed

lemma check_stream_front:
  assumes "ring_data (buf p) = e # es" "scan_stack p = unsettled (ring_offset (buf p)) (e # es)" "scan_stack p \<noteq> []"
    "right_total p - left_total p > space p"
  shows "check_stream_z p =
    Option.bind (advance_left_z (mark_front p (without_end e) es)) (\<lambda>r. if ring_is_empty (buf r) then Some r else check_stream_z r)"
proof (cases "entry_size e < 0")
  case True
  then have "scan_stack p = ring_offset (buf p) # unsettled (Suc (ring_offset (buf p))) es" using assms(2) by simp
  with True assms(1,4) show ?thesis
    by (subst check_stream_z.simps) (simp add: ring_start_def ring_first_mut_def mark_front_def without_end_def)
next
  case False
  then have st: "scan_stack p = unsettled (Suc (ring_offset (buf p))) es" using assms(2) by simp
  obtain front rest where fr: "scan_stack p = front # rest" using assms(3) by (meson neq_Nil_conv)
  then have "front \<in> set (unsettled (Suc (ring_offset (buf p))) es)" using st by (metis list.set_intros(1))
  then have ne: "front \<noteq> ring_offset (buf p)" using unsettled_ge by fastforce
  have "mark_front p (without_end e) es = p"
    using st False assms(1) by (cases p; cases "buf p") (simp add: mark_front_def without_end_def)
  with fr ne assms(4) show ?thesis by (subst check_stream_z.simps) (simp add: ring_start_def)
qed

definition stream_ok :: "Printer \<Rightarrow> Token list \<Rightarrow> BufEntry list \<Rightarrow> bounds \<Rightarrow> bool" where
  "stream_ok p P D S \<longleftrightarrow>
     (\<exists>S0. print_ok p P S0 (tokens D) \<and> walk S0 (tokens D) = Some S) \<and> buffer_ok p D \<and> D \<noteq> [] \<and> (\<exists>s. entry_token (last D) = Text s)"

lemma stream_printer_ok:
  assumes "stream_ok p P D S"
  shows "printer_ok p (P @ tokens D) S"
proof -
  have "seam P D" using assms last_in_set [of D] unfolding stream_ok_def seam_def by blast
  then show ?thesis using assms unfolding stream_ok_def by (blast intro: printer_okI)
qed

text \<open>One round of the loop prints at least the oldest entry.\<close>

lemma check_stream_round:
  assumes ok: "stream_ok p P D S" and over: "right_total p - left_total p > space p"
  obtains r X D' where "check_stream_z p = (if D' = [] then Some r else check_stream_z r)" "tokens D = tokens X @ tokens D'"
    "X \<noteq> []" "D' = [] \<longrightarrow> printer_ok r (P @ tokens X) S" "D' \<noteq> [] \<longrightarrow> stream_ok r (P @ tokens X) D' S"
proof -
  obtain S0 s where ok': "print_ok p P S0 (tokens D)" "walk S0 (tokens D) = Some S" "buffer_ok p D" "D \<noteq> []"
    "entry_token (last D) = Text s" using ok by (auto simp: stream_ok_def)
  obtain e es where De: "D = e # es" using ok'(4) by (cases D) auto
  let ?o = "ring_offset (buf p)" and ?q = "mark_front p (without_end e) es"
  have b: "ring_data (buf p) = e # es" "scan_stack p = unsettled ?o (e # es)" "left_total p \<ge> 1" "entries_ok (left_total p) D []"
    "right_total p = left_total p + weights (tokens D)" "matched [] (rev D)" "levels 0 (waiting (rev D))" "fresh True (rev D)"
    using ok'(3) De by (simp_all add: buffer_ok_def)
  have sz: "all_sized (without_end e # es)"
    by (rule all_sized_without_end) (use b(3,4) De in simp_all)
  have q: "print_ok ?q P S0 (tokens (without_end e # es))" "walk S0 (tokens (without_end e # es)) = Some S"
    using ok'(1,2) De by (simp_all add: print_ok_def mark_front_def)
  have "ring_data (buf ?q) = without_end e # es" by (simp add: mark_front_def)
  from advance_left_prints [OF this list.distinct(2) q sz] obtain r X D' S1 where
    r: "advance_left_z ?q = Some r" "without_end e # es = X @ D'" "list_all (\<lambda>e. entry_size e \<ge> 0) X"
      "D' = [] \<or> entry_size (hd D') < 0" "entry_size (hd (without_end e # es)) \<ge> 0 \<longrightarrow> X \<noteq> []" "ring_data (buf r) = D'"
      "ring_offset (buf r) = ring_offset (buf ?q) + length X" "print_ok r (P @ tokens X) S1 (tokens D')" "walk S1 (tokens D') = Some S"
      "scan_stack r = scan_stack ?q" "right_total r = right_total ?q" "left_total r = left_total ?q + weights (tokens X)"
    by blast
  have X: "X \<noteq> []" using r(5) by simp
  have tot: "right_total ?q = right_total p" "left_total ?q = left_total p" by (simp_all add: mark_front_def)
  obtain X' where X': "X = without_end e # X'" "es = X' @ D'" using r(2) X by (cases X) simp_all
  have D': "D = (e # X') @ D'" and tX: "tokens X = tokens (e # X')" using De X' by simp_all
  have st: "scan_stack r = unsettled (ring_offset (buf r)) D'"
    using r(3,7,10) X' unsettled_Nil [of "Suc ?o" X'] by (simp add: mark_front_def unsettled_append)
  have "entries_ok (left_total r) D' []"
    using b(4) r(12) tot tX unfolding D' entries_ok_append by simp
  moreover have "right_total r = left_total p + weights (tokens ((e # X') @ D'))" "left_total r = left_total p + weights (tokens (e # X'))"
    using b(5) r(11,12) tot tX D' by simp_all
  ultimately have buf: "buffer_ok r D'"
    using buffer_ok_suffix [OF b(6-8) [unfolded D'] r(4,6) st _ _ b(3)] by blast
  have lst: "D' \<noteq> [] \<longrightarrow> last D' = last D" "D' = [] \<longrightarrow> last (P @ tokens X) = Text s"
    using D' tX ok'(5) by (auto simp: last_map split: if_splits)
  show ?thesis
  proof (rule that)
    show "check_stream_z p = (if D' = [] then Some r else check_stream_z r)"
      using check_stream_front [OF b(1,2) _ over] r(1,6) buffer_empty_iff [OF ok'(3)] ok'(4) by (simp add: ring_is_empty_def)
    show "tokens D = tokens X @ tokens D'" using D' tX by simp
    show "D' = [] \<longrightarrow> printer_ok r (P @ tokens X) S"
      using printer_okI [OF r(8,9) buf] lst(2) by (auto simp: seam_def)
    show "D' \<noteq> [] \<longrightarrow> stream_ok r (P @ tokens X) D' S"
      using r(8,9) buf lst(1) ok'(5) unfolding stream_ok_def by auto
  qed (rule X)
qed

lemma check_stream_ok:
  assumes "stream_ok p P D S"
  shows "\<exists>q. check_stream_z p = Some q \<and> printer_ok q (P @ tokens D) S"
  using assms
proof (induction "length D" arbitrary: p P D rule: less_induct)
  case less
  show ?case
  proof (cases "right_total p - left_total p > space p")
    case False
    then have "check_stream_z p = Some p" by (subst check_stream_z.simps) simp
    then show ?thesis using stream_printer_ok [OF less.prems] by blast
  next
    case True
    show ?thesis
    proof (rule check_stream_round [OF less.prems True])
      fix r X D' assume r: "check_stream_z p = (if D' = [] then Some r else check_stream_z r)" "tokens D = tokens X @ tokens D'"
        "X \<noteq> []" "D' = [] \<longrightarrow> printer_ok r (P @ tokens X) S" "D' \<noteq> [] \<longrightarrow> stream_ok r (P @ tokens X) D' S"
      have "length D' < length D" using r(2,3) by (metis length_append length_map length_greater_0_conv less_add_same_cancel2)
      then show ?thesis using r less.hyps [of D' r "P @ tokens X"] by (cases "D' = []") simp_all
    qed
  qed
qed

section \<open>Pushing an entry\<close>

lemma push_print_ok [simp]:
  "print_ok (push_scanned_z t z p) P S ts = print_ok p P S ts" "print_ok (reset_totals p) P S ts = print_ok p P S ts"
  "print_ok (p\<lparr>right_total := r\<rparr>) P S ts = print_ok p P S ts" "print_ok (p\<lparr>buf := b\<rparr>) P S ts = print_ok p P S ts"
  "print_ok (p\<lparr>scan_stack := st\<rparr>) P S ts = print_ok p P S ts"
  by (simp_all add: print_ok_def push_scanned_z_def push_entry_z_def ring_push_def reset_totals_def)

lemma push_scanned_eq:
  "ring_data (buf p) = D \<Longrightarrow> push_scanned_z t z p =
    p\<lparr>buf := (buf p)\<lparr>ring_data := D @ [\<lparr>entry_token = t, entry_size = z\<rparr>]\<rparr>,
      scan_stack := scan_stack p @ [ring_offset (buf p) + length D]\<rparr>"
  by (simp add: push_scanned_z_def push_entry_z_def ring_push_def)

definition entries_state :: "Printer \<Rightarrow> BufEntry list \<Rightarrow> bool" where
  "entries_state p D \<longleftrightarrow>
     ring_data (buf p) = D \<and> scan_stack p = unsettled (ring_offset (buf p)) D \<and> left_total p \<ge> 1 \<and>
     right_total p = left_total p + weights (tokens D) \<and> entries_ok (left_total p) D []"

lemma push_buffer_ok:
  assumes "entries_state p D" "e = \<lparr>entry_token = t, entry_size = z\<rparr>" "z < 0" "entry_ok (right_total p) e []"
    "matched [] (e # rev D)" "levels 0 (t # waiting (rev D))" "fresh True (e # rev D)" "rooted (D @ [e])"
    "r = right_total p + weight t"
  shows "buffer_ok ((push_scanned_z t z p)\<lparr>right_total := r\<rparr>) (D @ [e])"
  using assms entries_ok_more [of "left_total p" D "[]" "[t]"]
  by (auto simp: buffer_ok_def entries_state_def push_scanned_eq unsettled_append entries_ok_append)

lemma push_right_total: "weight t = 0 \<Longrightarrow> (push_scanned_z t z p)\<lparr>right_total := right_total p + weight t\<rparr> = push_scanned_z t z p"
  by (simp add: push_scanned_z_def push_entry_z_def ring_push_def)

lemma rooted_push: "rooted D \<Longrightarrow> entry_size e < 0 \<Longrightarrow> rooted (D @ [e])"
  by (cases D) (auto simp: rooted_def)

lemma rooted_push_other:
  assumes "rooted D \<or> waiting D = []" "entry_size e < 0" "\<And>b. entry_token e \<noteq> Begin b"
  shows "rooted (D @ [e])"
proof (cases "rooted D")
  case False
  then have "waiting D = []" using assms(1) by blast
  then show ?thesis using assms(2,3) by (simp add: rooted_def)
qed (use assms(2) rooted_push in blast)

lemma buffer_entries_state: "buffer_ok p D \<Longrightarrow> D \<noteq> [] \<Longrightarrow> entries_state p D"
  by (simp add: buffer_ok_def entries_state_def)

lemma reset_entries_state: "scan_stack p = [] \<Longrightarrow> entries_state (reset_totals p) []"
  by (simp add: entries_state_def reset_totals_def ring_clear_def)

lemma push_printer_ok:
  assumes "print_ok p P S0 (tokens D)" "walk S0 (tokens D) = Some S" "walk1 S t = Some S'" "\<forall>s. t \<noteq> Text s" "seam P D"
    "buffer_ok (p'\<lparr>right_total := r\<rparr>) (D @ [\<lparr>entry_token = t, entry_size = z\<rparr>])"
    "\<And>P S ts. print_ok p' P S ts = print_ok p P S ts"
  shows "printer_ok (p'\<lparr>right_total := r\<rparr>) (P @ tokens D @ [t]) S'"
proof -
  let ?D = "D @ [\<lparr>entry_token = t, entry_size = z\<rparr>]"
  have "print_ok p P S0 (tokens ?D)" using print_ok_more [OF assms(1)] by simp
  then have "print_ok (p'\<lparr>right_total := r\<rparr>) P S0 (tokens ?D)" using assms(7) by simp
  moreover have "walk S0 (tokens ?D) = Some S'" using assms(2,3) by (simp add: walk_append)
  moreover have "seam P ?D" using assms(5) by (auto simp: seam_def)
  ultimately have "printer_ok (p'\<lparr>right_total := r\<rparr>) (P @ tokens ?D) S'" using assms(6) by (intro printer_okI)
  then show ?thesis by simp
qed

section \<open>The operations of the printer\<close>

lemma scan_begin_ok:
  assumes "printer_ok p N S" "walk1 S (Begin t) = Some S'"
  shows "\<exists>q. scan_begin_z t p = Some q \<and> printer_ok q (N @ [Begin t]) S'"
  using assms(1)
proof (rule printer_okE)
  fix P D S0 assume N: "N = P @ tokens D" and ok: "print_ok p P S0 (tokens D)" "walk S0 (tokens D) = Some S" "buffer_ok p D" "seam P D"
  define q where "q = (if scan_stack p = [] then reset_totals p else p)"
  define e where "e = \<lparr>entry_token = Begin t, entry_size = - right_total q\<rparr>"
  have st: "entries_state q D"
    using ok(3) buffer_empty_iff [OF ok(3)] reset_entries_state buffer_entries_state by (simp add: q_def)
  have pos: "right_total q \<ge> 1" using st weights_nonneg [of "tokens D"] unfolding entries_state_def by linarith
  have "buffer_ok ((push_scanned_z (Begin t) (- right_total q) q)\<lparr>right_total := right_total q + weight (Begin t)\<rparr>) (D @ [e])"
    using ok(3) pos by (intro push_buffer_ok [OF st e_def])
      (auto simp: e_def buffer_ok_def entry_ok_def intro: rooted_push)
  then have "printer_ok ((push_scanned_z (Begin t) (- right_total q) q)\<lparr>right_total := right_total q + weight (Begin t)\<rparr>) (P @ tokens D @ [Begin t]) S'"
    using push_printer_ok [OF ok(1,2) assms(2) _ ok(4)] by (simp add: e_def q_def)
  then have "printer_ok (push_scanned_z (Begin t) (- right_total q) q) (N @ [Begin t]) S'"
    using N push_right_total [of "Begin t"] by simp
  then show ?thesis by (simp add: scan_begin_z_def q_def Let_def)
qed

lemma settle_split:
  "settleable rt es \<Longrightarrow> \<exists>A A' B. settle rt d es = A @ B \<and> es = A' @ B \<and> list_all (\<lambda>e. entry_size e \<ge> 0) A"
proof (induction es arbitrary: d)
  case (Cons e es)
  have rest: "settleable rt es" using Cons.prems by (simp add: settleable_def)
  have here: ?case if "settle rt d (e # es) = e # es" using that by (intro exI [of _ "[]"] exI [of _ "[]"] exI [of _ "e # es"]) (simp del: settle.simps)
  have stop: ?case if "settle rt d (e # es) = e' # es" "entry_size e' \<ge> 0" for e'
    using that by (intro exI [of _ "[e']"] exI [of _ "[e]"] exI [of _ es]) (simp del: settle.simps)
  have more: ?case if "settle rt d (e # es) = e' # settle rt d' es" "entry_size e' \<ge> 0" for e' d'
  proof -
    obtain A A' B where "settle rt d' es = A @ B" "es = A' @ B" "list_all (\<lambda>e. entry_size e \<ge> 0) A"
      using Cons.IH [of d', OF rest] by blast
    then show ?thesis using that by (intro exI [of _ "e' # A"] exI [of _ "e # A'"] exI [of _ B]) (simp del: settle.simps)
  qed
  show ?case
  proof (cases "entry_size e \<ge> 0")
    case True
    then show ?thesis by (intro more [of e d]) simp_all
  next
    case neg: False
    have pos: "entry_token e \<noteq> End \<longrightarrow> entry_size e + rt \<ge> 0" using Cons.prems by (simp add: settleable_def)
    show ?thesis
    proof (cases "entry_token e")
      case (Begin b)
      then show ?thesis using neg pos here more [of "e\<lparr>entry_size := entry_size e + rt\<rparr>" "d - 1"] by (cases "d = 0") simp_all
    next
      case End
      then show ?thesis using neg more [of "e\<lparr>entry_size := 1\<rparr>" "d + 1"] by simp
    qed (use neg pos stop [of "e\<lparr>entry_size := entry_size e + rt\<rparr>"] more [of "e\<lparr>entry_size := entry_size e + rt\<rparr>" d]
      in \<open>cases "d = 0"; simp\<close>)+
  qed
qed simp

lemma settle_rooted:
  assumes "rooted D" "settleable rt (rev D)" "entry_token e = Break b" "entry_size e < 0"
  shows "rooted (rev (settle rt d (rev D)) @ [e])"
proof -
  obtain A A' B where s: "settle rt d (rev D) = A @ B" "rev D = A' @ B" "list_all (\<lambda>e. entry_size e \<ge> 0) A"
    using settle_split [OF assms(2)] by blast
  have D: "D = rev B @ rev A'" using s(2) by (metis rev_append rev_rev_ident)
  have A: "waiting (rev A) = []" using s(3) by (auto simp: waiting_def list_all_iff filter_empty_conv)
  show ?thesis
  proof (cases "waiting (rev B)")
    case Nil
    then show ?thesis using s(1) A assms(3,4) by (simp add: rooted_def)
  next
    case (Cons t us)
    then have "rev B \<noteq> []" by auto
    moreover have "entry_size (hd D) < 0 \<or> (\<forall>b. t \<noteq> Begin b)" using assms(1) D Cons by (auto simp: rooted_def)
    ultimately show ?thesis using s(1) D Cons by (auto simp: rooted_def)
  qed
qed

lemma settled_buffer:
  assumes "buffer_ok p D" "D \<noteq> []" "D' = rev (settle (right_total p) 0 (rev D))"
  shows "check_stack_z 0 p = Some (p\<lparr>buf := (buf p)\<lparr>ring_data := D'\<rparr>, scan_stack := unsettled (ring_offset (buf p)) D'\<rparr>)"
    "entries_ok (left_total p) D' []" "matched [] (rev D')" "fresh False (rev D')" "settleable (right_total p) (rev D)"
    "tokens D' = tokens D"
    "waiting (rev D') = [] \<or> (\<exists>b us. waiting (rev D') = Begin b # us) \<and> levels 0 (waiting (rev D'))"
proof -
  have b: "ring_data (buf p) = rev (rev D) @ []" "scan_stack p = unsettled (ring_offset (buf p)) (rev (rev D))" "left_total p \<ge> 1"
    "right_total p = left_total p + weights (tokens D)" "entries_ok (left_total p) D []" "matched [] (rev D)"
    "levels 0 (waiting (rev D))" "fresh True (rev D)"
    using assms(1,2) by (simp_all add: buffer_ok_def)
  have "settleable (right_total p) D" using entries_settleable [OF b(5)] b(3,4) by simp
  then show st: "settleable (right_total p) (rev D)" by (simp add: settleable_def)
  show "check_stack_z 0 p = Some (p\<lparr>buf := (buf p)\<lparr>ring_data := D'\<rparr>, scan_stack := unsettled (ring_offset (buf p)) D'\<rparr>)"
    using check_stack_settles [OF b(1,2) st, of 0] assms(3) by simp
  show "entries_ok (left_total p) D' []"
    using settle_entries_ok [of "left_total p" "rev D" "[]" "[]"] b(4-6) st assms(3) by (simp add: rev_map [symmetric])
  show "matched [] (rev D')" using settle_matched [OF b(6) st] assms(3) by simp
  show "fresh False (rev D')" using settle_fresh [OF b(8) st] assms(3) by simp
  show "tokens D' = tokens D" using assms(3) by (simp add: rev_map [symmetric])
  show "waiting (rev D') = [] \<or> (\<exists>b us. waiting (rev D') = Begin b # us) \<and> levels 0 (waiting (rev D'))"
    using settle_levels [OF b(7) st] assms(3) by simp
qed

lemma scan_break_ok:
  assumes "printer_ok p N S" "walk1 S (Break t) = Some S'"
  shows "\<exists>q. scan_break_z t p = Some q \<and> printer_ok q (N @ [Break t]) S'"
  using assms(1)
proof (rule printer_okE)
  fix P D S0 assume N: "N = P @ tokens D" and ok: "print_ok p P S0 (tokens D)" "walk S0 (tokens D) = Some S" "buffer_ok p D" "seam P D"
  define D' where "D' = rev (settle (right_total p) 0 (rev D))"
  define q where "q = (if D = [] then reset_totals p
    else p\<lparr>buf := (buf p)\<lparr>ring_data := D'\<rparr>, scan_stack := unsettled (ring_offset (buf p)) D'\<rparr>)"
  define e where "e = \<lparr>entry_token = Break t, entry_size = - right_total q\<rparr>"
  note settled = settled_buffer [OF ok(3) _ D'_def]
  have tok: "tokens D' = tokens D" by (simp add: D'_def rev_map [symmetric])
  have check: "(if scan_stack p = [] then Some (reset_totals p) else check_stack_z 0 p) = Some q"
    using settled(1) buffer_empty_iff [OF ok(3)] by (simp add: q_def)
  have st: "entries_state q D'"
    using ok(3) buffer_empty_iff [OF ok(3)] reset_entries_state [of p] settled(2) tok
    by (cases "D = []") (auto simp: q_def D'_def entries_state_def buffer_ok_def)
  have pos: "right_total q \<ge> 1" using st weights_nonneg [of "tokens D'"] unfolding entries_state_def by linarith
  have root: "rooted (D' @ [e])"
    using settle_rooted [of D "right_total p" e t 0] ok(3) settled(5) pos
    by (cases "D = []") (auto simp: D'_def e_def buffer_ok_def rooted_def)
  have "buffer_ok ((push_scanned_z (Break t) (- right_total q) q)\<lparr>right_total := right_total q + weight (Break t)\<rparr>) (D' @ [e])"
    using pos root settled(3,4,7) by (intro push_buffer_ok [OF st e_def]; cases "D = []")
      (auto simp: e_def entry_ok_def D'_def)
  moreover have "seam P D'" using ok(4) tok unfolding seam_def by (metis (mono_tags) in_set_conv_nth length_map nth_map)
  ultimately have "printer_ok ((push_scanned_z (Break t) (- right_total q) q)\<lparr>right_total := right_total q + weight (Break t)\<rparr>)
      (P @ tokens D' @ [Break t]) S'"
    using push_printer_ok [of p P S0 D' S "Break t" S'] ok(1,2) tok assms(2) by (simp add: e_def q_def)
  then show ?thesis using N tok check
    by (simp add: scan_break_z_def push_scanned_z_def push_entry_z_def ring_push_def Let_def split: if_splits)
qed

text \<open>
  An end takes an empty block with its break out of the sequence, and a break at the end of a block that
  is only for a block that goes on.
\<close>

definition condense_end :: "Token list \<Rightarrow> Token list" where
  "condense_end N =
     (case rev N of
        Break k # Begin b # R \<Rightarrow> rev R
      | Break k # R \<Rightarrow> if if_nonempty k then rev R @ [End] else N @ [End]
      | _ \<Rightarrow> N @ [End])"

definition condense_step :: "Token list \<Rightarrow> Token \<Rightarrow> Token list" where
  "condense_step N t = (case t of End \<Rightarrow> condense_end N | _ \<Rightarrow> N @ [t])"

definition condense :: "Token list \<Rightarrow> Token list" where
  "condense ts = foldl condense_step [] ts"

lemma condense_end_cases:
  "condense_end (N @ [Begin b, Break k]) = N"
  "\<forall>b. N = [] \<or> last N \<noteq> Begin b \<Longrightarrow> condense_end (N @ [Break k]) = (if if_nonempty k then N @ [End] else N @ [Break k, End])"
  "\<forall>k. N = [] \<or> last N \<noteq> Break k \<Longrightarrow> condense_end N = N @ [End]"
  by (auto simp: condense_end_def hd_rev [symmetric] split: list.splits Token.splits)

lemma push_end_ok:
  assumes "entries_state p D" "matched [] (rev D)" "levels 0 (waiting (rev D))" "fresh False (rev D)"
    "rooted D \<or> waiting D = []" "print_ok p P S0 (tokens D)" "walk S0 (tokens D) = Some S" "walk1 S End = Some S'" "seam P D"
  shows "printer_ok (push_scanned_z End (-1) p) (P @ tokens D @ [End]) S'"
proof -
  let ?e = "\<lparr>entry_token = End, entry_size = -1\<rparr>"
  have "rooted (D @ [?e])" by (rule rooted_push_other [OF assms(5)]) simp_all
  then have "buffer_ok ((push_scanned_z End (-1) p)\<lparr>right_total := right_total p + weight End\<rparr>) (D @ [?e])"
    using assms(2-4) matched_end [OF assms(2)] by (intro push_buffer_ok [OF assms(1)]) (auto simp: entry_ok_def intro: levels_Suc)
  then have "printer_ok ((push_scanned_z End (-1) p)\<lparr>right_total := right_total p + weight End\<rparr>) (P @ tokens D @ [End]) S'"
    using push_printer_ok [OF assms(6,7,8) _ assms(9)] by simp
  then show ?thesis using push_right_total [of End] by simp
qed

text \<open>A break at the end of the buffer is taken back.\<close>

definition take_back :: "Printer \<Rightarrow> BufEntry list \<Rightarrow> BufEntry \<Rightarrow> Printer" where
  "take_back p D e = p\<lparr>buf := (buf p)\<lparr>ring_data := D\<rparr>, scan_stack := butlast (scan_stack p),
     right_total := right_total p - weight (entry_token e)\<rparr>"

lemma take_back_state:
  assumes "entries_state p (D @ [e])" "entry_size e < 0" "entry_token e \<noteq> End"
  shows "entries_state (take_back p D e) D"
  using assms entries_ok_less [of "left_total p" D "[]" "entry_token e"]
  by (auto simp: entries_state_def take_back_def unsettled_append entries_ok_append)

lemma take_back_print_ok [simp]: "print_ok (take_back p D e) P S ts = print_ok p P S ts"
  by (simp add: take_back_def print_ok_def)

lemma rooted_less:
  assumes "rooted (D @ [e])" "entry_size e < 0"
  shows "rooted D \<or> waiting D = []"
  using assms by (cases D; cases "waiting D") (auto simp: rooted_def)

lemma rooted_less2:
  assumes "rooted (D @ [b, e])" "entry_token b = Begin x" "entry_size b < 0"
  shows "rooted D"
  using assms by (cases D; cases "waiting D") (auto simp: rooted_def split: if_splits)

lemma scan_end_empty:
  assumes "printer_ok p N S" "walk1 S End = Some S'" "scan_stack p = []"
  shows "\<exists>q. scan_end_z p = Some q \<and> printer_ok q (condense_end N) S'"
  using assms(1)
proof (rule printer_okE)
  fix P D S0 assume N: "N = P @ tokens D" and ok: "print_ok p P S0 (tokens D)" "walk S0 (tokens D) = Some S" "buffer_ok p D" "seam P D"
  have D: "D = []" using buffer_empty_iff [OF ok(3)] assms(3) by simp
  have "print_ok p P S [End]" using print_ok_more [OF ok(1), of "[End]"] ok(2) D by simp
  from print_end_ok [OF this assms(2)] obtain q where q: "print_end p = Some q" "print_ok q (P @ [End]) S' []" by blast
  have "buffer_ok q []" using ok(3) D q(1)
    by (auto simp: buffer_ok_def print_end_def rooted_def split: list.splits PrintFrame.splits)
  then have "printer_ok q (P @ [End]) S'" using printer_okI [of q "P @ [End]" S' "[]"] q(2) by (simp add: seam_def)
  moreover have "condense_end N = P @ [End]" using N D ok(4) by (subst condense_end_cases(3)) (auto simp: seam_def)
  ultimately show ?thesis using q(1) assms(3) by (simp add: scan_end_z_def)
qed

text \<open>The empty block is taken out with its break.\<close>

lemma scan_end_empty_block:
  assumes ok: "print_ok p P S0 (tokens (D @ [b, e]))" "walk S0 (tokens (D @ [b, e])) = Some S" "buffer_ok p (D @ [b, e])" "seam P (D @ [b, e])"
    and w: "walk1 S End = Some S'" and tok: "entry_token b = Begin x" "entry_token e = Break k"
  shows "\<exists>q. scan_end_z p = Some q \<and> printer_ok q (P @ tokens D) S'"
proof -
  let ?q = "take_back (take_back p (D @ [b]) e) D b"
  have inv: "ring_data (buf p) = D @ [b, e]" "matched [] (rev (D @ [b, e]))" "levels 0 (waiting (rev (D @ [b, e])))"
    "fresh True (rev (D @ [b, e]))" "rooted (D @ [b, e])" "scan_stack p \<noteq> []"
    using ok(3) buffer_empty_iff [OF ok(3)] by (simp_all add: buffer_ok_def)
  have neg: "entry_size e < 0" "entry_size b < 0" using inv(2,4) tok by simp_all
  have "entries_state p ((D @ [b]) @ [e])" using buffer_entries_state [OF ok(3)] by simp
  then have st: "entries_state ?q D" using neg tok by (intro take_back_state) simp_all
  have "buffer_ok ?q D"
    using st inv(2-5) rooted_less2 [OF inv(5) tok(1) neg(2)] neg tok by (simp add: entries_state_def buffer_ok_def)
  moreover have "walk S0 (tokens D) = Some S'"
    using ok(2) w tok by (auto simp: walk_append bind_eq_Some_conv split: if_splits IndentStyle.splits)
  moreover have "print_ok ?q P S0 (tokens D)"
    using print_ok_less [of p P S0 "tokens (D @ [b])" "Break k"] print_ok_less [of p P S0 "tokens D" "Begin x"] ok(1) tok by simp
  moreover have "seam P D" using ok(4) tok by (auto simp: seam_def)
  ultimately have "printer_ok ?q (P @ tokens D) S'" by (intro printer_okI)
  moreover have "scan_end_z p = Some ?q"
    using inv(1,6) tok by (simp add: scan_end_z_def ring_last_def ring_second_last_def ring_pop_last_def take_back_def nth_append butlast_append)
  ultimately show ?thesis by simp
qed

lemma scan_end_break:
  assumes ok: "print_ok p P S0 (tokens (D @ [e]))" "walk S0 (tokens (D @ [e])) = Some S" "buffer_ok p (D @ [e])" "seam P (D @ [e])"
    and w: "walk1 S End = Some S'" and tok: "entry_token e = Break k" and no: "\<forall>x. D = [] \<or> entry_token (last D) \<noteq> Begin x"
  shows "\<exists>q. scan_end_z p = Some q \<and> printer_ok q (P @ tokens D @ (if if_nonempty k then [End] else [Break k, End])) S'"
proof -
  have inv: "ring_data (buf p) = D @ [e]" "matched [] (rev (D @ [e]))" "levels 0 (waiting (rev (D @ [e])))"
    "fresh True (rev (D @ [e]))" "rooted (D @ [e])" "scan_stack p \<noteq> []"
    using ok(3) buffer_empty_iff [OF ok(3)] by (simp_all add: buffer_ok_def)
  have neg: "entry_size e < 0" using inv(4) tok by simp
  have st: "entries_state p (D @ [e])" using buffer_entries_state [OF ok(3)] by simp
  have scan: "scan_end_z p = Some (push_scanned_z End (-1) (if if_nonempty k then take_back p D e else p))"
    using inv(1,6) tok no
    by (cases D rule: rev_cases)
      (auto simp: scan_end_z_def ring_last_def ring_second_last_def ring_pop_last_def take_back_def nth_append butlast_append split: Token.split)
  show ?thesis
  proof (cases "if_nonempty k")
    case True
    have "walk S0 (tokens D) = Some S" using ok(2) tok by (auto simp: walk_append bind_eq_Some_conv split: if_splits)
    moreover have "print_ok (take_back p D e) P S0 (tokens D)" using print_ok_less [of p P S0 "tokens D" "Break k"] ok(1) tok by simp
    moreover have "seam P D" using ok(4) tok by (auto simp: seam_def)
    moreover have "matched [] (rev D)" "levels 0 (waiting (rev D))" "fresh False (rev D)"
      using inv(2-4) tok neg by auto
    moreover have "entries_state (take_back p D e) D" using take_back_state [OF st neg] tok by simp
    ultimately have "printer_ok (push_scanned_z End (-1) (take_back p D e)) (P @ tokens D @ [End]) S'"
      using push_end_ok rooted_less [OF inv(5) neg] w by blast
    then show ?thesis using scan True by simp
  next
    case False
    have "printer_ok (push_scanned_z End (-1) p) (P @ tokens (D @ [e]) @ [End]) S'"
      by (rule push_end_ok [OF st inv(2,3) fresh_weaken(2) [OF inv(4)] _ ok(1,2) w ok(4)]) (use inv(5) in simp)
    then show ?thesis using scan False tok by simp
  qed
qed

lemma scan_end_more:
  assumes "printer_ok p N S" "walk1 S End = Some S'" "scan_stack p \<noteq> []"
  shows "\<exists>q. scan_end_z p = Some q \<and> printer_ok q (condense_end N) S'"
  using assms(1)
proof (rule printer_okE)
  fix P D S0 assume N: "N = P @ tokens D" and ok: "print_ok p P S0 (tokens D)" "walk S0 (tokens D) = Some S" "buffer_ok p D" "seam P D"
  obtain D1 e where D: "D = D1 @ [e]" using buffer_empty_iff [OF ok(3)] assms(3) by (cases D rule: rev_cases) auto
  have inv: "ring_data (buf p) = D" "matched [] (rev D)" "levels 0 (waiting (rev D))" "fresh True (rev D)" "rooted D"
    using ok(3) by (simp_all add: buffer_ok_def)
  consider (other) "\<forall>k. entry_token e \<noteq> Break k"
    | (block) D2 b x k where "entry_token e = Break k" "D1 = D2 @ [b]" "entry_token b = Begin x"
    | (brk) k where "entry_token e = Break k" "\<forall>x. D1 = [] \<or> entry_token (last D1) \<noteq> Begin x"
    by (cases D1 rule: rev_cases; cases "entry_token e"; cases "entry_token (last D1)") auto
  then show ?thesis
  proof cases
    case other
    have st: "entries_state p D" using buffer_entries_state [OF ok(3)] D by simp
    have "printer_ok (push_scanned_z End (-1) p) (P @ tokens D @ [End]) S'"
      by (rule push_end_ok [OF st inv(2,3) fresh_weaken(2) [OF inv(4)] _ ok(1,2) assms(2) ok(4)]) (use inv(5) in simp)
    moreover have "condense_end N = P @ tokens D @ [End]" using N D other by (subst condense_end_cases(3)) auto
    moreover have "scan_end_z p = Some (push_scanned_z End (-1) p)"
      using assms(3) inv(1) D other by (cases "entry_token e") (simp_all add: scan_end_z_def ring_last_def)
    ultimately show ?thesis by simp
  next
    case block
    then have "condense_end N = P @ tokens D2"
      using N D condense_end_cases(1) [of "P @ tokens D2" x k] by simp
    then show ?thesis using scan_end_empty_block [of p P S0 D2 b e S S' x k] ok assms(2) D block by simp
  next
    case brk
    have "\<forall>x. P @ tokens D1 = [] \<or> last (P @ tokens D1) \<noteq> Begin x"
      using brk ok(4) D by (cases "D1 = []") (auto simp: seam_def last_map)
    then have "condense_end N = P @ tokens D1 @ (if if_nonempty k then [End] else [Break k, End])"
      using N D brk condense_end_cases(2) [of "P @ tokens D1" k] by simp
    then show ?thesis using scan_end_break [of p P S0 D1 e S S' k] ok assms(2) D brk by simp
  qed
qed

lemma scan_string_ok:
  assumes "printer_ok p N S"
  shows "\<exists>q. scan_string_z s p = Some q \<and> printer_ok q (N @ [Text s]) S"
  using assms
proof (rule printer_okE)
  fix P D S0 assume N: "N = P @ tokens D" and ok: "print_ok p P S0 (tokens D)" "walk S0 (tokens D) = Some S" "buffer_ok p D" "seam P D"
  show ?thesis
  proof (cases "scan_stack p = []")
    case True
    then have D: "D = []" using buffer_empty_iff [OF ok(3)] by simp
    have "print_ok p P S [Text s]" using print_ok_more [OF ok(1), of "[Text s]"] ok(2) D by simp
    from print_text_ok [OF this] obtain q where q: "print_string_z s p = Some q" "print_ok q (P @ [Text s]) S []" by blast
    have "buffer_ok q []" using ok(3) D print_string_scan [OF q(1)] by (simp add: buffer_ok_def)
    then have "printer_ok q (P @ [Text s]) S" using printer_okI [of q "P @ [Text s]" S "[]"] q(2) by (simp add: seam_def)
    then show ?thesis using q(1) True N D by (simp add: scan_string_z_def)
  next
    case False
    then have D: "D \<noteq> []" using buffer_empty_iff [OF ok(3)] by simp
    let ?e = "\<lparr>entry_token = Text s, entry_size = int (length s)\<rparr>"
    define q where "q = p\<lparr>buf := (buf p)\<lparr>ring_data := D @ [?e]\<rparr>, right_total := right_total p + int (length s)\<rparr>"
    have scan: "scan_string_z s p = check_stream_z q"
      using False ok(3) by (simp add: scan_string_z_def push_entry_z_def ring_push_def q_def buffer_ok_def)
    have buf: "buffer_ok q (D @ [?e])"
      using ok(3) D entries_ok_more [of "left_total p" D "[]" "[Text s]"] fresh_weaken(2) [of True "rev D"]
      by (cases D) (auto simp: buffer_ok_def q_def unsettled_append entries_ok_append entry_ok_def rooted_def)
    have "print_ok q P S0 (tokens (D @ [?e]))"
      using print_ok_more [OF ok(1), of "[Text s]"] by (simp add: q_def)
    then have "stream_ok q P (D @ [?e]) S" using buf ok(2) by (auto simp: stream_ok_def walk_append)
    from check_stream_ok [OF this] show ?thesis using scan N by simp
  qed
qed

lemma scan_token_ok:
  assumes "printer_ok p N S" "walk1 S t = Some S'"
  shows "\<exists>q. scan_token_z t p = Some q \<and> printer_ok q (condense_step N t) S'"
proof (cases t)
  case (Text s)
  then show ?thesis using assms scan_string_ok [of p N S s] by (simp add: scan_token_z_def condense_step_def)
next
  case End
  then show ?thesis using assms scan_end_empty [of p N S S'] scan_end_more [of p N S S']
    by (simp add: scan_token_z_def condense_step_def del: walk1.simps) blast
next
  case (Begin b)
  then show ?thesis using assms scan_begin_ok [of p N S b S'] by (simp add: scan_token_z_def condense_step_def del: walk1.simps)
next
  case (Break b)
  then show ?thesis using assms scan_break_ok [of p N S b S'] by (simp add: scan_token_z_def condense_step_def del: walk1.simps)
qed

lemma scan_tokens_ok:
  assumes "printer_ok p N S" "walk S ts = Some S'"
  shows "\<exists>q. scan_tokens_z ts p = Some q \<and> printer_ok q (foldl condense_step N ts) S'"
  using assms
proof (induction ts arbitrary: p N S)
  case (Cons t ts)
  obtain S1 where S1: "walk1 S t = Some S1" "walk S1 ts = Some S'" using Cons.prems(2) by (auto simp: bind_eq_Some_conv)
  from scan_token_ok [OF Cons.prems(1) S1(1)] obtain q where "scan_token_z t p = Some q" "printer_ok q (condense_step N t) S1" by blast
  with Cons.IH [OF _ S1(2)] show ?case by auto
qed simp

lemma scan_eof_ok:
  assumes "printer_ok p N []"
  shows "\<exists>q. scan_eof_z p = Some q \<and> drawn (indent_config q) (margin q) N [] (sheet_of q)"
  using assms
proof (rule printer_okE)
  fix P D S0 assume N: "N = P @ tokens D" and ok: "print_ok p P S0 (tokens D)" "walk S0 (tokens D) = Some []" "buffer_ok p D" "seam P D"
  show ?thesis
  proof (cases "D = []")
    case True
    then show ?thesis using ok(1) N buffer_empty_iff [OF ok(3)] by (simp add: scan_eof_z_def print_ok_def)
  next
    case False
    define D' where "D' = rev (settle (right_total p) 0 (rev D))"
    define q where "q = p\<lparr>buf := (buf p)\<lparr>ring_data := D'\<rparr>, scan_stack := unsettled (ring_offset (buf p)) D'\<rparr>"
    note settled = settled_buffer [OF ok(3) False D'_def]
    have "list_all (\<lambda>e. entry_size e \<ge> 0) (settle (right_total p) (count_open []) (rev D))"
      by (rule settle_drains) (use ok(3) walk_opens [OF ok(2), of 0] settled(5) in \<open>simp_all add: buffer_ok_def rev_map\<close>)
    then have nonneg: "list_all (\<lambda>e. entry_size e \<ge> 0) D'" by (simp add: D'_def)
    have "print_ok q P S0 (tokens D')" "walk S0 (tokens D') = Some []" using ok(1,2) settled(6) by (simp_all add: q_def)
    moreover have "all_sized D'" using entries_ok_all_sized [OF settled(2)] ok(3) False by (simp add: buffer_ok_def)
    moreover have "D' \<noteq> []" using False settled(6) by (metis map_is_Nil_conv)
    moreover have "ring_data (buf q) = D'" by (simp add: q_def)
    ultimately obtain r X D'' S1 where r: "advance_left_z q = Some r" "D' = X @ D''" "D'' = [] \<or> entry_size (hd D'') < 0"
      "print_ok r (P @ tokens X) S1 (tokens D'')"
      using advance_left_prints [of q D' P S0 "[]"] by blast
    have "D'' = []" using r(2,3) nonneg by (cases D'') auto
    then have "drawn (indent_config r) (margin r) N [] (sheet_of r)" using r(2,4) N settled(6) by (simp add: print_ok_def)
    then show ?thesis using r(1) settled(1) buffer_empty_iff [OF ok(3)] False by (simp add: scan_eof_z_def q_def)
  qed
qed

lemma printer_new_ok:
  assumes "tabs \<noteq> Some 0"
  shows "printer_ok (printer_new m tabs) [] []"
  using assms printer_okI [of "printer_new m tabs" "[]" "[]" "[]" "[]"]
  by (simp add: printer_new_def print_ok_def buffer_ok_def seam_def sheet_of_def drawn.start [unfolded empty_sheet_def] rooted_def clamp_def
      MIN_SPACE_def SIZE_INFINITY_def ring_new_def Let_def)

section \<open>The settings stay\<close>

definition same_settings :: "Printer \<Rightarrow> Printer \<Rightarrow> bool" where
  "same_settings p q \<longleftrightarrow> margin q = margin p \<and> indent_config q = indent_config p"

lemma same_settings_trans: "same_settings p q \<Longrightarrow> same_settings q r \<Longrightarrow> same_settings p r"
  by (simp add: same_settings_def)

lemma same_settings_simps [simp]:
  "same_settings p p" "same_settings (p\<lparr>buf := b\<rparr>) q = same_settings p q" "same_settings (p\<lparr>scan_stack := st\<rparr>) q = same_settings p q"
  "same_settings (p\<lparr>left_total := k\<rparr>) q = same_settings p q" "same_settings (p\<lparr>right_total := k\<rparr>) q = same_settings p q"
  "same_settings (p\<lparr>last_printed := t\<rparr>) q = same_settings p q"
  by (simp_all add: same_settings_def)

lemma print_indent_settings: "print_indent p = Some q \<Longrightarrow> same_settings p q"
  by (auto simp: print_indent_def same_settings_def split: option.splits if_splits)

lemma print_string_settings: "print_string_z s p = Some q \<Longrightarrow> same_settings p q"
  by (auto simp: print_string_z_def same_settings_def bind_eq_Some_conv dest!: print_indent_settings)

lemma print_break_settings: "print_break_z t sz p = Some q \<Longrightarrow> same_settings p q"
  by (auto simp: print_break_z_def same_settings_def bind_eq_Some_conv Let_def dest!: print_indent_settings print_string_settings
      split: if_splits option.splits)

lemma print_left_settings: "print_left_z e p = Some q \<Longrightarrow> same_settings p q"
  by (auto simp: print_left_z_def print_begin_z_def print_end_def same_settings_def Let_def dest!: print_string_settings print_break_settings
      split: Token.splits if_splits IndentStyle.splits list.splits PrintFrame.splits)

lemma settings_steps:
  "print_left_z e (p\<lparr>buf := b\<rparr>) = Some r \<Longrightarrow> same_settings p0 p \<Longrightarrow> same_settings p0 (r\<lparr>last_printed := t\<rparr>)"
  "resolve_z i f p = Some r \<Longrightarrow> same_settings p0 p \<Longrightarrow> same_settings p0 r"
  by (auto simp: same_settings_def resolve_z_def dest!: print_left_settings)

lemma settings_front: "same_settings p0 p \<Longrightarrow> same_settings p0 (p\<lparr>scan_stack := st, buf := b\<rparr>)"
  by (simp add: same_settings_def)

lemma loop_settings:
  "advance_left_z p = Some q \<Longrightarrow> same_settings p q" "check_stack_z d p = Some q \<Longrightarrow> same_settings p q"
  "check_stream_z p = Some q \<Longrightarrow> same_settings p q"
proof -
  show "same_settings p q" if "advance_left_z p = Some q"
    by (rule advance_left_z_invariant [OF _ that, of "same_settings p"]) (auto intro: settings_steps)
  show "same_settings p q" if "check_stack_z d p = Some q"
    by (rule check_stack_z_invariant [OF _ that, of "same_settings p"]) (auto intro: settings_steps)
  show "same_settings p q" if "check_stream_z p = Some q"
    by (rule check_stream_z_invariant [OF that, of "same_settings p"]) (auto intro: settings_steps intro!: settings_front)
qed

lemma scan_token_settings: "scan_token_z t p = Some q \<Longrightarrow> same_settings p q"
  by (auto simp: scan_token_z_def scan_string_z_def scan_break_z_def scan_begin_z_def scan_end_z_def print_end_def push_scanned_z_def push_entry_z_def
      ring_push_def reset_totals_def same_settings_def bind_eq_Some_conv Let_def dest!: loop_settings print_string_settings
      split: Token.splits if_splits option.splits list.splits PrintFrame.splits)

lemma scan_tokens_settings: "scan_tokens_z ts p = Some q \<Longrightarrow> same_settings p q"
  by (induction ts arbitrary: p) (auto simp: bind_eq_Some_conv intro: same_settings_trans dest!: scan_token_settings)

lemma scan_eof_settings: "scan_eof_z p = Some q \<Longrightarrow> same_settings p q"
  by (auto simp: scan_eof_z_def bind_eq_Some_conv intro: same_settings_trans dest!: loop_settings split: if_splits)

section \<open>The printer with unbounded integers\<close>

text \<open>The margin that \<open>printer_new\<close> takes.\<close>

definition line_width :: "nat \<Rightarrow> int" where
  "line_width m = clamp (as_isize m) MIN_SPACE (SIZE_INFINITY - 1)"

lemma printer_z_draws:
  assumes "tabs \<noteq> Some 0" "walk [] ts = Some S"
  shows "\<exists>p. scan_tokens_z ts (printer_new m tabs) = Some p \<and> printer_ok p (condense ts) S \<and>
    (S = [] \<longrightarrow> (\<exists>q. scan_eof_z p = Some q \<and> drawn tabs (line_width m) (condense ts) [] (sheet_of q)))"
proof -
  obtain p where p: "scan_tokens_z ts (printer_new m tabs) = Some p" "printer_ok p (condense ts) S"
    using scan_tokens_ok [OF printer_new_ok [OF assms(1)] assms(2)] by (auto simp: condense_def)
  have "\<exists>q. scan_eof_z p = Some q \<and> drawn tabs (line_width m) (condense ts) [] (sheet_of q)" if empty: "S = []"
  proof -
    obtain q where q: "scan_eof_z p = Some q" "drawn (indent_config q) (margin q) (condense ts) [] (sheet_of q)"
      using scan_eof_ok [of p "condense ts"] p(2) empty by blast
    have "same_settings (printer_new m tabs) q"
      by (rule same_settings_trans [OF scan_tokens_settings [OF p(1)] scan_eof_settings [OF q(1)]])
    then have "indent_config q = tabs" "margin q = line_width m"
      by (simp_all add: same_settings_def printer_new_def line_width_def Let_def)
    with q show ?thesis by simp
  qed
  with p show ?thesis by blast
qed

text \<open>The condensed sequence has all the text.\<close>

definition texts :: "Token list \<Rightarrow> string list" where
  "texts ts = List.map_filter (\<lambda>t. case t of Text s \<Rightarrow> Some s | _ \<Rightarrow> None) ts"

lemma texts_simps [simp]: "texts [] = []" "texts (t # ts) = (case t of Text s \<Rightarrow> s # texts ts | _ \<Rightarrow> texts ts)"
  "texts (xs @ ys) = texts xs @ texts ys"
  by (simp_all add: texts_def map_filter_def split: Token.split)

lemma texts_condense_end: "texts (condense_end N) = texts N"
proof -
  have "N = rev R \<Longrightarrow> texts (condense_end N) = texts N" for R
    by (cases R rule: list.exhaust; cases "tl R") (auto simp: condense_end_def split: Token.split)
  then show ?thesis by (metis rev_rev_ident)
qed

lemma texts_condense: "texts (condense ts) = texts ts"
proof -
  have "texts (foldl condense_step N ts) = texts N @ texts ts" for N
    by (induction ts arbitrary: N) (auto simp: condense_step_def texts_condense_end split: Token.split)
  from this [of "[]"] show ?thesis by (simp add: condense_def)
qed

end
