(* ===== verification/Fmt_Machine.thy ===== *)
theory Fmt_Machine
  imports Fmt_Sound
begin

text \<open>
  The pretty printer of the code computes what the printer with unbounded integers computes. Each token has a
  cost that bounds what it can add to any number of the printer; as long as the costs of the
  tokens add up to less than \<open>2 ^ 62\<close>, no operation on \<open>isize\<close> and \<open>usize\<close> overflows and no conversion wraps around.
  This theory has the printing half and the loops; \<open>Fmt_Run\<close> has the operations.
\<close>

section \<open>Costs\<close>

definition LIMIT :: int where
  "LIMIT = 2 ^ 62"

fun cost :: "Token \<Rightarrow> int" where
  "cost (Text s) = 1 + int (length s)"
| "cost (Break b) = 1 + int (blank_space b) + \<bar>break_offset b\<bar> +
     (case post_break b of None \<Rightarrow> 0 | Some s \<Rightarrow> int (length s))"
| "cost (Begin b) = 1 + (case indent_style b of Block offset \<Rightarrow> \<bar>offset\<bar> | Visual \<Rightarrow> 0)"
| "cost End = 1"

abbreviation costs :: "Token list \<Rightarrow> int" where
  "costs ts \<equiv> sum_list (map cost ts)"

lemma cost_pos: "cost t \<ge> 1"
  by (cases t) (auto split: option.split IndentStyle.split)

lemma costs_length: "costs ts \<ge> int (length ts)"
proof (induction ts)
  case (Cons t ts)
  then show ?case using cost_pos [of t] by simp
qed simp

lemma costs_nonneg: "costs ts \<ge> 0"
  using costs_length [of ts] by linarith

lemma weight_cost: "weight t \<le> cost t"
  by (cases t) (auto split: option.split IndentStyle.split)

section \<open>Numbers in range\<close>

lemma isize_eq: "\<bar>x\<bar> \<le> 2 * LIMIT - 1 \<Longrightarrow> isize x = Some x"
  by (auto simp: isize_def LIMIT_def)

lemma usize_eq: "int n \<le> 2 * LIMIT \<Longrightarrow> usize n = Some n"
  by (auto simp: usize_def LIMIT_def)

lemma as_isize_eq: "int n \<le> LIMIT \<Longrightarrow> as_isize n = int n"
  by (auto simp: as_isize_def LIMIT_def)

lemma as_usize_eq: "0 \<le> x \<Longrightarrow> x \<le> LIMIT \<Longrightarrow> as_usize x = nat x"
  by (auto simp: as_usize_def LIMIT_def)

text \<open>The numbers of the printing half are at most \<open>k\<close>.\<close>

definition frame_indent :: "PrintFrame \<Rightarrow> nat" where
  "frame_indent f = (case f of Fits b \<Rightarrow> 0 | Broken i b \<Rightarrow> i)"

lemma frame_indent_simps [simp]: "frame_indent (Fits b) = 0" "frame_indent (Broken i b) = i"
  by (simp_all add: frame_indent_def)

definition roomy :: "int \<Rightarrow> Printer \<Rightarrow> bool" where
  "roomy k p \<longleftrightarrow>
     MIN_SPACE \<le> margin p \<and> margin p \<le> SIZE_INFINITY \<and> space p \<le> margin p \<and> margin p - space p \<le> k \<and>
     int (indent p) \<le> k \<and> int (pending_indentation p) \<le> k \<and> list_all (\<lambda>f. int (frame_indent f) \<le> k) (print_stack p)"

lemma roomy_mono: "roomy k p \<Longrightarrow> k \<le> k' \<Longrightarrow> roomy k' p"
  by (auto simp: roomy_def list_all_iff)

lemma roomy_scan [simp]:
  "roomy k (p\<lparr>buf := b\<rparr>) = roomy k p" "roomy k (p\<lparr>left_total := l\<rparr>) = roomy k p" "roomy k (p\<lparr>right_total := l\<rparr>) = roomy k p"
  "roomy k (p\<lparr>scan_stack := st\<rparr>) = roomy k p" "roomy k (p\<lparr>last_printed := t\<rparr>) = roomy k p" "roomy k (p\<lparr>out := o'\<rparr>) = roomy k p"
  by (simp_all add: roomy_def)

lemma print_indent_roomy: "print_indent p = Some q \<Longrightarrow> roomy k p \<Longrightarrow> roomy k q \<and> space q = space p \<and> margin q = margin p \<and> indent q = indent p"
  by (auto simp: print_indent_def roomy_def split: option.splits if_splits)

lemma print_string_machine:
  assumes "roomy k p" "k + int (length s) \<le> LIMIT"
  shows "print_string s p = print_string_z s p" "print_string_z s p = Some q \<Longrightarrow> roomy (k + int (length s)) q"
proof -
  have k: "0 \<le> k" using assms(1) by (simp add: roomy_def)
  have len: "as_isize (length s) = int (length s)" using assms k by (intro as_isize_eq) simp
  have "isize (space p - int (length s)) = Some (space p - int (length s))"
    using assms by (intro isize_eq) (auto simp: roomy_def MIN_SPACE_def SIZE_INFINITY_def LIMIT_def)
  then show "print_string s p = print_string_z s p"
    using print_indent_roomy [OF _ assms(1)] len
    by (cases "print_indent p") (auto simp: print_string_def print_string_z_def)
  show "roomy (k + int (length s)) q" if run: "print_string_z s p = Some q"
  proof -
    obtain r where r: "print_indent p = Some r" "q = r\<lparr>out := out r @ s, space := space r - int (length s)\<rparr>"
      using run by (auto simp: print_string_z_def bind_eq_Some_conv)
    have "roomy k r" "space r = space p" using print_indent_roomy [OF r(1) assms(1)] by simp_all
    then show ?thesis using roomy_mono [of k r "k + int (length s)"] unfolding r(2) by (simp add: roomy_def)
  qed
qed

lemma print_begin_machine:
  assumes "roomy k p" "k + cost (Begin t) \<le> LIMIT"
  shows "print_begin t sz p = print_begin_z t sz p" "print_begin_z t sz p = Some q \<Longrightarrow> roomy (k + cost (Begin t)) q"
proof -
  have r: "0 \<le> k" "int (indent p) \<le> k" "int (pending_indentation p) \<le> k" "margin p - space p \<le> k" "0 \<le> margin p - space p"
    using assms(1) by (simp_all add: roomy_def)
  have ind: "as_isize (indent p) = int (indent p)" using assms r by (intro as_isize_eq) (simp split: IndentStyle.splits)
  have off: "isize (int (indent p) + offset) = Some (int (indent p) + offset)" if "indent_style t = Block offset" for offset
    using assms(2) r that by (intro isize_eq) (auto simp: LIMIT_def)
  have vis: "isize (margin p - space p) = Some (margin p - space p)" "as_usize (margin p - space p) = nat (margin p - space p)"
    if "indent_style t = Visual"
    using assms(2) r that by (auto intro!: isize_eq as_usize_eq simp: LIMIT_def)
  show "print_begin t sz p = print_begin_z t sz p"
    using ind off vis by (auto simp: print_begin_def print_begin_z_def Let_def split: IndentStyle.split)
  have "roomy (k + cost (Begin t)) p" using roomy_mono [OF assms(1)] cost_pos [of "Begin t"] by simp
  then show "roomy (k + cost (Begin t)) q" if "print_begin_z t sz p = Some q"
    using that r by (auto simp: print_begin_z_def Let_def roomy_def split: IndentStyle.splits if_splits)
qed

lemma print_end_roomy: "print_end p = Some q \<Longrightarrow> roomy k p \<Longrightarrow> roomy k q"
  by (auto simp: print_end_def roomy_def split: list.splits PrintFrame.splits)

lemma print_line_end_machine:
  assumes "roomy k p" "k + cost (Break t) \<le> LIMIT" "\<not> break_fits t sz p"
  shows "print_break t sz p = print_break_z t sz p" "print_break_z t sz p = Some q \<Longrightarrow> roomy (k + cost (Break t)) q"
proof -
  let ?c = "k + 1 + int (blank_space t) + \<bar>break_offset t\<bar>" and ?i = "int (indent p) + break_offset t"
  have r: "0 \<le> k" "int (indent p) \<le> k" "0 \<le> margin p" "margin p \<le> SIZE_INFINITY" "MIN_SPACE \<le> margin p"
    using assms(1) by (simp_all add: roomy_def MIN_SPACE_def)
  have c: "?c \<le> LIMIT" using assms(2) by (simp split: option.splits)
  have ind: "as_isize (indent p) = int (indent p)" using c r by (intro as_isize_eq) simp
  have off: "isize ?i = Some ?i" using c r by (intro isize_eq) (auto simp: LIMIT_def)
  have left: "0 \<le> ?i \<Longrightarrow> isize (margin p - ?i) = Some (margin p - ?i)"
    using c r by (intro isize_eq) (auto simp: LIMIT_def SIZE_INFINITY_def)
  define pre where "pre = (case pre_break t of None \<Rightarrow> Some p | Some s \<Rightarrow> do { p \<leftarrow> print_indent p; Some (p\<lparr>out := out p @ s\<rparr>) })"
  show "print_break t sz p = print_break_z t sz p"
  proof (cases pre)
    case None
    then show ?thesis using assms(3) by (simp add: print_break_def print_break_z_def pre_def [symmetric])
  next
    case (Some r)
    have r': "roomy k r" "indent r = indent p" "margin r = margin p"
      using Some assms(1) by (auto simp: pre_def bind_eq_Some_conv split: option.splits dest!: print_indent_roomy)
    show ?thesis
    proof (cases "?i < 0")
      case True
      then show ?thesis using assms(3) Some r' ind off by (simp add: print_break_def print_break_z_def pre_def [symmetric] Let_def)
    next
      case False
      define u where "u = r\<lparr>out := out r @ [newline], pending_indentation := nat ?i, space := max (margin p - ?i) MIN_SPACE\<rparr>"
      have "roomy ?c u" using roomy_mono [OF r'(1), of ?c] r' r False by (auto simp: u_def roomy_def)
      then have "(case post_break t of None \<Rightarrow> Some u | Some s \<Rightarrow> print_string s u) =
          (case post_break t of None \<Rightarrow> Some u | Some s \<Rightarrow> print_string_z s u)"
        using print_string_machine(1) [of ?c u] assms(2) by (simp split: option.splits)
      then show ?thesis using assms(3) Some r' ind off left False unfolding u_def
        by (simp add: print_break_def print_break_z_def pre_def [symmetric] Let_def)
    qed
  qed
  show "roomy (k + cost (Break t)) q" if run: "print_break_z t sz p = Some q"
  proof -
    obtain r where pre': "pre = Some r" "\<not> ?i < 0"
      using run assms(3) print_indent_roomy [OF _ assms(1)]
      by (auto simp: print_break_z_def pre_def Let_def bind_eq_Some_conv split: option.splits if_splits)
    have r': "roomy k r" "indent r = indent p" "margin r = margin p"
      using pre'(1) assms(1) by (auto simp: pre_def bind_eq_Some_conv split: option.splits dest!: print_indent_roomy)
    define u where "u = r\<lparr>out := out r @ [newline], pending_indentation := nat ?i, space := max (margin p - ?i) MIN_SPACE\<rparr>"
    have u: "roomy ?c u" using roomy_mono [OF r'(1), of ?c] r' r pre'(2) by (auto simp: u_def roomy_def)
    have "(case post_break t of None \<Rightarrow> Some u | Some s \<Rightarrow> print_string_z s u) = Some q"
      using run assms(3) pre' r' unfolding u_def by (simp add: print_break_z_def pre_def [symmetric] Let_def)
    then show ?thesis using u print_string_machine(2) [OF u] assms(2) by (auto split: option.splits simp: algebra_simps)
  qed
qed

lemma print_break_machine:
  assumes "roomy k p" "k + cost (Break t) \<le> LIMIT"
  shows "print_break t sz p = print_break_z t sz p" "print_break_z t sz p = Some q \<Longrightarrow> roomy (k + cost (Break t)) q"
proof -
  have r: "0 \<le> k" "int (pending_indentation p) \<le> k" "margin p - space p \<le> k" "space p \<le> margin p" "0 \<le> margin p" "margin p \<le> SIZE_INFINITY"
    using assms(1) by (simp_all add: roomy_def MIN_SPACE_def)
  have b: "k + int (blank_space t) + 1 \<le> LIMIT" "k + int (blank_space t) \<le> k + cost (Break t)"
    using assms(2) by (simp_all split: option.splits)
  have conv: "as_isize (blank_space t) = int (blank_space t)" "usize (pending_indentation p + blank_space t) = Some (pending_indentation p + blank_space t)"
    "isize (space p - int (blank_space t)) = Some (space p - int (blank_space t))"
    using b r by (auto intro!: as_isize_eq usize_eq isize_eq simp: LIMIT_def SIZE_INFINITY_def)
  note line = print_line_end_machine [OF assms]
  show "print_break t sz p = print_break_z t sz p"
    using conv line(1) by (cases "break_fits t sz p") (simp_all add: print_break_def print_break_z_def)
  have m: "roomy (k + cost (Break t)) p" using roomy_mono [OF assms(1)] cost_pos [of "Break t"] by simp
  show "roomy (k + cost (Break t)) q" if "print_break_z t sz p = Some q"
  proof (cases "break_fits t sz p")
    case True
    then show ?thesis using that m r b(2) by (auto simp: print_break_z_def roomy_def)
  qed (use line(2) that in blast)
qed

section \<open>Flushing the buffer\<close>

text \<open>
  With \<open>K\<close> for the costs of all tokens so far: what the buffered tokens may still add is kept free in the numbers of
  the printing half.
\<close>

definition text_sized :: "BufEntry \<Rightarrow> bool" where
  "text_sized e \<longleftrightarrow> (case entry_token e of Text s \<Rightarrow> entry_size e = int (length s) | _ \<Rightarrow> True)"

definition within :: "int \<Rightarrow> Printer \<Rightarrow> bool" where
  "within K p \<longleftrightarrow>
     (let D = ring_data (buf p) in
      1 \<le> K \<and> roomy (K - costs (tokens D)) p \<and> 0 \<le> left_total p \<and> left_total p + weights (tokens D) \<le> K \<and>
      0 \<le> right_total p \<and> right_total p \<le> K \<and> int (ring_offset (buf p) + length D) \<le> K \<and> list_all text_sized D)"

lemma print_left_machine:
  assumes "roomy k p" "k + cost (entry_token e) \<le> LIMIT" "text_sized e" "0 \<le> left_total p" "left_total p + weight (entry_token e) \<le> LIMIT"
  shows "print_left e p = print_left_z e p"
    "print_left_z e p = Some q \<Longrightarrow> roomy (k + cost (entry_token e)) q \<and> left_total q = left_total p + weight (entry_token e)"
proof -
  have k: "0 \<le> k" using assms(1) by (simp add: roomy_def)
  have tot: "isize (left_total p + weight (entry_token e)) = Some (left_total p + weight (entry_token e))"
    using assms(4,5) weight_nonneg [of "entry_token e"] by (intro isize_eq) (simp add: LIMIT_def)
  have conv: "as_isize (blank_space b) = int (blank_space b)" if "entry_token e = Break b" for b
    using assms(4,5) that by (intro as_isize_eq) simp
  have "print_left e p = print_left_z e p \<and> (print_left_z e p = Some q \<longrightarrow>
      roomy (k + cost (entry_token e)) q \<and> left_total q = left_total p + weight (entry_token e))"
  proof (cases "entry_token e")
    case (Text s)
    have len: "k + int (length s) \<le> LIMIT" using assms(2) Text by simp
    from print_string_machine [OF _ len, of "p\<lparr>left_total := left_total p + int (length s)\<rparr>"] Text tot assms(1,3)
    show ?thesis using roomy_mono [of "k + int (length s)" q "k + cost (entry_token e)"]
      by (auto simp: print_left_def print_left_z_def text_sized_def dest: print_string_scan)
  next
    case (Break b)
    have c: "k + cost (Break b) \<le> LIMIT" using assms(2) Break by simp
    from print_break_machine [OF _ c, of "p\<lparr>left_total := left_total p + int (blank_space b)\<rparr>"] Break tot conv assms(1)
    show ?thesis by (auto simp: print_left_def print_left_z_def simp del: cost.simps dest: print_break_scan)
  next
    case (Begin b)
    have c: "k + cost (Begin b) \<le> LIMIT" using assms(2) Begin by simp
    from print_begin_machine [OF assms(1) c] Begin show ?thesis
      by (auto simp: print_left_def print_left_z_def print_begin_z_def Let_def simp del: cost.simps split: if_splits IndentStyle.splits)
  next
    case End
    then show ?thesis using print_end_roomy [of p q k] roomy_mono [of k q "k + 1"] assms(1)
      by (auto simp: print_left_def print_left_z_def print_end_def split: list.splits PrintFrame.splits)
  qed
  then show "print_left e p = print_left_z e p"
    "print_left_z e p = Some q \<Longrightarrow> roomy (k + cost (entry_token e)) q \<and> left_total q = left_total p + weight (entry_token e)"
    by blast+
qed

text \<open>One round: the oldest entry is taken out of the buffer and printed.\<close>

lemma pop_machine:
  assumes "within K p" "K \<le> LIMIT" "ring_pop_first (buf p) = Some (e, b)"
  shows "print_left e (p\<lparr>buf := b\<rparr>) = print_left_z e (p\<lparr>buf := b\<rparr>)" "usize (ring_offset b) = Some (ring_offset b)"
    "print_left_z e (p\<lparr>buf := b\<rparr>) = Some r \<Longrightarrow> within K (r\<lparr>last_printed := t\<rparr>)"
proof -
  obtain es where D: "ring_data (buf p) = e # es" "ring_data b = es" "ring_offset b = Suc (ring_offset (buf p))"
    using assms(3) by (auto simp: ring_pop_first_def split: list.splits)
  let ?t = "entry_token e" and ?k = "K - costs (tokens (ring_data (buf p)))"
  have w: "roomy ?k p" "text_sized e" "0 \<le> left_total p" "left_total p + weight ?t + weights (tokens es) \<le> K"
    "int (ring_offset (buf p) + length (e # es)) \<le> K" using assms(1) D by (simp_all add: within_def Let_def)
  have c: "?k + cost ?t = K - costs (tokens es)" using D by simp
  have lim: "?k + cost ?t \<le> LIMIT" using c costs_nonneg [of "tokens es"] assms(2) by linarith
  have lt: "left_total p + weight ?t \<le> LIMIT" using w(4) weights_nonneg [of "tokens es"] assms(2) by linarith
  have w': "roomy ?k (p\<lparr>buf := b\<rparr>)" using w(1) by simp
  note m = print_left_machine [OF w' lim w(2)]
  show "print_left e (p\<lparr>buf := b\<rparr>) = print_left_z e (p\<lparr>buf := b\<rparr>)" using m(1) w(3) lt by simp
  show "usize (ring_offset b) = Some (ring_offset b)" using w(5) D(3) assms(2) by (intro usize_eq) (simp add: LIMIT_def)
  show "within K (r\<lparr>last_printed := t\<rparr>)" if run: "print_left_z e (p\<lparr>buf := b\<rparr>) = Some r"
  proof -
    have "roomy (K - costs (tokens es)) r" "left_total r = left_total p + weight ?t" using m(2) [unfolded c, OF _ _ run] w(3) lt by simp_all
    moreover have "buf r = b" "right_total r = right_total p" using print_left_scan [OF run] by simp_all
    ultimately show ?thesis using assms(1) D w(3,4,5) weight_nonneg [of ?t] by (simp add: within_def Let_def)
  qed
qed

lemma advance_left_machine:
  assumes "within K p" "K \<le> LIMIT"
  shows "advance_left p = advance_left_z p"
  using assms(1)
proof (induction "length (ring_data (buf p))" arbitrary: p rule: less_induct)
  case less
  show ?case
  proof (cases "ring_data (buf p)")
    case Nil
    then show ?thesis by (simp add: advance_left.simps advance_left_z.simps ring_first_def)
  next
    case (Cons e es)
    define b where "b = \<lparr>ring_data = es, ring_offset = ring_offset (buf p) + 1\<rparr>"
    have pop: "ring_pop_first (buf p) = Some (e, b)" "ring_first (buf p) = Some e" using Cons by (simp_all add: ring_pop_first_def ring_first_def b_def)
    note m = pop_machine [OF less.prems assms(2) pop(1)]
    have IH: "advance_left (r\<lparr>last_printed := t\<rparr>) = advance_left_z (r\<lparr>last_printed := t\<rparr>)"
      if "print_left_z e (p\<lparr>buf := b\<rparr>) = Some r" for r t
      using less.hyps [OF _ m(3) [OF that]] print_left_scan [OF that] Cons by (simp add: b_def)
    show ?thesis
      by (subst advance_left.simps, subst advance_left_z.simps) (simp add: pop m(1,2) IH Let_def split: option.split)
  qed
qed

lemma advance_left_within:
  assumes "within K p" "K \<le> LIMIT" "advance_left_z p = Some q"
  shows "within K q"
  by (rule advance_left_z_invariant [of "within K", OF assms(1,3)]) (rule pop_machine(3) [OF _ assms(2)])

section \<open>The loops of scanning\<close>

lemma check_stack_machine:
  assumes "ring_data (buf p) = rev R @ T" "scan_stack p = unsettled (ring_offset (buf p)) (rev R)"
    "settleable (right_total p) R" "0 \<le> right_total p" "right_total p \<le> LIMIT" "int (d + length R) \<le> LIMIT"
  shows "check_stack d p = check_stack_z d p"
  using assms
proof (induction R arbitrary: d p T)
  case Nil
  then show ?case by (simp add: check_stack.simps check_stack_z.simps)
next
  case (Cons e R)
  let ?o = "ring_offset (buf p)" and ?rt = "right_total p"
  have data: "ring_data (buf p) = rev R @ e # T" using Cons.prems(1) by simp
  have sr: "settleable ?rt R" using Cons.prems(3) by (simp add: settleable_def)
  show ?case
  proof (cases "entry_size e \<ge> 0")
    case True
    then have "scan_stack p = unsettled ?o (rev R)" using Cons.prems(2) by (simp add: unsettled_append)
    from Cons.IH [OF data this sr Cons.prems(4,5)] Cons.prems(6) show ?thesis by simp
  next
    case False
    then have st: "scan_stack p = unsettled ?o (rev R) @ [?o + length (rev R)]"
      using Cons.prems(2) by (simp add: unsettled_append)
    define after where "after e' = p\<lparr>buf := (buf p)\<lparr>ring_data := rev R @ e' # T\<rparr>, scan_stack := unsettled ?o (rev R)\<rparr>" for e'
    have rest: "check_stack d' (after e') = check_stack_z d' (after e')" if "int (d' + length R) \<le> LIMIT" for d' e'
      using Cons.IH [of "after e'" "e' # T" d'] sr Cons.prems(4,5) that by (simp add: after_def)
    have res: "resolve_z (?o + length R) f p = Some (after (e\<lparr>entry_size := f (entry_size e)\<rparr>))" for f
      using resolve_mid [OF data st] by (simp add: after_def)
    have res': "resolve (?o + length R) x p = Some (after (e\<lparr>entry_size := x\<rparr>))" for x
      using data st list_update_length [of "rev R" e T] by (simp add: resolve_def ring_index_mut_def ring_index_mid [OF data, unfolded length_rev] after_def)
    have sz: "isize (entry_size e + ?rt) = Some (entry_size e + ?rt)" if "entry_token e \<noteq> End"
      using that False Cons.prems(3,5) by (intro isize_eq) (auto simp: settleable_def LIMIT_def)
    have dep: "usize (Suc d) = Some (Suc d)" "usize (Suc 0) = Some (Suc 0)"
      using Cons.prems(6) by (auto intro!: usize_eq simp: LIMIT_def)
    show ?thesis
      by (subst check_stack.simps, subst check_stack_z.simps)
        (use Cons.prems(6) sz dep in \<open>simp add: st ring_index_mid [OF data, unfolded length_rev] res res' rest Let_def split: Token.split\<close>)
  qed
qed

lemma text_sized_settle: "list_all text_sized R \<Longrightarrow> list_all text_sized (settle rt d R)"
  by (induction rt d R rule: settle.induct) (auto simp: text_sized_def split: Token.splits)

text \<open>In the loop of \<open>check_stream\<close>, the scan stack has exactly the entries without a size.\<close>

definition tidy :: "int \<Rightarrow> Printer \<Rightarrow> bool" where
  "tidy K p \<longleftrightarrow> within K p \<and> scan_stack p = unsettled (ring_offset (buf p)) (ring_data (buf p))"

lemma advance_left_tidy:
  assumes "tidy K p" "K \<le> LIMIT" "advance_left_z p = Some q"
  shows "tidy K q"
proof (rule advance_left_z_invariant [of "tidy K", OF assms(1,3)])
  fix p e b r assume p: "tidy K p" "ring_pop_first (buf p) = Some (e, b)" "0 \<le> entry_size e" "print_left_z e (p\<lparr>buf := b\<rparr>) = Some r"
  have "within K (r\<lparr>last_printed := Some (entry_token e)\<rparr>)" using pop_machine(3) [OF _ assms(2) p(2,4)] p(1) by (simp add: tidy_def)
  moreover have "scan_stack r = scan_stack p" "buf r = b" using print_left_scan [OF p(4)] by simp_all
  moreover obtain es where "ring_data (buf p) = e # es" "b = \<lparr>ring_data = es, ring_offset = Suc (ring_offset (buf p))\<rparr>"
    using p(2) by (auto simp: ring_pop_first_def split: list.splits)
  ultimately show "tidy K (r\<lparr>last_printed := Some (entry_token e)\<rparr>)"
    using p(1,3) by (simp add: tidy_def)
qed

lemma front_tidy:
  assumes "tidy K p" "scan_stack p = ring_start (buf p) # rest" "ring_first_mut (\<lambda>e. e\<lparr>entry_size := SIZE_INFINITY\<rparr>) (buf p) = Some b"
  shows "tidy K (p\<lparr>scan_stack := rest, buf := b\<rparr>)"
proof -
  obtain e es where D: "ring_data (buf p) = e # es" "b = (buf p)\<lparr>ring_data := e\<lparr>entry_size := SIZE_INFINITY\<rparr> # es\<rparr>"
    using assms(3) by (auto simp: ring_first_mut_def split: list.splits)
  have st: "scan_stack p = unsettled (ring_offset (buf p)) (e # es)" "within K p" using assms(1) D by (simp_all add: tidy_def)
  have neg: "entry_size e < 0"
  proof (rule ccontr)
    assume "\<not> entry_size e < 0"
    then have "ring_offset (buf p) \<in> set (unsettled (Suc (ring_offset (buf p))) es)" using st(1) assms(2)
      by (metis list.set_intros(1) ring_start_def unsettled.simps(2))
    then show False using unsettled_ge by fastforce
  qed
  then have "text_sized (e\<lparr>entry_size := SIZE_INFINITY\<rparr>)" using st(2) D(1) by (auto simp: within_def text_sized_def Let_def split: Token.splits)
  then have "within K (p\<lparr>scan_stack := rest, buf := b\<rparr>)" using st(2) D by (simp add: within_def Let_def)
  moreover have "rest = unsettled (Suc (ring_offset (buf p))) es" using st(1) assms(2) neg by simp
  ultimately show ?thesis using D by (simp add: tidy_def SIZE_INFINITY_def)
qed

lemma check_stream_machine:
  assumes "check_stream_z p = Some q" "tidy K p" "K \<le> LIMIT"
  shows "check_stream p = Some q \<and> tidy K q"
proof -
  have "tidy K p \<longrightarrow> check_stream p = Some q \<and> tidy K q"
  proof (rule check_stream_z.raw_induct [OF _ assms(1)], intro impI)
    fix rec :: "Printer \<Rightarrow> Printer option" and p q
    assume IH: "\<And>p q. rec p = Some q \<Longrightarrow> tidy K p \<longrightarrow> check_stream p = Some q \<and> tidy K q" and p: "tidy K p"
      and run: "(if right_total p - left_total p > space p then
        (case scan_stack p of
           [] \<Rightarrow> None
         | front # rest \<Rightarrow>
             Option.bind
               (if front = ring_start (buf p)
                then map_option (\<lambda>b. p\<lparr>scan_stack := rest, buf := b\<rparr>)
                       (ring_first_mut (\<lambda>e. e\<lparr>entry_size := SIZE_INFINITY\<rparr>) (buf p))
                else Some p)
               (\<lambda>q. Option.bind (advance_left_z q) (\<lambda>r. if ring_is_empty (buf r) then Some r else rec r)))
        else Some p) = Some q"
    have "0 \<le> right_total p" "right_total p \<le> K" "0 \<le> left_total p" "left_total p \<le> K"
      using p weights_nonneg [of "tokens (ring_data (buf p))"] unfolding tidy_def within_def Let_def by linarith+
    then have sz: "isize (right_total p - left_total p) = Some (right_total p - left_total p)"
      using assms(3) by (intro isize_eq) (auto simp: LIMIT_def)
    show "check_stream p = Some q \<and> tidy K q"
    proof (cases "right_total p - left_total p > space p")
      case False
      then show ?thesis using run p sz by (subst check_stream.simps) simp
    next
      case True
      then obtain front rest where fr: "scan_stack p = front # rest" using run by (auto split: list.splits)
      define m where "m = (if front = ring_start (buf p) then map_option (\<lambda>b. p\<lparr>scan_stack := rest, buf := b\<rparr>)
        (ring_first_mut (\<lambda>e. e\<lparr>entry_size := SIZE_INFINITY\<rparr>) (buf p)) else Some p)"
      obtain u r where u: "m = Some u" "advance_left_z u = Some r" "(if ring_is_empty (buf r) then Some r else rec r) = Some q"
        using run True fr by (auto simp: m_def bind_eq_Some_conv)
      have tu: "tidy K u" using u(1) p fr front_tidy [OF p] by (auto simp: m_def split: if_splits)
      have tr: "tidy K r" by (rule advance_left_tidy [OF tu assms(3) u(2)])
      have adv: "advance_left u = Some r" using advance_left_machine [of K u] tu assms(3) u(2) by (simp add: tidy_def)
      have "check_stream p = (if ring_is_empty (buf r) then Some r else check_stream r)"
        using True sz fr u(1) adv unfolding m_def by (subst check_stream.simps) simp
      then show ?thesis using u(3) tr IH [of r q] by (auto split: if_splits)
    qed
  qed
  then show ?thesis using assms(2) by blast
qed

end
