(* ===== verification/Fmt_Run.thy ===== *)
theory Fmt_Run
  imports Fmt_Machine
begin

text \<open>
  The operations of the pretty printer on machine integers, one token after the other: each does what its
  counterpart on unbounded integers does. The two properties of the printer follow: it does not panic,
  and what it returns is a layout of its tokens.
\<close>

section \<open>The operations\<close>

lemma within_mono:
  assumes "within K p" "K \<le> K'"
  shows "within K' p"
  using assms roomy_mono [of "K - costs (tokens (ring_data (buf p)))" p "K' - costs (tokens (ring_data (buf p)))"]
  by (auto simp: within_def Let_def)

lemma within_reset:
  assumes "within K p"
  shows "within K (reset_totals p)"
proof -
  have "roomy K p" using assms roomy_mono [of "K - costs (tokens (ring_data (buf p)))" p K] costs_nonneg [of "tokens (ring_data (buf p))"] by (simp add: within_def Let_def)
  then show ?thesis using assms by (auto simp: within_def Let_def reset_totals_def ring_clear_def)
qed

lemma push_machine:
  assumes "within K p" "K \<le> LIMIT"
  shows "push_entry t z p = Some (push_entry_z t z p)" "push_scanned t z p = Some (push_scanned_z t z p)"
proof -
  have "usize (ring_offset (buf p) + length (ring_data (buf p))) = Some (ring_offset (buf p) + length (ring_data (buf p)))"
    using assms by (intro usize_eq) (simp add: within_def Let_def LIMIT_def)
  then show "push_entry t z p = Some (push_entry_z t z p)" "push_scanned t z p = Some (push_scanned_z t z p)"
    by (simp_all add: push_entry_def push_entry_z_def push_scanned_def push_scanned_z_def ring_push_def)
qed

lemma push_within:
  assumes "within K p" "\<And>s. t = Text s \<Longrightarrow> z = int (length s)" "buf q = (buf p)\<lparr>ring_data := ring_data (buf p) @ [\<lparr>entry_token = t, entry_size = z\<rparr>]\<rparr>"
    "left_total q = left_total p" "right_total q = right_total p + weight t" "\<And>k. roomy k q = roomy k p"
  shows "within (K + cost t) q"
proof -
  have "text_sized \<lparr>entry_token = t, entry_size = z\<rparr>" using assms(2) by (simp add: text_sized_def split: Token.split)
  then show ?thesis using assms(1,3-6) weight_cost [of t] weight_nonneg [of t] cost_pos [of t] by (simp add: within_def Let_def)
qed

lemma push_scanned_within:
  assumes "within K p" "\<And>s. t \<noteq> Text s"
  shows "within (K + cost t) ((push_scanned_z t z p)\<lparr>right_total := right_total p + weight t\<rparr>)"
  by (rule push_within [OF assms(1)]) (use assms(2) in \<open>simp_all add: push_scanned_z_def push_entry_z_def ring_push_def\<close>)

lemma push_marker_within:
  assumes "within K p" "t = End \<or> (\<exists>b. t = Begin b)"
  shows "within (K + cost t) (push_scanned_z t z p)"
proof -
  have "weight t = 0" "\<And>s. t \<noteq> Text s" using assms(2) by auto
  then show ?thesis using push_scanned_within [OF assms(1), of t z] push_right_total [where t = t and z = z and p = p] by simp
qed

lemma scan_begin_machine:
  assumes "within K p" "K \<le> LIMIT" "scan_begin_z t p = Some q"
  shows "scan_begin t p = Some q" "within (K + cost (Begin t)) q"
proof -
  define r where "r = (if scan_stack p = [] then reset_totals p else p)"
  have r: "within K r" using assms(1) within_reset by (simp add: r_def)
  then have "isize (- right_total r) = Some (- right_total r)" using assms(2) by (intro isize_eq) (simp add: within_def Let_def LIMIT_def)
  moreover have q: "q = push_scanned_z (Begin t) (- right_total r) r" using assms(3) by (simp add: scan_begin_z_def r_def Let_def)
  ultimately show "scan_begin t p = Some q"
    using push_machine(2) [OF r assms(2)] by (simp add: scan_begin_def r_def [symmetric] Let_def)
  show "within (K + cost (Begin t)) q" unfolding q by (rule push_marker_within [OF r]) simp
qed

lemma settle_machine:
  assumes "within K p" "K \<le> LIMIT" "buffer_ok p D" "D \<noteq> []" "check_stack_z 0 p = Some q"
  shows "check_stack 0 p = Some q" "within K q" "right_total q = right_total p"
proof -
  note settled = settled_buffer [OF assms(3,4) refl]
  have b: "ring_data (buf p) = rev (rev D) @ []" "scan_stack p = unsettled (ring_offset (buf p)) (rev (rev D))"
    using assms(3) by (simp_all add: buffer_ok_def)
  have w: "0 \<le> right_total p" "right_total p \<le> LIMIT" "int (0 + length (rev D)) \<le> LIMIT"
    using assms(1,2) b(1) by (simp_all add: within_def Let_def)
  show "check_stack 0 p = Some q" using check_stack_machine [OF b settled(5) w] assms(5) by simp
  have q: "q = p\<lparr>buf := (buf p)\<lparr>ring_data := rev (settle (right_total p) 0 (rev D))\<rparr>,
      scan_stack := unsettled (ring_offset (buf p)) (rev (settle (right_total p) 0 (rev D)))\<rparr>"
    using settled(1) assms(5) by simp
  then show "right_total q = right_total p" by simp
  have "list_all text_sized (rev (settle (right_total p) 0 (rev D)))"
    using text_sized_settle [of "rev D"] assms(1) b(1) by (simp add: within_def Let_def list_all_rev)
  then show "within K q" using assms(1) b(1) settled(6) unfolding q by (simp add: within_def Let_def del: map_map)
qed

lemma scan_break_machine:
  assumes "within K p" "K + cost (Break t) \<le> LIMIT" "buffer_ok p D" "scan_break_z t p = Some q"
  shows "scan_break t p = Some q" "within (K + cost (Break t)) q"
proof -
  have K: "K \<le> LIMIT" "1 \<le> K" using assms(1,2) cost_pos [of "Break t"] by (simp_all add: within_def Let_def)
  have bl: "K + int (blank_space t) \<le> LIMIT" using assms(2) by (simp split: option.splits)
  obtain r where r: "(if scan_stack p = [] then Some (reset_totals p) else check_stack_z 0 p) = Some r"
    and q: "q = (push_scanned_z (Break t) (- right_total r) r)\<lparr>right_total := right_total r + weight (Break t)\<rparr>"
    using assms(4) by (auto simp: scan_break_z_def bind_eq_Some_conv Let_def push_scanned_z_def push_entry_z_def ring_push_def)
  have m: "(if scan_stack p = [] then Some (reset_totals p) else check_stack 0 p) = Some r" and wr: "within K r"
    using r within_reset [OF assms(1)] settle_machine [OF assms(1) K(1) assms(3)] buffer_empty_iff [OF assms(3)]
    by (auto split: if_splits)
  have rt: "0 \<le> right_total r" "right_total r \<le> K" using wr by (simp_all add: within_def Let_def)
  have "isize (- right_total r) = Some (- right_total r)" "isize (right_total r + int (blank_space t)) = Some (right_total r + int (blank_space t))"
    "as_isize (blank_space t) = int (blank_space t)"
    using rt K bl by (auto intro!: isize_eq as_isize_eq simp: LIMIT_def)
  then show "scan_break t p = Some q"
    using m push_machine(2) [OF wr K(1)] q by (simp add: scan_break_def push_scanned_z_def push_entry_z_def ring_push_def)
  show "within (K + cost (Break t)) q" unfolding q by (rule push_scanned_within [OF wr]) simp
qed

lemma scan_string_machine:
  assumes "within K p" "K + cost (Text s) \<le> LIMIT" "buffer_ok p D" "scan_string_z s p = Some q"
  shows "scan_string s p = Some q" "within (K + cost (Text s)) q"
proof -
  have K: "K \<le> LIMIT" "1 \<le> K" "K + int (length s) \<le> LIMIT" using assms(1,2) by (simp_all add: within_def Let_def)
  have conv: "as_isize (length s) = int (length s)" using K by (intro as_isize_eq) simp
  have "scan_string s p = Some q \<and> within (K + cost (Text s)) q"
  proof (cases "scan_stack p = []")
    case True
    then have D: "ring_data (buf p) = []" using buffer_empty_iff [OF assms(3)] assms(3) by (simp add: buffer_ok_def)
    then have k: "roomy K p" using assms(1) by (simp add: within_def Let_def)
    have z: "print_string_z s p = Some q" using assms(4) True by (simp add: scan_string_z_def)
    have "roomy (K + cost (Text s)) q" by (rule roomy_mono [OF print_string_machine(2) [OF k K(3) z]]) simp
    then have "within (K + cost (Text s)) q"
      using assms(1) D print_string_scan [OF z] by (auto simp: within_def Let_def)
    then show ?thesis using print_string_machine(1) [OF k K(3)] z True by (simp add: scan_string_def)
  next
    case False
    define r where "r = (snd (push_entry_z (Text s) (int (length s)) p))\<lparr>right_total := right_total p + int (length s)\<rparr>"
    have z: "check_stream_z r = Some q" using assms(4) False by (simp add: scan_string_z_def r_def Let_def push_entry_z_def ring_push_def)
    have w: "within (K + cost (Text s)) r"
      by (rule push_within [OF assms(1)]) (simp_all add: r_def push_entry_z_def ring_push_def)
    then have "tidy (K + cost (Text s)) r"
      using assms(3) by (simp add: tidy_def r_def push_entry_z_def ring_push_def buffer_ok_def unsettled_append)
    from check_stream_machine [OF z this assms(2)] have m: "check_stream r = Some q" "within (K + cost (Text s)) q" by (simp_all add: tidy_def)
    have "isize (right_total p + int (length s)) = Some (right_total p + int (length s))"
      using assms(1) K by (intro isize_eq) (simp add: within_def Let_def LIMIT_def)
    then have "scan_string s p = check_stream r"
      using False push_machine(1) [OF assms(1) K(1)] conv by (simp add: scan_string_def r_def push_entry_z_def ring_push_def Let_def)
    then show ?thesis using m by simp
  qed
  then show "scan_string s p = Some q" "within (K + cost (Text s)) q" by blast+
qed

text \<open>Entries taken back from the end of the buffer.\<close>

lemma within_take_back:
  assumes "within K p" "ring_data (buf p) = D @ X" "0 \<le> rt" "rt \<le> right_total p"
  shows "within K (p\<lparr>buf := (buf p)\<lparr>ring_data := D\<rparr>, scan_stack := st, right_total := rt\<rparr>)"
proof -
  have "roomy (K - costs (tokens D)) p"
    using roomy_mono [of "K - costs (tokens (D @ X))" p "K - costs (tokens D)"] assms(1,2) costs_nonneg [of "tokens X"]
    by (simp add: within_def Let_def)
  then show ?thesis using assms weights_nonneg [of "tokens X"] by (simp add: within_def Let_def)
qed

lemma scan_end_machine:
  assumes "within K p" "K + cost End \<le> LIMIT" "buffer_ok p D" "scan_end_z p = Some q"
  shows "scan_end p = Some q \<and> within (K + cost End) q"
proof -
  have K: "K \<le> LIMIT" using assms(2) by simp
  note push = push_machine(2) [OF assms(1) K] push_marker_within [OF assms(1), of End "-1"]
  have data: "ring_data (buf p) = D" using assms(3) by (simp add: buffer_ok_def)
  show ?thesis
  proof (cases "scan_stack p = []")
    case True
    then have z: "print_end p = Some q" using assms(4) by (simp add: scan_end_z_def)
    have "D = []" using True buffer_empty_iff [OF assms(3)] by simp
    then have "within K q" using assms(1) data z print_end_roomy [OF z]
      by (auto simp: within_def Let_def print_end_def split: list.splits PrintFrame.splits)
    then show ?thesis using True z within_mono [of K q "K + cost End"] by (simp add: scan_end_def)
  next
    case False
    then obtain D1 e where D: "D = D1 @ [e]" using buffer_empty_iff [OF assms(3)] by (cases D rule: rev_cases) auto
    show ?thesis
    proof (cases "entry_token e")
      case (Break t)
      let ?rt = "right_total p - int (blank_space t)"
      have "right_total p = left_total p + weights (tokens D1) + int (blank_space t)" "1 \<le> left_total p"
        using assms(3) D Break by (simp_all add: buffer_ok_def)
      then have rt: "0 \<le> ?rt" "?rt \<le> right_total p" "int (blank_space t) \<le> right_total p" "right_total p \<le> K"
        using weights_nonneg [of "tokens D1"] assms(1) by (simp_all add: within_def Let_def)
      have conv: "as_isize (blank_space t) = int (blank_space t)" "isize ?rt = Some ?rt"
        using rt K by (auto intro!: as_isize_eq isize_eq simp: LIMIT_def)
      have taken: "within K (p\<lparr>buf := (buf p)\<lparr>ring_data := D2\<rparr>, scan_stack := st, right_total := ?rt\<rparr>)" if "D = D2 @ X" for D2 X st
        using within_take_back [OF assms(1) _ rt(1,2)] data that by simp
      define r where "r = p\<lparr>buf := (buf p)\<lparr>ring_data := D1\<rparr>, scan_stack := butlast (scan_stack p), right_total := ?rt\<rparr>"
      have wr: "within K r" using taken [of D1 "[e]"] D by (simp add: r_def)
      have last: "ring_last (buf p) = Some e" "ring_pop_last (buf p) = Some ((buf p)\<lparr>ring_data := D1\<rparr>)"
        using D data by (simp_all add: ring_last_def ring_pop_last_def)
      show ?thesis
      proof (cases "\<exists>D2 b x. D1 = D2 @ [b] \<and> entry_token b = Begin x")
        case True
        then obtain D2 b x where D2: "D1 = D2 @ [b]" "entry_token b = Begin x" by blast
        define u where "u = p\<lparr>buf := (buf p)\<lparr>ring_data := D2\<rparr>, scan_stack := butlast (butlast (scan_stack p)), right_total := ?rt\<rparr>"
        have "within (K + cost End) u" using within_mono [OF taken [of D2 "[b, e]"], of "K + cost End"] D D2(1) by (simp add: u_def)
        moreover have "scan_end_z p = Some u" "scan_end p = Some u"
          using False Break last conv D data D2
          by (simp_all add: scan_end_def scan_end_z_def ring_second_last_def ring_pop_last_def u_def nth_append)
        ultimately show ?thesis using assms(4) by simp
      next
        case no: False
        then have "\<forall>x. map_option entry_token (ring_second_last (buf p)) \<noteq> Some (Begin x)"
          using D data by (cases D1 rule: rev_cases) (auto simp: ring_second_last_def nth_append)
        then have "scan_end_z p = Some (push_scanned_z End (-1) (if if_nonempty t then r else p))"
          "scan_end p = push_scanned End (-1) (if if_nonempty t then r else p)"
          using False Break last conv
          by (auto simp: scan_end_def scan_end_z_def r_def split: option.split Token.split)
        then show ?thesis using assms(4) push push_machine(2) [OF wr K] push_marker_within [OF wr, of End "-1"] by (auto split: if_splits)
      qed
    qed (use assms(4) False D data push in \<open>simp_all add: scan_end_def scan_end_z_def ring_last_def\<close>)
  qed
qed

lemma scan_token_machine:
  assumes "within K p" "K + cost t \<le> LIMIT" "buffer_ok p D" "scan_token_z t p = Some q"
  shows "scan_token t p = Some q \<and> within (K + cost t) q"
proof (cases t)
  case (Text s)
  then show ?thesis using assms scan_string_machine [of K p s D q] by (simp add: scan_token_def scan_token_z_def)
next
  case (Break b)
  then show ?thesis using assms scan_break_machine [of K p b D q] by (simp add: scan_token_def scan_token_z_def)
next
  case (Begin b)
  have "K \<le> LIMIT" using assms(2) cost_pos [of t] by linarith
  then show ?thesis using Begin assms scan_begin_machine [of K p b q] by (simp add: scan_token_def scan_token_z_def)
next
  case End
  then show ?thesis using assms scan_end_machine [of K p D q] by (simp add: scan_token_def scan_token_z_def)
qed

lemma scan_tokens_machine:
  assumes "printer_ok p N S" "walk S ts = Some S'" "within K p" "K + costs ts \<le> LIMIT" "scan_tokens_z ts p = Some q"
  shows "scan_tokens ts p = Some q \<and> within (K + costs ts) q"
  using assms
proof (induction ts arbitrary: p N S K)
  case (Cons t ts)
  obtain S1 where S1: "walk1 S t = Some S1" "walk S1 ts = Some S'" using Cons.prems(2) by (auto simp: bind_eq_Some_conv)
  obtain r where r: "scan_token_z t p = Some r" "printer_ok r (condense_step N t) S1" using scan_token_ok [OF Cons.prems(1) S1(1)] by blast
  obtain D where D: "buffer_ok p D" using Cons.prems(1) by (auto elim: printer_okE)
  have c: "K + cost t \<le> LIMIT" "(K + cost t) + costs ts \<le> LIMIT" using Cons.prems(4) costs_nonneg [of ts] by simp_all
  have m: "scan_token t p = Some r" "within (K + cost t) r" using scan_token_machine [OF Cons.prems(3) c(1) D r(1)] by simp_all
  have "scan_tokens_z ts r = Some q" using Cons.prems(5) r(1) by simp
  from Cons.IH [OF r(2) S1(2) m(2) c(2) this] m(1) show ?case by (simp add: add.assoc)
qed simp

lemma scan_eof_machine:
  assumes "within K p" "K \<le> LIMIT" "buffer_ok p D" "scan_eof_z p = Some q"
  shows "scan_eof p = Some q"
proof (cases "scan_stack p = []")
  case False
  then obtain r where r: "check_stack_z 0 p = Some r" "advance_left_z r = Some q"
    using assms(4) by (auto simp: scan_eof_z_def bind_eq_Some_conv)
  have "D \<noteq> []" using False buffer_empty_iff [OF assms(3)] by simp
  note m = settle_machine [OF assms(1-3) this r(1)]
  show ?thesis using False m(1) advance_left_machine [OF m(2) assms(2)] r(2) by (simp add: scan_eof_def)
qed (use assms(4) in \<open>simp add: scan_eof_def scan_eof_z_def\<close>)

lemma printer_new_within: "within 1 (printer_new m tabs)"
  by (simp add: within_def roomy_def printer_new_def ring_new_def clamp_def MIN_SPACE_def SIZE_INFINITY_def Let_def)

text \<open>Both halves together: the run on machine integers is the one on unbounded integers.\<close>

lemma printer_runs:
  assumes "tabs \<noteq> Some 0" "walk [] ts = Some S" "costs ts < 2 ^ 62"
  obtains p where "scan_tokens ts (printer_new m tabs) = Some p"
    "S = [] \<Longrightarrow> \<exists>q. scan_eof p = Some q \<and> drawn tabs (line_width m) (condense ts) [] (sheet_of q)"
proof -
  obtain p where p: "scan_tokens_z ts (printer_new m tabs) = Some p" "printer_ok p (condense ts) S"
    "S = [] \<longrightarrow> (\<exists>q. scan_eof_z p = Some q \<and> drawn tabs (line_width m) (condense ts) [] (sheet_of q))"
    using printer_z_draws [OF assms(1,2)] by blast
  have c: "1 + costs ts \<le> LIMIT" using assms(3) by (simp add: LIMIT_def)
  have m: "scan_tokens ts (printer_new m tabs) = Some p" "within (1 + costs ts) p"
    using scan_tokens_machine [OF printer_new_ok [OF assms(1)] assms(2) printer_new_within c p(1)] by simp_all
  obtain D where "buffer_ok p D" using p(2) by (auto elim: printer_okE)
  note e = scan_eof_machine [OF m(2) c this]
  show thesis by (rule that [OF m(1)]) (use p(3) e in blast)
qed

section \<open>Properties of the pretty printer\<close>

text \<open>
  C9: the pretty printer does not panic and its loops end. For every margin, every tab width other than
  zero and every sequence of tokens in which no block is ended that was not begun, no indentation
  can become negative and the costs add up to less than \<open>2 ^ 62\<close>, all tokens are scanned: no arithmetic
  overflows, no index is out of range, no stack is empty where an element is taken. If all blocks
  are ended, the output is returned.
\<close>

theorem printer_never_panics:
  assumes "tabs \<noteq> Some 0" "walk [] ts = Some S" "costs ts < 2 ^ 62"
  shows "\<exists>p. scan_tokens ts (printer_new m tabs) = Some p \<and> (S = [] \<longrightarrow> (\<exists>s. eof p = Some s))"
proof -
  obtain p where "scan_tokens ts (printer_new m tabs) = Some p"
    "S = [] \<Longrightarrow> \<exists>q. scan_eof p = Some q \<and> drawn tabs (line_width m) (condense ts) [] (sheet_of q)"
    by (rule printer_runs [OF assms, of m]) blast
  then show ?thesis by (auto simp: eof_def)
qed

theorem printer_never_panics_witness:
  "\<exists>p s. scan_tokens [Begin \<lparr>indent_style = Block 4, begin_breaks = Inconsistent\<rparr>, Text ''a'',
      Break \<lparr>break_offset = -4, blank_space = 1, pre_break = None, post_break = None, if_nonempty = False, never_break = False\<rparr>,
      Text ''b'', End] (printer_new 80 (Some 4)) = Some p \<and> eof p = Some s"
  using printer_never_panics [of "Some 4" "[Begin \<lparr>indent_style = Block 4, begin_breaks = Inconsistent\<rparr>, Text ''a'',
      Break \<lparr>break_offset = -4, blank_space = 1, pre_break = None, post_break = None, if_nonempty = False, never_break = False\<rparr>,
      Text ''b'', End]" "[]" 80]
  by (auto simp: low_def low_broken_def simp del: scan_tokens.simps)

text \<open>
  C8: the output of the pretty printer is a layout of its tokens. For a sequence of tokens as above with all
  blocks ended, the output is, character by character, a layout of the condensed sequence on lines of the
  margin's width: a block is printed flat only where it fits on the line, in a flat block no break ends the
  line, in a broken consistent block every break does, and a hard break, such as the one after a
  line comment, always ends the line. Condensing takes out a block that has nothing but a break and a
  break at the end of a block that is meant for non-empty blocks; it keeps all text.
\<close>

theorem printer_prints_tokens:
  assumes "tabs \<noteq> Some 0" "walk [] ts = Some []" "costs ts < 2 ^ 62"
  shows "\<exists>S. Option.bind (scan_tokens ts (printer_new m tabs)) eof = Some (sheet_text S) \<and>
    drawn tabs (line_width m) (condense ts) [] S \<and> texts (condense ts) = texts ts"
proof -
  obtain p where p: "scan_tokens ts (printer_new m tabs) = Some p"
    "\<exists>q. scan_eof p = Some q \<and> drawn tabs (line_width m) (condense ts) [] (sheet_of q)"
    by (rule printer_runs [OF assms]) blast
  then obtain q where "scan_eof p = Some q" "drawn tabs (line_width m) (condense ts) [] (sheet_of q)" by blast
  with p(1) show ?thesis by (intro exI [of _ "sheet_of q"]) (simp add: eof_def texts_condense)
qed

text \<open>A line comment in a block of indentation four, which breaks although the line is wide enough.\<close>

definition comment_tokens :: "Token list" where
  "comment_tokens = [Begin \<lparr>indent_style = Block 4, begin_breaks = Inconsistent\<rparr>, Text ''// a'',
     Break \<lparr>break_offset = 0, blank_space = 65535, pre_break = None, post_break = None, if_nonempty = False, never_break = False\<rparr>,
     Text ''b'', End]"

lemmas run_defs = printer_new_def clamp_def as_isize_def as_usize_def isize_def usize_def MIN_SPACE_def SIZE_INFINITY_def
  scan_token_def scan_begin_def scan_string_def scan_break_def
  scan_end_def eof_def scan_eof_def push_scanned_def push_entry_def reset_totals_def resolve_def print_left_def print_defs
  break_fits_def get_top_def ring_defs check_stack.simps advance_left.simps check_stream.simps

lemma comment_printed: "Option.bind (scan_tokens comment_tokens (printer_new 80 None)) eof = Some (''// a'' @ [newline] @ ''    b'')"
  by (simp add: comment_tokens_def run_defs) (simp add: numeral_eq_Suc)

theorem printer_prints_tokens_witness:
  "\<exists>S. drawn None 80 comment_tokens [] S \<and> sheet_text S = ''// a'' @ [newline] @ ''    b''"
proof -
  have c: "condense comment_tokens = comment_tokens" by (simp add: comment_tokens_def condense_def condense_step_def condense_end_def)
  have w: "None \<noteq> Some (0 :: nat)" "walk [] comment_tokens = Some []" "costs comment_tokens < 2 ^ 62"
    by (simp_all add: comment_tokens_def low_def low_broken_def)
  have l: "line_width 80 = 80" by (simp add: line_width_def clamp_def as_isize_def MIN_SPACE_def SIZE_INFINITY_def)
  from printer_prints_tokens [OF w, of 80] show ?thesis unfolding comment_printed c l by auto
qed

end
