(* ===== verification/Fmt_Client.thy ===== *)
theory Fmt_Client
  imports Fmt_Run
begin

text \<open>
  What the formatter calls on the pretty printer besides scanning tokens: the queries about pending tokens,
  the operations that change a buffered token, and the short forms of convenience.rs and helpers.rs
  (crates/fmt/src/pp). Adjusting the offset of the last break keeps the invariant of the printer; turning a
  buffered break into a hard break does not force the line to end.
\<close>

section \<open>Text\<close>

text \<open>\<open>char::is_whitespace\<close> on the bytes of a text: \<open>str::trim\<close> leaves nothing.\<close>

definition ascii_blank :: "char \<Rightarrow> bool" where
  "ascii_blank c \<longleftrightarrow> c = blank \<or> (0x09 \<le> (of_char c :: nat) \<and> (of_char c :: nat) \<le> 0x0D)"

definition two_byte_blank :: "char \<Rightarrow> char \<Rightarrow> bool" where
  "two_byte_blank c d \<longleftrightarrow> c = CHR 0xC2 \<and> (d = CHR 0x85 \<or> d = CHR 0xA0)"

definition three_byte_blank :: "char \<Rightarrow> char \<Rightarrow> char \<Rightarrow> bool" where
  "three_byte_blank c d e \<longleftrightarrow>
     (c = CHR 0xE1 \<and> d = CHR 0x9A \<and> e = CHR 0x80) \<or>
     (c = CHR 0xE2 \<and> d = CHR 0x80 \<and>
        ((0x80 \<le> (of_char e :: nat) \<and> (of_char e :: nat) \<le> 0x8A) \<or> e = CHR 0xA8 \<or> e = CHR 0xA9 \<or> e = CHR 0xAF)) \<or>
     (c = CHR 0xE2 \<and> d = CHR 0x81 \<and> e = CHR 0x9F) \<or>
     (c = CHR 0xE3 \<and> d = CHR 0x80 \<and> e = CHR 0x80)"

fun trims_to_nothing :: "string \<Rightarrow> bool" where
  "trims_to_nothing [] \<longleftrightarrow> True"
| "trims_to_nothing [c] \<longleftrightarrow> ascii_blank c"
| "trims_to_nothing [c, d] \<longleftrightarrow> ascii_blank c \<and> ascii_blank d \<or> two_byte_blank c d"
| "trims_to_nothing (c # d # e # s) \<longleftrightarrow>
     ascii_blank c \<and> trims_to_nothing (d # e # s) \<or> two_byte_blank c d \<and> trims_to_nothing (e # s) \<or>
     three_byte_blank c d e \<and> trims_to_nothing s"

text \<open>The part after the last line end.\<close>

definition last_line :: "string \<Rightarrow> string" where
  "last_line s = rev (takeWhile (\<lambda>c. c \<noteq> newline) (rev s))"

section \<open>Queries\<close>

definition is_neverbreak :: "Token \<Rightarrow> bool" where
  "is_neverbreak t \<longleftrightarrow> (case t of Break b \<Rightarrow> never_break b | _ \<Rightarrow> False)"

definition is_hardbreak :: "Token \<Rightarrow> bool" where
  "is_hardbreak t \<longleftrightarrow> (case t of Break b \<Rightarrow> blank_space b = as_usize SIZE_INFINITY \<and> \<not> never_break b | _ \<Rightarrow> False)"

definition is_space :: "Token \<Rightarrow> bool" where
  "is_space t \<longleftrightarrow>
     (case t of
        Break b \<Rightarrow> break_offset b = 0 \<and> blank_space b = 1
      | Text s \<Rightarrow> ends_with_char s blank
      | _ \<Rightarrow> False)"

text \<open>The loop of \<open>space_left\<close> over the buffer, the last entry first.\<close>

fun hard_break_pending :: "BufEntry list \<Rightarrow> bool" where
  "hard_break_pending [] \<longleftrightarrow> False"
| "hard_break_pending (e # es) \<longleftrightarrow>
     (case entry_token e of
        Break b \<Rightarrow> as_isize (blank_space b) \<ge> SIZE_INFINITY \<and> \<not> never_break b
      | End \<Rightarrow> hard_break_pending es
      | _ \<Rightarrow> False)"

definition space_left :: "Printer \<Rightarrow> nat" where
  "space_left p =
     as_usize (if hard_break_pending (rev (ring_data (buf p))) then margin p
               else if space p < 0 then margin p else space p)"

definition last_token_still_buffered :: "Printer \<Rightarrow> Token option" where
  "last_token_still_buffered p = map_option entry_token (ring_last (buf p))"

definition last_token :: "Printer \<Rightarrow> Token option" where
  "last_token p = (case last_token_still_buffered p of Some t \<Rightarrow> Some t | None \<Rightarrow> last_printed p)"

text \<open>\<open>ends_with\<close> looks at the last text, in the buffer or in the output.\<close>

fun buffered_text :: "BufEntry list \<Rightarrow> string option" where
  "buffered_text [] = None"
| "buffered_text (e # es) = (case entry_token e of Text s \<Rightarrow> Some s | _ \<Rightarrow> buffered_text es)"

definition ends_with :: "Printer \<Rightarrow> char \<Rightarrow> bool" where
  "ends_with p c =
     (case buffered_text (rev (ring_data (buf p))) of
        Some s \<Rightarrow> ends_with_char s c
      | None \<Rightarrow> ends_with_char (out p) c)"

definition last_token_is_neverbreak :: "Printer \<Rightarrow> bool" where
  "last_token_is_neverbreak p = (case last_token p of Some t \<Rightarrow> is_neverbreak t | None \<Rightarrow> False)"

definition last_token_is_break :: "Printer \<Rightarrow> bool" where
  "last_token_is_break p = (case last_token p of Some (Break b) \<Rightarrow> True | _ \<Rightarrow> False)"

definition last_token_is_space :: "Printer \<Rightarrow> bool" where
  "last_token_is_space p \<longleftrightarrow>
     (case last_token p of Some t \<Rightarrow> is_space t | None \<Rightarrow> False) \<or> ends_with_char (out p) blank"

definition is_beginning_of_line :: "Printer \<Rightarrow> bool" where
  "is_beginning_of_line p =
     (case last_token p of
        Some (Text s) \<Rightarrow> ends_with_char s newline
      | Some t \<Rightarrow> is_hardbreak t
      | None \<Rightarrow> out p = [] \<or> ends_with_char (out p) newline)"

definition token_has_non_whitespace_content :: "Token \<Rightarrow> bool" where
  "token_has_non_whitespace_content t \<longleftrightarrow>
     (case t of
        Text s \<Rightarrow> \<not> trims_to_nothing s
      | Break b \<Rightarrow> (case pre_break b of Some s \<Rightarrow> \<not> trims_to_nothing s | None \<Rightarrow> False)
      | _ \<Rightarrow> False)"

text \<open>The loop of \<open>is_bol_or_only_ind\<close>; \<open>None\<close> when the buffer does not decide.\<close>

fun buffered_bol :: "BufEntry list \<Rightarrow> bool option" where
  "buffered_bol [] = None"
| "buffered_bol (e # es) =
     (if is_hardbreak (entry_token e) then Some True
      else
        (case entry_token e of
           Text s \<Rightarrow>
             if newline \<in> set s then Some (trims_to_nothing (last_line s))
             else if token_has_non_whitespace_content (Text s) then Some False
             else buffered_bol es
         | t \<Rightarrow> if token_has_non_whitespace_content t then Some False else buffered_bol es))"

definition is_bol_or_only_ind :: "Printer \<Rightarrow> bool" where
  "is_bol_or_only_ind p =
     (case buffered_bol (rev (ring_data (buf p))) of
        Some b \<Rightarrow> b
      | None \<Rightarrow> trims_to_nothing (last_line (out p)))"

section \<open>Changing a buffered token\<close>

definition replace_last_token_still_buffered :: "Token \<Rightarrow> Printer \<Rightarrow> Printer option" where
  "replace_last_token_still_buffered t p =
     map_option (\<lambda>b. p\<lparr>buf := b\<rparr>) (ring_last_mut (\<lambda>e. e\<lparr>entry_token := t\<rparr>) (buf p))"

text \<open>The loop over the indices, the last one first; it skips ends and looks at one other token.\<close>

fun find_and_replace :: "Token \<Rightarrow> (Token \<Rightarrow> bool) \<Rightarrow> nat list \<Rightarrow> BufEntry RingBuffer \<Rightarrow> BufEntry RingBuffer option" where
  "find_and_replace t predicate [] b = Some b"
| "find_and_replace t predicate (i # is) b =
     (case ring_index b i of
        None \<Rightarrow> None
      | Some e \<Rightarrow>
          if entry_token e = End then find_and_replace t predicate is b
          else if predicate (entry_token e) then ring_index_mut i (\<lambda>e. e\<lparr>entry_token := t\<rparr>) b
          else Some b)"

definition find_and_replace_last_token_still_buffered :: "Token \<Rightarrow> (Token \<Rightarrow> bool) \<Rightarrow> Printer \<Rightarrow> Printer option" where
  "find_and_replace_last_token_still_buffered t predicate p =
     map_option (\<lambda>b. p\<lparr>buf := b\<rparr>) (find_and_replace t predicate (rev (index_range (buf p))) (buf p))"

definition offset :: "int \<Rightarrow> Printer \<Rightarrow> Printer option" where
  "offset d p =
     (case ring_last (buf p) of
        None \<Rightarrow> Some p
      | Some e \<Rightarrow>
          (case entry_token e of
             Break b \<Rightarrow>
               Option.bind (isize (break_offset b + d)) (\<lambda>off. replace_last_token_still_buffered (Break (b\<lparr>break_offset := off\<rparr>)) p)
           | End \<Rightarrow> None
           | _ \<Rightarrow> Some p))"

section \<open>Short forms\<close>

definition default_break :: BreakToken where
  "default_break = \<lparr>break_offset = 0, blank_space = 0, pre_break = None, post_break = None, if_nonempty = False, never_break = False\<rparr>"

definition rbox :: "int \<Rightarrow> Breaks \<Rightarrow> Printer \<Rightarrow> Printer option" where
  "rbox i b = scan_begin \<lparr>indent_style = Block i, begin_breaks = b\<rparr>"

definition ibox :: "int \<Rightarrow> Printer \<Rightarrow> Printer option" where
  "ibox i = rbox i Inconsistent"

definition cbox :: "int \<Rightarrow> Printer \<Rightarrow> Printer option" where
  "cbox i = rbox i Consistent"

definition visual_align :: "Printer \<Rightarrow> Printer option" where
  "visual_align = scan_begin \<lparr>indent_style = Visual, begin_breaks = Consistent\<rparr>"

definition break_offset_op :: "nat \<Rightarrow> int \<Rightarrow> Printer \<Rightarrow> Printer option" where
  "break_offset_op n off = scan_break (default_break\<lparr>break_offset := off, blank_space := n\<rparr>)"

definition end_op :: "Printer \<Rightarrow> Printer option" where
  "end_op = scan_end"

definition word_op :: "string \<Rightarrow> Printer \<Rightarrow> Printer option" where
  "word_op w = scan_string w"

definition spaces :: "nat \<Rightarrow> Printer \<Rightarrow> Printer option" where
  "spaces n = break_offset_op n 0"

definition zerobreak :: "Printer \<Rightarrow> Printer option" where
  "zerobreak = spaces 0"

definition space_op :: "Printer \<Rightarrow> Printer option" where
  "space_op = spaces 1"

definition hardbreak :: "Printer \<Rightarrow> Printer option" where
  "hardbreak = spaces (as_usize SIZE_INFINITY)"

definition hardbreak_tok_offset :: "int \<Rightarrow> Token" where
  "hardbreak_tok_offset off = Break (default_break\<lparr>break_offset := off, blank_space := as_usize SIZE_INFINITY\<rparr>)"

definition hardbreak_if_nonempty :: "Printer \<Rightarrow> Printer option" where
  "hardbreak_if_nonempty = scan_break (default_break\<lparr>blank_space := as_usize SIZE_INFINITY, if_nonempty := True\<rparr>)"

definition neverbreak :: "Printer \<Rightarrow> Printer option" where
  "neverbreak = scan_break (default_break\<lparr>never_break := True\<rparr>)"

definition word_space :: "string \<Rightarrow> Printer \<Rightarrow> Printer option" where
  "word_space w p = Option.bind (word_op w p) space_op"

definition hardbreak_if_not_bol :: "Printer \<Rightarrow> Printer option" where
  "hardbreak_if_not_bol p =
     (if \<not> is_bol_or_only_ind p then
        (case last_token_still_buffered p of
           Some (Break b) \<Rightarrow>
             if break_offset b \<noteq> 0 then replace_last_token_still_buffered (hardbreak_tok_offset (break_offset b)) p
             else hardbreak p
         | _ \<Rightarrow> hardbreak p)
      else Some p)"

definition space_if_not_bol :: "Printer \<Rightarrow> Printer option" where
  "space_if_not_bol p = (if \<not> is_bol_or_only_ind p then space_op p else Some p)"

definition nbsp :: "Printer \<Rightarrow> Printer option" where
  "nbsp = word_op '' ''"

definition space_or_nbsp :: "bool \<Rightarrow> Printer \<Rightarrow> Printer option" where
  "space_or_nbsp breaks p = (if breaks then space_op p else nbsp p)"

definition word_nbsp :: "string \<Rightarrow> Printer \<Rightarrow> Printer option" where
  "word_nbsp w p = Option.bind (word_op w p) nbsp"

section \<open>The offset of the last break\<close>

lemma offset_keeps_printer:
  assumes "buffer_ok p (D @ [e])" "print_ok p P S0 (tokens (D @ [e]))" "walk S0 (tokens (D @ [e])) = Some S" "seam P (D @ [e])"
    "entry_token e = Break b" "low_broken S + break_offset b + d \<ge> 0"
    "isize (break_offset b + d) = Some (break_offset b + d)"
  shows "\<exists>q. offset d p = Some q \<and> printer_ok q (P @ tokens D @ [Break (b\<lparr>break_offset := break_offset b + d\<rparr>)]) S"
proof -
  let ?b = "b\<lparr>break_offset := break_offset b + d\<rparr>"
  let ?e = "e\<lparr>entry_token := Break ?b\<rparr>"
  let ?q = "p\<lparr>buf := (buf p)\<lparr>ring_data := D @ [?e]\<rparr>\<rparr>"
  have off: "offset d p = Some ?q"
    using assms(1,5,7) by (simp add: offset_def buffer_ok_def ring_last_def replace_last_token_still_buffered_def ring_last_mut_def)
  have sz: "entry_size e < 0" using assms(1,5) by (simp add: buffer_ok_def)
  have inv: "matched [] (rev D)" "levels 0 (Break b # waiting (rev D))" "fresh False (rev D)" "rooted (D @ [e])"
    "scan_stack p = unsettled (ring_offset (buf p)) (D @ [e])" "left_total p \<ge> 1"
    "right_total p = left_total p + weights (tokens (D @ [e]))" "entries_ok (left_total p) D [Break b]"
    "entry_ok (left_total p + weights (tokens D)) e []"
    using assms(1,5) sz by (simp_all add: buffer_ok_def entries_ok_append)
  have "entries_ok (left_total p) D [Break ?b]"
    using entries_ok_more [of "left_total p" D "[]" "[Break ?b]"] entries_ok_less [of "left_total p" D "[]" "Break b"] inv(8) by simp
  moreover have "entry_ok (left_total p + weights (tokens D)) ?e []" using inv(9) assms(5) by (simp add: entry_ok_def)
  moreover have "rooted (D @ [?e])" 
    by (rule rooted_push_other [OF rooted_less [OF inv(4) sz]]) (use sz in simp_all)
  ultimately have buf: "buffer_ok ?q (D @ [?e])"
    using inv assms(5) sz by (simp add: buffer_ok_def unsettled_append entries_ok_append)
  have "print_ok p P S0 (tokens D)" using print_ok_less [of p P S0 "tokens D" "Break b"] assms(2,5) by simp
  from print_ok_more [OF this, of "[Break ?b]"] have "print_ok ?q P S0 (tokens (D @ [?e]))" by simp
  moreover have "walk S0 (tokens D) = Some S"
    using assms(3,5) by (auto simp: walk_append bind_eq_Some_conv split: if_splits)
  then have "walk S0 (tokens (D @ [?e])) = Some S" using assms(6) by (simp add: walk_append algebra_simps)
  moreover have "seam P (D @ [?e])" using assms(4,5) by (auto simp: seam_def)
  ultimately have "printer_ok ?q (P @ tokens (D @ [?e])) S" using buf by (intro printer_okI)
  then show ?thesis using off by simp
qed

section \<open>A hard break in place of another break\<close>

definition two_words :: "int \<Rightarrow> string option" where
  "two_words off = do {
     p \<leftarrow> ibox 0 (printer_new 120 None);
     p \<leftarrow> word_op ''x'' p;
     p \<leftarrow> break_offset_op 1 off p;
     p \<leftarrow> hardbreak_if_not_bol p;
     p \<leftarrow> word_op ''y'' p;
     p \<leftarrow> end_op p;
     eof p
   }"

lemmas client_defs = word_op_def end_op_def ibox_def rbox_def break_offset_op_def default_break_def hardbreak_if_not_bol_def hardbreak_def spaces_def
  is_bol_or_only_ind_def last_token_still_buffered_def replace_last_token_still_buffered_def hardbreak_tok_offset_def
  is_hardbreak_def token_has_non_whitespace_content_def ascii_blank_def

text \<open>
  A buffered break that is turned into a hard break need not end the line. For two words in a block with a
  break of any non-zero offset between them, \<open>hardbreak_if_not_bol\<close> replaces the break by a hard break, but the
  running total keeps the width of the old one, so the block counts as fitting and 65535 blanks are
  printed in place of the line end; when the offset of the break is zero, the line ends.
\<close>

lemma replaced_break_not_hard: "off \<noteq> 0 \<Longrightarrow> two_words off = Some (''x'' @ replicate 65535 blank @ ''y'')"
  by (simp add: two_words_def client_defs run_defs)

lemma appended_break_hard: "two_words 0 = Some (''x'' @ [newline] @ ''y'')"
  by (simp add: two_words_def client_defs run_defs)

end
