(* ===== verification/Spec2Isabelle.thy ===== *)
theory Spec2Isabelle
  imports Sym_Sound Sym_Bounds Hash_Context Tx_Share Fmt_Client
begin

text \<open>
  A verification development for Foundry, the Ethereum development toolkit. It models, as executable
  definitions that follow the Rust source, the parts of the toolkit which are algorithms of its own:

  \<^item> the expression engine of the symbolic EVM (crates/evm/symbolic/src/runtime/expr): what the
    symbolic executor builds for every stack word and path condition, how it is simplified on
    construction and how it is evaluated in a solver model;
  \<^item> the transaction pool of Anvil, the local node (crates/anvil/src/eth/pool), with its snapshots;
  \<^item> the pretty-printing engine of the Solidity formatter (crates/fmt/src/pp).

  \<^bold>\<open>The expression engine.\<close> \<open>Sym_Expr\<close> has the nodes \<open>SymExpr\<close> and \<open>SymBoolExpr\<close> as mutually recursive
  datatypes, a reference semantics \<open>eval_word\<close>/\<open>eval_bool\<close> by structural recursion and the evaluator with memo
  tables of expr/mod.rs; the two agree. Hashing of nodes, Keccak and signed division are
  fields of the record \<open>SymCx\<close>: what another crate computes. \<open>Sym_Width\<close> has the width analysis with
  its worklist, known bytes and low masks; \<open>Sym_Select\<close> the connectives, conditionals and the bounded
  search for the condition behind a Boolean word; \<open>Sym_Count\<close> the unfolded-size counter which guards
  rewrites that duplicate an operand; \<open>Sym_Build\<close> and \<open>Sym_Rebuild\<close> the arms of \<open>binop\<close> and \<open>ternop\<close>;
  \<open>Sym_Sound\<close> shows that the constructors keep the value of the operation under every model.
  \<open>Sym_Cmp\<close> has the comparison constructor of bool.rs with its expansion of nested conditionals and the guard
  that bounds the expansion; \<open>Sym_Facts\<close> what is read off the path conditions (forced constants, implied
  orders, upper bounds) and off pairs of words (constant differences), each proved against
  every model of the path. \<open>Memo_State\<close> has the rules for computations with memo tables in the state monad, and
  \<open>Sym_Bounds\<close> uses them for the bound analysis of the path state (runtime/state.rs) and its search for words with
  one possible value.

  \<^bold>\<open>Hash-consing.\<close> The code compares expressions by pointer. \<open>Hash_Cons\<close> has the table of weak references of
  hashcons.rs over an explicit heap of nodes, its lookup loop, which removes dead entries, and its sweep;
  \<open>Hash_Context\<close> has the context of cx.rs that owns the tables and, as an inductive run, the making and dropping of
  nodes. In every reached context a handle stands for one expression, and two handles are equal exactly
  if the expressions are, so the theories above compare expressions by structure. The order in which the hash table is
  probed, the allocator and the hash function are fields of the record \<open>Host\<close> with the laws \<open>host_laws\<close>.

  \<^bold>\<open>The transaction pool.\<close> \<open>Tx_Pending\<close> has the waiting queue of transactions.rs with its indices,
  \<open>Tx_Ready\<close> the ready queue and its iterator, both as records of maps; \<open>Tx_Prune\<close> and \<open>Tx_Iter\<close> prove
  the operations of the ready queue: the counting invariant that ties the unlock links to the
  required markers, and that the iterator yields the best available transaction first.
  \<open>Tx_Pool\<close> has \<open>PoolInner\<close> and \<open>Pool\<close> of mod.rs with the listeners, \<open>Tx_Promote\<close> shows that promotion chains
  and pruning end, and \<open>Tx_Run\<close> takes the operations as the steps of an inductive run: in every reached
  pool no operation panics, the queues are consistent, and a mined block unblocks what
  waited for it. The order in which a hash table is visited is the parameter \<open>IterOrder\<close> with the law \<open>iter_law\<close>,
  that each element is visited once; sending on a channel is the parameter \<open>try_send\<close>. The map of ready
  transactions is behind an \<open>Arc<RwLock<..>>\<close>: \<open>Tx_Share\<close> has the queues with their pointers in a store, the snapshots
  and the handlers of crates/anvil/src/eth/api.rs that take and revert them. It shows that the live pool and the snapshots never
  share a map, that therefore the node acts as if queues were plain values, which is what the other
  theories take them for, and that a revert brings back the queues of the snapshot.

  \<^bold>\<open>The pretty printer.\<close> \<open>Fmt_Ring\<close> has the ring buffer of ring.rs with the locale of an indexed queue, \<open>Fmt_Printer\<close> the engine
  of mod.rs with integers of the width of the source: an operation on \<open>isize\<close> or \<open>usize\<close> that overflows is a panic,
  and \<open>as\<close> wraps around. \<open>Fmt_Ideal\<close> is the same engine on unbounded integers, on which layouts are reasoned about:
  \<open>Fmt_Scan\<close> has the scan stack and the sizes it finds, \<open>Fmt_Layout\<close> the specification of a layout as an inductive
  relation between tokens and text, \<open>Fmt_Sound\<close> that what is printed is a layout. \<open>Fmt_Machine\<close> and
  \<open>Fmt_Run\<close> show that the engine of the code computes the same as long as the costs of the tokens (their
  lengths, blanks and offsets) add up to less than \<open>2 ^ 62\<close>, which a token sequence in memory cannot exceed by its
  texts, and conclude that it does not panic and prints a layout. \<open>Fmt_Client\<close> has the operations of convenience.rs and
  helpers.rs, and shows that a break which \<open>hardbreak_if_not_bol\<close> turns into a hard break need not end the line.

  \<^bold>\<open>Conventions.\<close> \<open>None\<close> as the result of an operation is a panic or a loop that does not end, unless
  the source itself returns an \<open>Option\<close>; a \<open>Result\<close> is a sum with the error on the left. Words are machine
  words of their width. Loops whose end is not structural are \<open>partial_function\<close>s or \<open>function\<close>s with a
  measure, and that they return is a theorem. The run of the pool is bounded by \<open>2 ^ 64\<close> steps because the
  submission counter is a 64-bit word. The invariant of the ready queue holds for transactions
  that provide one marker and do not require it, which is how every caller builds them.

  \<^bold>\<open>Not modelled.\<close> Everything that runs on revm, alloy, the solar compiler or the network: the
  executors, cheatcodes, RPC handlers, forking, the test runner, the command lines. Of the expression engine,
  the printer of SMT formulas and the storage-key rewrites.
\<close>

end
